(* ===== verification/Disc_Prelude.thy ===== *)
theory Disc_Prelude
  imports Main "HOL-Library.Word" "HOL-Library.Monad_Syntax"
begin

unbundle bit_operations_syntax

text \<open>
  The vocabulary the component theories share: the machine and clock types of the sources, the
  operations of Rust's \<open>Vec\<close>, \<open>ArrayVec\<close> and \<open>Iterator\<close> that the code uses, and the list, option
  and word lemmas that the component proofs rest on.

  A Rust function that can panic (an index out of range, \<open>unreachable!\<close>, \<open>expect\<close>) is a function
  into \<^typ>\<open>'a option\<close>: \<^term>\<open>None\<close> is the panic, \<^term>\<open>Some r\<close> the return of \<^term>\<open>r\<close>.
  Values of type \<open>Instant\<close> and \<open>Duration\<close> are natural numbers (nanoseconds); an operation that
  reads the clock takes the instant it reads as an argument.
\<close>

type_synonym byte = "8 word"
type_synonym u16 = "16 word"
type_synonym u32 = "32 word"
type_synonym u64 = "64 word"
type_synonym u128 = "128 word"
type_synonym u256 = "256 word"
type_synonym instant = nat
type_synonym duration = nat
type_synonym node_id = u256

named_theorems vec_simps \<open>rewriting the vector operations to list functions\<close>

section \<open>Vectors and iterators\<close>

text \<open>\<open>Vec::get\<close> and indexing: out of range is the panic.\<close>

definition vec_get :: "nat \<Rightarrow> 'a list \<Rightarrow> 'a option" where
  "vec_get i xs = (if i < length xs then Some (xs ! i) else None)"

text \<open>\<open>remove(i)\<close> returns the element and shifts the rest down; it panics out of range.\<close>

definition vec_remove :: "nat \<Rightarrow> 'a list \<Rightarrow> ('a \<times> 'a list) option" where
  "vec_remove i xs = (if i < length xs then Some (xs ! i, take i xs @ drop (Suc i) xs) else None)"

text \<open>\<open>ArrayVec::insert\<close> and \<open>ArrayVec::push\<close> panic past the capacity, \<open>insert\<close> also past the end.\<close>

definition av_insert :: "nat \<Rightarrow> nat \<Rightarrow> 'a \<Rightarrow> 'a list \<Rightarrow> 'a list option" where
  "av_insert cap i x xs =
     (if i \<le> length xs \<and> length xs < cap then Some (take i xs @ x # drop i xs) else None)"

definition av_push :: "nat \<Rightarrow> 'a \<Rightarrow> 'a list \<Rightarrow> 'a list option" where
  "av_push cap x xs = (if length xs < cap then Some (xs @ [x]) else None)"

text \<open>\<open>usize::checked_sub\<close>.\<close>

definition checked_sub :: "nat \<Rightarrow> nat \<Rightarrow> nat option" where
  "checked_sub a b = (if b \<le> a then Some (a - b) else None)"

text \<open>\<open>Iterator::position\<close>: the index of the first element that satisfies the predicate.\<close>

primrec position :: "('a \<Rightarrow> bool) \<Rightarrow> 'a list \<Rightarrow> nat option" where
  "position P [] = None"
| "position P (x # xs) = (if P x then Some 0 else map_option Suc (position P xs))"

text \<open>\<open>Iterator::find_map\<close>: the first result that is not \<^term>\<open>None\<close>.\<close>

primrec find_map :: "('a \<Rightarrow> 'b option) \<Rightarrow> 'a list \<Rightarrow> 'b option" where
  "find_map f [] = None"
| "find_map f (x # xs) = (case f x of Some y \<Rightarrow> Some y | None \<Rightarrow> find_map f xs)"

subsection \<open>Lemmas\<close>

lemma vec_get_Some [simp]: "vec_get i xs = Some x \<longleftrightarrow> i < length xs \<and> x = xs ! i"
  by (auto simp: vec_get_def)

lemma vec_get_less [simp]: "i < length xs \<Longrightarrow> vec_get i xs = Some (xs ! i)"
  by (simp add: vec_get_def)

lemma vec_get_0_Cons [simp]: "vec_get 0 (x # xs) = Some x"
  by (simp add: vec_get_def)

lemma vec_remove_middle [vec_simps]:
  "i = length xs \<Longrightarrow> vec_remove i (xs @ y # ys) = Some (y, xs @ ys)"
  by (simp add: vec_remove_def)

lemma vec_remove_0 [vec_simps]: "vec_remove 0 (y # ys) = Some (y, ys)"
  by (simp add: vec_remove_def)

lemma av_push_less [vec_simps]: "length xs < cap \<Longrightarrow> av_push cap x xs = Some (xs @ [x])"
  by (simp add: av_push_def)

lemma av_insert_middle [vec_simps]:
  "i = length xs \<Longrightarrow> length xs + length ys < cap \<Longrightarrow> av_insert cap i x (xs @ ys) = Some (xs @ x # ys)"
  by (simp add: av_insert_def)

lemma checked_sub_1 [simp]: "checked_sub (Suc n) 1 = Some n" "checked_sub (Suc n) (Suc 0) = Some n"
  by (simp_all add: checked_sub_def)

lemma checked_sub_0 [simp]: "checked_sub 0 (Suc 0) = None"
  by (simp add: checked_sub_def)

lemma position_None [simp]: "position P xs = None \<longleftrightarrow> (\<forall>x\<in>set xs. \<not> P x)"
  by (induction xs) auto

lemma position_SomeD:
  "position P xs = Some i \<Longrightarrow> i < length xs \<and> P (xs ! i) \<and> (\<forall>j<i. \<not> P (xs ! j))"
proof (induction xs arbitrary: i)
  case (Cons x xs)
  then show ?case by (cases i) (auto simp: less_Suc_eq_0_disj split: if_splits)
qed simp

lemma position_split:
  assumes "position P xs = Some i"
  obtains ys y zs where "xs = ys @ y # zs" "length ys = i" "P y" "\<forall>x\<in>set ys. \<not> P x"
proof
  from position_SomeD [OF assms] have *: "i < length xs" "P (xs ! i)" "\<forall>j<i. \<not> P (xs ! j)"
    by auto
  show "xs = take i xs @ xs ! i # drop (Suc i) xs" using * by (simp add: id_take_nth_drop)
  show "length (take i xs) = i" using * by simp
  show "P (xs ! i)" using * by simp
  show "\<forall>x\<in>set (take i xs). \<not> P x" using * by (auto simp: in_set_conv_nth)
qed

lemma position_append_left:
  "(\<forall>x\<in>set xs. \<not> P x) \<Longrightarrow> position P (xs @ ys) = map_option (\<lambda>i. length xs + i) (position P ys)"
  by (induction xs) (auto simp: option.map_comp comp_def option.map_ident cong: option.map_cong)

lemma find_map_None [simp]: "find_map f xs = None \<longleftrightarrow> (\<forall>x\<in>set xs. f x = None)"
  by (induction xs) (auto split: option.splits)

lemma find_eq_position: "List.find P xs = map_option (\<lambda>i. xs ! i) (position P xs)"
  by (induction xs) (auto simp: option.map_comp comp_def)

lemma filter_eq_self_iff: "filter P xs = xs \<longleftrightarrow> (\<forall>x\<in>set xs. P x)"
  by (induction xs) (auto, metis impossible_Cons length_filter_le)

lemma filter_eq_Nil_iff: "filter P xs = [] \<longleftrightarrow> (\<forall>x\<in>set xs. \<not> P x)"
  by (induction xs) auto

end
