(* ===== verification/Disc_Key.thy ===== *)
theory Disc_Key
  imports Disc_Prelude
begin

text \<open>
  \<open>src/kbucket/key.rs\<close> and \<open>BucketIndex\<close> of \<open>src/kbucket.rs\<close>: keys, the XOR metric and the index of
  the bucket that covers a distance. A 32-byte hash is represented by the 256-bit number that
  \<open>U256::from\<close> reads from it (big endian), so \<open>a ^ b\<close> is \<^term>\<open>a XOR b\<close>.
\<close>

section \<open>Definitions\<close>

definition NUM_BUCKETS :: nat where
  "NUM_BUCKETS = 256"

record 'id key =
  preimage :: 'id
  hash :: u256

definition key_eq :: "'id key \<Rightarrow> 'id key \<Rightarrow> bool" where
  "key_eq a b = (hash a = hash b)"

definition key_new_raw :: "'id \<Rightarrow> u256 \<Rightarrow> 'id key" where
  "key_new_raw p h = \<lparr>preimage = p, hash = h\<rparr>"

definition key_from_node_id :: "node_id \<Rightarrow> node_id key" where
  "key_from_node_id n = \<lparr>preimage = n, hash = n\<rparr>"

definition distance :: "'a key \<Rightarrow> 'b key \<Rightarrow> u256" where
  "distance a b = hash a XOR hash b"

text \<open>\<open>U256::leading_zeros\<close>.\<close>

definition leading_zeros :: "u256 \<Rightarrow> nat" where
  "leading_zeros w = length (takeWhile (\<lambda>i. \<not> bit w i) (rev [0..<256]))"

definition log2_distance :: "'a key \<Rightarrow> 'b key \<Rightarrow> nat option" where
  "log2_distance a b =
     (let log_dist = 256 - leading_zeros (distance a b)
      in if log_dist = 0 then None else Some log_dist)"

definition bucket_index :: "u256 \<Rightarrow> nat option" where
  "bucket_index d = checked_sub (NUM_BUCKETS - leading_zeros d) 1"

section \<open>The bucket index is the highest set bit\<close>

lemma takeWhile_rev_upt_less:
  assumes "bit w i" "i < n" "\<forall>j. i < j \<and> j < n \<longrightarrow> \<not> bit (w :: u256) j"
  shows "length (takeWhile (\<lambda>j. \<not> bit w j) (rev [0..<n])) = n - Suc i"
proof -
  have split: "[0..<n] = [0..<i] @ i # [Suc i..<n]"
    using assms(2) upt_add_eq_append [of 0 i "n - i"] by (simp add: upt_conv_Cons)
  have "takeWhile (\<lambda>j. \<not> bit w j) (rev [0..<n]) = rev [Suc i..<n]"
    unfolding split using assms(1,3) by (simp add: takeWhile_append2 takeWhile_tail)
  then show ?thesis by simp
qed

lemma highest_bit_exists:
  assumes "(w :: u256) \<noteq> 0"
  obtains i where "i < 256" "bit w i" "\<And>j. i < j \<Longrightarrow> \<not> bit w j"
proof -
  let ?B = "{i. bit w i}"
  have bound: "i < 256" if "bit w i" for i
    using bit_imp_le_length [OF that] by simp
  then have fin: "finite ?B" by (auto intro: finite_subset [of _ "{..<256}"])
  from assms have ne: "?B \<noteq> {}" by (auto simp: bit_eq_iff)
  have "bit w (Max ?B)" using Max_in [OF fin ne] by simp
  moreover have "\<not> bit w j" if "Max ?B < j" for j
    using that Max_ge [OF fin, of j] by fastforce
  ultimately show thesis using bound that by blast
qed

lemma leading_zeros_0 [simp]: "leading_zeros 0 = 256"
proof -
  have "takeWhile (\<lambda>i. \<not> bit (0 :: u256) i) (rev [0..<256]) = rev [0..<256]"
    by (simp only: takeWhile_eq_all_conv) simp
  then show ?thesis by (simp only: leading_zeros_def) simp
qed

lemma leading_zeros_bit:
  assumes "bit w i" "\<And>j. i < j \<Longrightarrow> \<not> bit w j"
  shows "leading_zeros w = 255 - i"
  using takeWhile_rev_upt_less [of w i 256] assms bit_imp_le_length [OF assms(1)]
  by (simp add: leading_zeros_def)

lemma bucket_index_0 [simp]: "bucket_index 0 = None"
  by (simp add: bucket_index_def checked_sub_def NUM_BUCKETS_def)

lemma bucket_index_bit:
  assumes "bit w i" "\<And>j. i < j \<Longrightarrow> \<not> bit w j"
  shows "bucket_index w = Some i"
  using leading_zeros_bit [OF assms] bit_imp_le_length [OF assms(1)]
  by (simp add: bucket_index_def checked_sub_def NUM_BUCKETS_def)

lemma bucket_index_Some_iff:
  "bucket_index w = Some i \<longleftrightarrow> bit w i \<and> (\<forall>j>i. \<not> bit w j)"
proof
  assume *: "bucket_index w = Some i"
  then have "w \<noteq> 0" by auto
  then obtain k where "bit w k" "\<And>j. k < j \<Longrightarrow> \<not> bit w j"
    by (rule highest_bit_exists) blast
  with bucket_index_bit [of w k] * show "bit w i \<and> (\<forall>j>i. \<not> bit w j)" by simp
qed (auto intro: bucket_index_bit)

lemma bucket_index_None_iff [simp]: "bucket_index w = None \<longleftrightarrow> w = 0"
proof
  assume "bucket_index w = None"
  show "w = 0"
  proof (rule ccontr)
    assume "w \<noteq> 0"
    then obtain k where "bit w k" "\<And>j. k < j \<Longrightarrow> \<not> bit w j"
      by (rule highest_bit_exists) blast
    with bucket_index_bit [of w k] \<open>bucket_index w = None\<close> show False by simp
  qed
qed simp

lemma bucket_index_bound: "bucket_index w = Some i \<Longrightarrow> i < NUM_BUCKETS"
  using bit_imp_le_length [of w i] by (auto simp: bucket_index_Some_iff NUM_BUCKETS_def)

lemma log2_distance_bucket_index:
  "log2_distance a b = map_option Suc (bucket_index (distance a b))"
  by (auto simp: log2_distance_def bucket_index_def checked_sub_def NUM_BUCKETS_def Let_def)

section \<open>The XOR metric\<close>

lemma distance_commute: "distance a b = distance b a"
  by (simp add: distance_def xor.commute)

lemma distance_eq_0_iff [simp]: "distance a b = 0 \<longleftrightarrow> hash a = hash b"
  by (auto simp: distance_def bit_eq_iff bit_xor_iff)

lemma distance_relay: "distance a c = distance a b XOR distance b c"
  by (simp add: distance_def bit_eq_iff bit_xor_iff) blast

text \<open>Two words that agree above bit \<^term>\<open>k\<close> are ordered by their bit \<^term>\<open>k\<close>.\<close>

lemma word_less_highest_bit:
  fixes a b :: "'a::len word"
  assumes "\<not> bit a k" "bit b k" "\<And>j. k < j \<Longrightarrow> bit a j = bit b j"
  shows "a < b"
proof -
  have high: "drop_bit (Suc k) a = drop_bit (Suc k) b"
    using assms(3) by (simp add: bit_eq_iff bit_drop_bit_eq)
  have split: "uint w = 2 ^ Suc k * uint (drop_bit (Suc k) w) + uint (take_bit (Suc k) w)"
    for w :: "'a word"
  proof -
    have "uint w = 2 ^ Suc k * (uint w div 2 ^ Suc k) + uint w mod 2 ^ Suc k"
      by (simp only: mult_div_mod_eq)
    moreover have "uint (drop_bit (Suc k) w) = uint w div 2 ^ Suc k"
      unfolding unsigned_drop_bit_eq take_bit_int_eq_self [OF uint_ge_0 uint_lt2p]
      by (rule drop_bit_eq_div)
    moreover have "uint (take_bit (Suc k) w) = uint w mod 2 ^ Suc k"
      unfolding unsigned_take_bit_eq by (rule take_bit_eq_mod)
    ultimately show ?thesis by (simp only:)
  qed
  have ta: "uint (take_bit (Suc k) a) = take_bit k (uint a)"
    using assms(1) unfolding unsigned_take_bit_eq
    by (intro bit_eqI) (auto simp: bit_take_bit_iff bit_uint_iff less_Suc_eq)
  have "take_bit k (uint a) < 2 ^ k" by simp
  moreover have "2 ^ k \<le> uint (take_bit (Suc k) b)"
  proof (rule ccontr)
    assume "\<not> 2 ^ k \<le> uint (take_bit (Suc k) b)"
    then have "take_bit k (uint (take_bit (Suc k) b)) = uint (take_bit (Suc k) b)"
      by (simp add: take_bit_int_eq_self)
    moreover have "bit (uint (take_bit (Suc k) b)) k"
      using assms(2) bit_imp_le_length [OF assms(2)] by (simp add: bit_uint_iff bit_take_bit_iff)
    ultimately show False by (metis bit_take_bit_iff less_irrefl)
  qed
  moreover note split [of a, unfolded high ta] split [of b]
  ultimately have "uint a < uint b" by linarith
  then show ?thesis by (simp only: word_less_def)
qed

end
