(* ===== verification/Disc_Bucket.thy ===== *)
theory Disc_Bucket
  imports Disc_Key "HOL-Library.Multiset"
begin

text \<open>
  \<open>src/kbucket/bucket.rs\<close>: a single k-bucket. The nodes of a bucket are a list from the
  least-recently to the most-recently connected one; \<open>first_connected_pos\<close> caches where the connected
  suffix starts, and one node may be pending. Every operation is a function from the bucket to its
  result and the new bucket; \<^term>\<open>None\<close> is a panic of the code.

  The invariant \<open>kb_inv\<close> states what the operations keep; \<open>kb_abs\<close> abstracts a bucket to the pair of
  its disconnected and its connected queue, on which the operations have a short specification.
\<close>

section \<open>Data\<close>

definition MAX_NODES_PER_BUCKET :: nat where
  "MAX_NODES_PER_BUCKET = 16"

datatype connection_direction = Incoming | Outgoing

datatype connection_state = Connected | Disconnected

record node_status =
  st_direction :: connection_direction
  st_state :: connection_state

record ('id, 'v) node =
  n_key :: "'id key"
  n_value :: 'v
  n_status :: node_status

record ('id, 'v) pending_node =
  pn_node :: "('id, 'v) node"
  pn_replace :: instant

type_synonym 'v filter = "'v \<Rightarrow> 'v list \<Rightarrow> bool"

record ('id, 'v) kbucket =
  kb_nodes :: "('id, 'v) node list"
  kb_first_connected_pos :: "nat option"
  kb_pending :: "('id, 'v) pending_node option"
  kb_pending_timeout :: duration
  kb_filter :: "'v filter option"
  kb_max_incoming :: nat

datatype 'id bucket_insert_result =
    BInserted
  | BPending (disconnected: "'id key")
  | BFailedFilter
  | BTooManyIncoming
  | BFull
  | BNodeExists

datatype failure_reason =
    TooManyIncoming | BucketFilter | TableFilter | KeyNonExistent | BucketFull | InvalidSelfUpdate

datatype update_result =
    Updated | UpdatedAndPromoted | UpdatedPending | UFailed failure_reason | NotModified

record ('id, 'v) applied_pending =
  ap_inserted :: "'id key"
  ap_evicted :: "('id, 'v) node option"

section \<open>Operations\<close>

definition is_connected :: "node_status \<Rightarrow> bool" where
  "is_connected s = (case st_state s of Connected \<Rightarrow> True | Disconnected \<Rightarrow> False)"

definition is_incoming :: "node_status \<Rightarrow> bool" where
  "is_incoming s = (case st_direction s of Outgoing \<Rightarrow> False | Incoming \<Rightarrow> True)"

definition ur_failed :: "update_result \<Rightarrow> bool" where
  "ur_failed r = (case r of UFailed _ \<Rightarrow> True | _ \<Rightarrow> False)"

definition pn_status :: "('id, 'v) pending_node \<Rightarrow> node_status" where
  "pn_status p = n_status (pn_node p)"

definition set_ready_at :: "instant \<Rightarrow> ('id, 'v) pending_node \<Rightarrow> ('id, 'v) pending_node" where
  "set_ready_at t p = p\<lparr>pn_replace := t\<rparr>"

definition kb_new :: "duration \<Rightarrow> nat \<Rightarrow> 'v filter option \<Rightarrow> ('id, 'v) kbucket" where
  "kb_new timeout max_incoming flt =
     \<lparr>kb_nodes = [], kb_first_connected_pos = None, kb_pending = None,
      kb_pending_timeout = timeout, kb_filter = flt, kb_max_incoming = max_incoming\<rparr>"

definition kb_position :: "'id key \<Rightarrow> ('id, 'v) kbucket \<Rightarrow> nat option" where
  "kb_position k b = position (\<lambda>p. key_eq (n_key p) k) (kb_nodes b)"

definition kb_get :: "'id key \<Rightarrow> ('id, 'v) kbucket \<Rightarrow> ('id, 'v) node option" where
  "kb_get k b = List.find (\<lambda>p. key_eq (n_key p) k) (kb_nodes b)"

definition kb_status :: "nat \<Rightarrow> ('id, 'v) kbucket \<Rightarrow> node_status" where
  "kb_status pos b =
     (case vec_get pos (kb_nodes b) of
        Some node \<Rightarrow> n_status node
      | None \<Rightarrow> \<lparr>st_direction = Incoming, st_state = Disconnected\<rparr>)"

definition kb_as_pending :: "'id key \<Rightarrow> ('id, 'v) kbucket \<Rightarrow> ('id, 'v) pending_node option" where
  "kb_as_pending k b =
     (case kb_pending b of
        Some p \<Rightarrow> if key_eq (n_key (pn_node p)) k then Some p else None
      | None \<Rightarrow> None)"

definition kb_num_entries :: "('id, 'v) kbucket \<Rightarrow> nat" where
  "kb_num_entries b = length (kb_nodes b)"

definition kb_num_connected :: "('id, 'v) kbucket \<Rightarrow> nat" where
  "kb_num_connected b =
     (case kb_first_connected_pos b of None \<Rightarrow> 0 | Some i \<Rightarrow> length (kb_nodes b) - i)"

definition kb_num_disconnected :: "('id, 'v) kbucket \<Rightarrow> nat" where
  "kb_num_disconnected b = length (kb_nodes b) - kb_num_connected b"

definition is_full :: "('id, 'v) kbucket \<Rightarrow> bool" where
  "is_full b = (length (kb_nodes b) = MAX_NODES_PER_BUCKET)"

definition is_max_incoming :: "('id, 'v) kbucket \<Rightarrow> bool" where
  "is_max_incoming b =
     (length (filter (\<lambda>n. is_connected (n_status n) \<and> is_incoming (n_status n)) (kb_nodes b))
        \<ge> kb_max_incoming b)"

definition passes_filter :: "'v \<Rightarrow> ('id, 'v) kbucket \<Rightarrow> bool" where
  "passes_filter v b =
     (case kb_filter b of None \<Rightarrow> True | Some f \<Rightarrow> f v (map n_value (kb_nodes b)))"

definition update_first_connected_pos_for_removal ::
  "nat \<Rightarrow> ('id, 'v) kbucket \<Rightarrow> ('id, 'v) kbucket" where
  "update_first_connected_pos_for_removal removed b =
     b\<lparr>kb_first_connected_pos :=
        (case kb_first_connected_pos b of
           None \<Rightarrow> None
         | Some fcp \<Rightarrow>
             if removed < fcp then Some (fcp - 1)
             else if fcp < length (kb_nodes b) then Some fcp else None)\<rparr>"

definition clear_pending_if :: "bool \<Rightarrow> ('id, 'v) kbucket \<Rightarrow> ('id, 'v) kbucket" where
  "clear_pending_if c b = (if c then b\<lparr>kb_pending := None\<rparr> else b)"

definition kb_insert ::
  "instant \<Rightarrow> ('id, 'v) node \<Rightarrow> ('id, 'v) kbucket
     \<Rightarrow> ('id bucket_insert_result \<times> ('id, 'v) kbucket) option" where
  "kb_insert now node b =
     (if kb_position (n_key node) b \<noteq> None then Some (BNodeExists, b)
      else if \<not> passes_filter (n_value node) b then Some (BFailedFilter, b)
      else
        let inserting_pending =
          (case kb_pending b of None \<Rightarrow> False | Some p \<Rightarrow> key_eq (n_key (pn_node p)) (n_key node))
        in case st_state (n_status node) of
             Connected \<Rightarrow>
               if is_incoming (n_status node) \<and> is_max_incoming b then Some (BTooManyIncoming, b)
               else if is_full b then
                 (if kb_first_connected_pos b = Some 0 \<or> kb_pending b \<noteq> None then Some (BFull, b)
                  else do {
                    first \<leftarrow> vec_get 0 (kb_nodes b);
                    Some (BPending (n_key first),
                          b\<lparr>kb_pending :=
                             Some \<lparr>pn_node = node, pn_replace = now + kb_pending_timeout b\<rparr>\<rparr>)
                  })
               else do {
                 ns \<leftarrow> av_push MAX_NODES_PER_BUCKET node (kb_nodes b);
                 Some (BInserted,
                       clear_pending_if inserting_pending
                         (b\<lparr>kb_first_connected_pos :=
                              (case kb_first_connected_pos b of
                                 Some p \<Rightarrow> Some p | None \<Rightarrow> Some (length (kb_nodes b))),
                            kb_nodes := ns\<rparr>))
               }
           | Disconnected \<Rightarrow>
               if is_full b then Some (BFull, b)
               else
                 (case kb_first_connected_pos b of
                    Some p \<Rightarrow> do {
                      ns \<leftarrow> av_insert MAX_NODES_PER_BUCKET p node (kb_nodes b);
                      Some (BInserted,
                            clear_pending_if inserting_pending
                              (b\<lparr>kb_nodes := ns, kb_first_connected_pos := Some (p + 1)\<rparr>))
                    }
                  | None \<Rightarrow> do {
                      ns \<leftarrow> av_push MAX_NODES_PER_BUCKET node (kb_nodes b);
                      Some (BInserted, clear_pending_if inserting_pending (b\<lparr>kb_nodes := ns\<rparr>))
                    }))"

definition kb_apply_pending ::
  "instant \<Rightarrow> ('id, 'v) kbucket \<Rightarrow> (('id, 'v) applied_pending option \<times> ('id, 'v) kbucket) option" where
  "kb_apply_pending now b =
     (case kb_pending b of
        None \<Rightarrow> Some (None, b)
      | Some pending \<Rightarrow>
          (if pn_replace pending \<le> now then
             let b0 = b\<lparr>kb_pending := None\<rparr>; inserted = n_key (pn_node pending)
             in if is_full b0 then do {
                  first \<leftarrow> vec_get 0 (kb_nodes b0);
                  if is_connected (n_status first) then Some (None, b0)
                  else if \<not> passes_filter (n_value (pn_node pending)) b0 then Some (None, b0)
                  else if is_connected (pn_status pending) \<and> is_incoming (pn_status pending)
                          \<and> is_max_incoming b0 then Some (None, b0)
                  else if is_connected (pn_status pending) then do {
                    (evicted, ns) \<leftarrow> vec_remove 0 (kb_nodes b0);
                    let fcp = (case kb_first_connected_pos b0 of
                                 None \<Rightarrow> Some (length ns) | Some p \<Rightarrow> checked_sub p 1);
                    ns' \<leftarrow> av_push MAX_NODES_PER_BUCKET (pn_node pending) ns;
                    Some (Some \<lparr>ap_inserted = inserted, ap_evicted = Some evicted\<rparr>,
                          b0\<lparr>kb_first_connected_pos := fcp, kb_nodes := ns'\<rparr>)
                  }
                  else (case kb_first_connected_pos b0 of
                    Some p \<Rightarrow>
                      (case checked_sub p 1 of
                         Some insert_pos \<Rightarrow> do {
                           (evicted, ns) \<leftarrow> vec_remove 0 (kb_nodes b0);
                           ns' \<leftarrow> av_insert MAX_NODES_PER_BUCKET insert_pos (pn_node pending) ns;
                           Some (Some \<lparr>ap_inserted = inserted, ap_evicted = Some evicted\<rparr>,
                                 b0\<lparr>kb_nodes := ns'\<rparr>)
                         }
                       | None \<Rightarrow> Some (None, b0))
                  | None \<Rightarrow> do {
                      (evicted, ns) \<leftarrow> vec_remove 0 (kb_nodes b0);
                      ns' \<leftarrow> av_push MAX_NODES_PER_BUCKET (pn_node pending) ns;
                      Some (Some \<lparr>ap_inserted = inserted, ap_evicted = Some evicted\<rparr>,
                            b0\<lparr>kb_nodes := ns'\<rparr>)
                    })
                }
                else do {
                  (r, b1) \<leftarrow> kb_insert now (pn_node pending) b0;
                  case r of
                    BInserted \<Rightarrow> Some (Some \<lparr>ap_inserted = inserted, ap_evicted = None\<rparr>, b1)
                  | BFull \<Rightarrow> None
                  | BPending _ \<Rightarrow> Some (None, b1)
                  | BNodeExists \<Rightarrow> Some (None, b1)
                  | BFailedFilter \<Rightarrow> Some (None, b1)
                  | BTooManyIncoming \<Rightarrow> Some (None, b1)
                }
           else Some (None, b)))"

definition kb_update_pending :: "node_status \<Rightarrow> ('id, 'v) kbucket \<Rightarrow> ('id, 'v) kbucket" where
  "kb_update_pending s b =
     (case kb_pending b of
        None \<Rightarrow> b
      | Some p \<Rightarrow> b\<lparr>kb_pending := Some (p\<lparr>pn_node := (pn_node p)\<lparr>n_status := s\<rparr>\<rparr>)\<rparr>)"

definition set_status ::
  "connection_state \<Rightarrow> connection_direction option \<Rightarrow> ('id, 'v) node \<Rightarrow> ('id, 'v) node" where
  "set_status s d n =
     n\<lparr>n_status := \<lparr>st_direction = (case d of Some d' \<Rightarrow> d' | None \<Rightarrow> st_direction (n_status n)),
                  st_state = s\<rparr>\<rparr>"

definition kb_update_status ::
  "instant \<Rightarrow> 'id key \<Rightarrow> connection_state \<Rightarrow> connection_direction option \<Rightarrow> ('id, 'v) kbucket
     \<Rightarrow> (update_result \<times> ('id, 'v) kbucket) option" where
  "kb_update_status now key state direction b =
     (case kb_position key b of
        Some pos \<Rightarrow> do {
          (old, ns) \<leftarrow> vec_remove pos (kb_nodes b);
          let node = set_status state direction old;
          let not_modified = (n_status old = n_status node);
          let connecting = (state = Connected);
          let fcp = (case st_state (n_status old) of
                       Connected \<Rightarrow>
                         if kb_first_connected_pos b = Some pos \<and> pos = length ns then None
                         else kb_first_connected_pos b
                     | Disconnected \<Rightarrow>
                         (case kb_first_connected_pos b of
                            None \<Rightarrow> None | Some p \<Rightarrow> checked_sub p 1));
          let pending = (if pos = 0 \<and> connecting then None else kb_pending b);
          (r, b') \<leftarrow> kb_insert now node
                       (b\<lparr>kb_nodes := ns, kb_first_connected_pos := fcp, kb_pending := pending\<rparr>);
          case r of
            BInserted \<Rightarrow>
              Some (if not_modified then NotModified
                    else if \<not> is_connected (n_status old) \<and> connecting then UpdatedAndPromoted
                    else Updated, b')
          | BTooManyIncoming \<Rightarrow> Some (UFailed TooManyIncoming, b')
          | BFailedFilter \<Rightarrow> Some (UFailed BucketFilter, b')
          | BNodeExists \<Rightarrow> None
          | BFull \<Rightarrow> None
          | BPending _ \<Rightarrow> None
        }
      | None \<Rightarrow>
          (case kb_pending b of
             Some p \<Rightarrow>
               if key_eq (n_key (pn_node p)) key then
                 Some (UpdatedPending,
                       b\<lparr>kb_pending := Some (p\<lparr>pn_node := set_status state direction (pn_node p)\<rparr>)\<rparr>)
               else Some (UFailed KeyNonExistent, b)
           | None \<Rightarrow> Some (UFailed KeyNonExistent, b)))"

definition kb_update_value ::
  "'id key \<Rightarrow> 'v \<Rightarrow> ('id, 'v) kbucket \<Rightarrow> (update_result \<times> ('id, 'v) kbucket) option" where
  "kb_update_value key v b =
     (case kb_position key b of
        Some pos \<Rightarrow> do {
          (node, ns) \<leftarrow> vec_remove pos (kb_nodes b);
          let b0 = b\<lparr>kb_nodes := ns\<rparr>;
          if n_value node = v then do {
            ns' \<leftarrow> av_insert MAX_NODES_PER_BUCKET pos node ns;
            Some (NotModified, b0\<lparr>kb_nodes := ns'\<rparr>)
          }
          else if \<not> passes_filter v b0 then
            Some (UFailed BucketFilter, update_first_connected_pos_for_removal pos b0)
          else do {
            ns' \<leftarrow> av_insert MAX_NODES_PER_BUCKET pos (node\<lparr>n_value := v\<rparr>) ns;
            Some (Updated, b0\<lparr>kb_nodes := ns'\<rparr>)
          }
        }
      | None \<Rightarrow>
          (case kb_pending b of
             Some p \<Rightarrow>
               if key_eq (n_key (pn_node p)) key then
                 Some (UpdatedPending,
                       b\<lparr>kb_pending := Some (p\<lparr>pn_node := (pn_node p)\<lparr>n_value := v\<rparr>\<rparr>)\<rparr>)
               else Some (UFailed KeyNonExistent, b)
           | None \<Rightarrow> Some (UFailed KeyNonExistent, b)))"

definition kb_remove ::
  "instant \<Rightarrow> 'id key \<Rightarrow> ('id, 'v) kbucket \<Rightarrow> (bool \<times> ('id, 'v) kbucket) option" where
  "kb_remove now key b =
     (case kb_position key b of
        Some pos \<Rightarrow> do {
          (_, ns) \<leftarrow> vec_remove pos (kb_nodes b);
          (_, b') \<leftarrow> kb_apply_pending now
                      (update_first_connected_pos_for_removal pos (b\<lparr>kb_nodes := ns\<rparr>));
          Some (True, b')
        }
      | None \<Rightarrow> Some (False, b))"

section \<open>The invariant\<close>

abbreviation conn :: "('id, 'v) node \<Rightarrow> bool" where
  "conn n \<equiv> is_connected (n_status n)"

abbreviation khash :: "('id, 'v) node \<Rightarrow> u256" where
  "khash n \<equiv> hash (n_key n)"

definition inc :: "('id, 'v) node \<Rightarrow> bool" where
  "inc n = (conn n \<and> is_incoming (n_status n))"

definition dis_of :: "('id, 'v) node list \<Rightarrow> ('id, 'v) node list" where
  "dis_of ns = filter (\<lambda>n. \<not> conn n) ns"

definition con_of :: "('id, 'v) node list \<Rightarrow> ('id, 'v) node list" where
  "con_of ns = filter conn ns"

text \<open>The disconnected nodes come first.\<close>

definition before_ok :: "('id, 'v) node \<Rightarrow> ('id, 'v) node \<Rightarrow> bool" where
  "before_ok a b \<longleftrightarrow> (conn a \<longrightarrow> conn b)"

definition part :: "('id, 'v) node list \<Rightarrow> bool" where
  "part ns \<longleftrightarrow> sorted_wrt before_ok ns"

definition fcp_of :: "('id, 'v) node list \<Rightarrow> nat option" where
  "fcp_of ns = (if con_of ns = [] then None else Some (length (dis_of ns)))"

definition pending_ok :: "('id, 'v) kbucket \<Rightarrow> bool" where
  "pending_ok b =
     (case kb_pending b of
        None \<Rightarrow> True
      | Some p \<Rightarrow> khash (pn_node p) \<notin> set (map khash (kb_nodes b)))"

definition kb_inv :: "('id, 'v) kbucket \<Rightarrow> bool" where
  "kb_inv b \<longleftrightarrow>
     part (kb_nodes b) \<and>
     kb_first_connected_pos b = fcp_of (kb_nodes b) \<and>
     length (kb_nodes b) \<le> MAX_NODES_PER_BUCKET \<and>
     length (filter inc (kb_nodes b)) \<le> kb_max_incoming b \<and>
     distinct (map khash (kb_nodes b)) \<and>
     pending_ok b"

named_theorems bucket_defs \<open>unfolding the bucket's auxiliary notions\<close>

lemmas [bucket_defs] = dis_of_def con_of_def fcp_of_def inc_def pending_ok_def

lemma inc_filter_eq:
  "(\<lambda>n. is_connected (n_status n) \<and> is_incoming (n_status n)) = inc"
  by (simp add: fun_eq_iff inc_def)

lemma is_connected_iff [simp]: "is_connected s \<longleftrightarrow> st_state s = Connected"
  by (simp add: is_connected_def split: connection_state.splits)

lemma is_incoming_iff [simp]: "is_incoming s \<longleftrightarrow> st_direction s = Incoming"
  by (simp add: is_incoming_def split: connection_direction.splits)

lemma state_cases: "st_state s = Connected \<or> st_state s = Disconnected"
  by (cases "st_state s") auto

lemma dis_con_set:
  "n \<in> set (dis_of ns) \<Longrightarrow> st_state (n_status n) \<noteq> Connected"
  "n \<in> set (con_of ns) \<Longrightarrow> st_state (n_status n) = Connected"
  by (auto simp: dis_of_def con_of_def)

lemma dis_of_append [simp]: "dis_of (xs @ ys) = dis_of xs @ dis_of ys"
  and con_of_append [simp]: "con_of (xs @ ys) = con_of xs @ con_of ys"
  and dis_of_Nil [simp]: "dis_of [] = []"
  and con_of_Nil [simp]: "con_of [] = []"
  and dis_of_Cons [simp]: "dis_of (n # ns) = (if conn n then dis_of ns else n # dis_of ns)"
  and con_of_Cons [simp]: "con_of (n # ns) = (if conn n then n # con_of ns else con_of ns)"
  by (auto simp: dis_of_def con_of_def)

lemma dis_of_idem [simp]: "dis_of (dis_of ns) = dis_of ns" "con_of (con_of ns) = con_of ns"
  "dis_of (con_of ns) = []" "con_of (dis_of ns) = []"
  by (auto simp: dis_of_def con_of_def filter_eq_Nil_iff)

lemma part_eq: "part ns \<Longrightarrow> dis_of ns @ con_of ns = ns"
proof (induction ns)
  case (Cons n ns)
  then have "dis_of ns @ con_of ns = ns" by (simp add: part_def)
  moreover have "conn n \<Longrightarrow> dis_of ns = []"
    using Cons.prems by (auto simp: part_def before_ok_def dis_of_def filter_eq_Nil_iff)
  ultimately show ?case by auto
qed simp

lemma part_remove: "part (xs @ y # zs) \<Longrightarrow> part (xs @ zs)"
  by (simp add: part_def sorted_wrt_append)

text \<open>
  In a partitioned list a connected node has no disconnected node after it, and a disconnected one
  no connected node before it: what the two adjustments of \<open>first_connected_pos\<close> rely on.
\<close>

lemma part_split:
  assumes "part (xs @ y # zs)"
  shows "conn y \<Longrightarrow> dis_of zs = []" and "\<not> conn y \<Longrightarrow> con_of xs = []"
proof -
  from assms have *: "\<forall>x\<in>set xs. before_ok x y" "\<forall>z\<in>set zs. before_ok y z"
    by (simp_all add: part_def sorted_wrt_append)
  show "dis_of zs = []" if "conn y"
    using *(2) that by (auto simp: before_ok_def dis_of_def filter_eq_Nil_iff)
  show "con_of xs = []" if "\<not> conn y"
    using *(1) that unfolding con_of_def filter_eq_Nil_iff before_ok_def by blast
qed

lemma length_dis_con: "length (dis_of ns) + length (con_of ns) = length ns"
  using sum_length_filter_compl [of conn ns] by (simp add: dis_of_def con_of_def add.commute)

lemma con_of_Nil_iff: "con_of ns = [] \<longleftrightarrow> dis_of ns = ns"
  by (auto simp: con_of_def dis_of_def filter_eq_Nil_iff filter_eq_self_iff)

lemma fcp_of_remove:
  assumes "part (xs @ y # zs)"
  shows "fcp_of (xs @ zs) =
    (case fcp_of (xs @ y # zs) of
       None \<Rightarrow> None
     | Some f \<Rightarrow> if length xs < f then Some (f - 1)
                else if f < length (xs @ zs) then Some f else None)"
proof (cases "conn y")
  case True
  with part_split(1) [OF assms] have dz: "dis_of zs = []" by simp
  then have "length (con_of zs) = length zs" using length_dis_con [of zs] by simp
  with dz True length_dis_con [of xs] show ?thesis
    by (cases "con_of xs"; cases "con_of zs"; cases zs) (simp_all add: fcp_of_def)
next
  case False
  with part_split(2) [OF assms] have "con_of xs = []" by simp
  with False con_of_Nil_iff [of xs] show ?thesis by (auto simp: fcp_of_def)
qed

lemma fcp_of_take_out:
  assumes "part (xs @ y # zs)"
  shows "(case st_state (n_status y) of
            Connected \<Rightarrow>
              if fcp_of (xs @ y # zs) = Some (length xs) \<and> length xs = length (xs @ zs) then None
              else fcp_of (xs @ y # zs)
          | Disconnected \<Rightarrow>
              (case fcp_of (xs @ y # zs) of None \<Rightarrow> None | Some p \<Rightarrow> checked_sub p 1))
         = fcp_of (xs @ zs)"
proof (cases "conn y")
  case True
  with part_split(1) [OF assms] have dz: "dis_of zs = []" by simp
  then have "length (con_of zs) = length zs" using length_dis_con [of zs] by simp
  with dz True length_dis_con [of xs] show ?thesis by (auto simp: fcp_of_def)
next
  case False
  with part_split(2) [OF assms] have "con_of xs = []" by simp
  with False con_of_Nil_iff [of xs] state_cases [of "n_status y"] show ?thesis
    by (auto simp: fcp_of_def checked_sub_def)
qed

section \<open>The abstract bucket\<close>

text \<open>
  Abstractly a bucket is two queues, the disconnected and the connected nodes, each from the least to
  the most recent. Inserting a node appends it to the queue of its state.
\<close>

type_synonym ('id, 'v) abs_bucket = "('id, 'v) node list \<times> ('id, 'v) node list"

definition kb_abs :: "('id, 'v) kbucket \<Rightarrow> ('id, 'v) abs_bucket" where
  "kb_abs b = (dis_of (kb_nodes b), con_of (kb_nodes b))"

definition abs_put :: "('id, 'v) node \<Rightarrow> ('id, 'v) abs_bucket \<Rightarrow> ('id, 'v) abs_bucket" where
  "abs_put n a = (if conn n then (fst a, snd a @ [n]) else (fst a @ [n], snd a))"

definition abs_del :: "u256 \<Rightarrow> ('id, 'v) abs_bucket \<Rightarrow> ('id, 'v) abs_bucket" where
  "abs_del h a = (filter (\<lambda>n. khash n \<noteq> h) (fst a), filter (\<lambda>n. khash n \<noteq> h) (snd a))"

definition place :: "('id, 'v) node \<Rightarrow> ('id, 'v) node list \<Rightarrow> ('id, 'v) node list" where
  "place n ns = dis_of ns @ (if conn n then con_of ns @ [n] else n # con_of ns)"

lemma part_all: "\<forall>n\<in>set ns. \<not> conn n \<Longrightarrow> part ns" "\<forall>n\<in>set ns. conn n \<Longrightarrow> part ns"
  unfolding part_def by (induction ns) (auto simp: before_ok_def)

lemma part_append:
  "part (xs @ ys) \<longleftrightarrow> part xs \<and> part ys \<and> (\<forall>x\<in>set xs. \<forall>y\<in>set ys. before_ok x y)"
  by (simp add: part_def sorted_wrt_append)

lemma part_dis_con [simp]: "part (dis_of ns)" "part (con_of ns)"
  by (simp_all add: part_all(1) part_all(2) dis_of_def con_of_def)

lemma part_single [simp]: "part [n]"
  by (simp add: part_def)

lemma part_place [simp]: "part (place n ns)"
proof -
  have "part (n # con_of ns)" if "\<not> conn n"
    using that part_dis_con(2) [of ns] unfolding part_def by (simp add: before_ok_def)
  then show ?thesis
    by (auto simp: place_def part_append before_ok_def dest: dis_con_set)
qed

lemma mset_dis_con: "mset (dis_of ns) + mset (con_of ns) = mset ns"
  by (induction ns) (simp_all del: is_connected_iff)

lemma mset_place: "mset (place n ns) = add_mset n (mset ns)"
  using mset_dis_con [of ns] by (simp add: place_def ac_simps)

lemma place_facts [simp]:
  shows length_place: "length (place n ns) = Suc (length ns)"
    and set_place: "set (place n ns) = insert n (set ns)"
    and length_inc_place:
      "length (filter inc (place n ns)) = (if inc n then 1 else 0) + length (filter inc ns)"
    and distinct_place:
      "distinct (map khash (place n ns)) \<longleftrightarrow> khash n \<notin> khash ` set ns \<and> distinct (map khash ns)"
proof -
  show "length (place n ns) = Suc (length ns)"
    by (metis mset_place size_add_mset size_mset)
  show "set (place n ns) = insert n (set ns)"
    by (metis mset_place set_mset_add_mset_insert set_mset_mset)
  have "mset (filter inc (place n ns)) = filter_mset inc (add_mset n (mset ns))"
    by (simp add: mset_place)
  then have "size (mset (filter inc (place n ns))) = (if inc n then 1 else 0) + size (mset (filter inc ns))"
    by (simp only: mset_filter) (simp del: size_mset)
  then show "length (filter inc (place n ns)) = (if inc n then 1 else 0) + length (filter inc ns)"
    by (simp only: size_mset)
  have "mset (map khash (place n ns)) = mset (map khash (n # ns))"
    by (simp add: mset_place)
  then have "distinct (map khash (place n ns)) \<longleftrightarrow> distinct (map khash (n # ns))"
    by (rule mset_eq_imp_distinct_iff)
  then show "distinct (map khash (place n ns)) \<longleftrightarrow> khash n \<notin> khash ` set ns \<and> distinct (map khash ns)"
    by simp
qed

lemma dis_con_place [simp]:
  "dis_of (place n ns) = (if conn n then dis_of ns else dis_of ns @ [n])"
  "con_of (place n ns) = (if conn n then con_of ns @ [n] else con_of ns)"
  by (simp_all add: place_def)

lemma place_push:
  assumes "part ns" "conn n \<or> con_of ns = []"
  shows "place n ns = ns @ [n]"
proof (cases "conn n")
  case True
  then have "place n ns = (dis_of ns @ con_of ns) @ [n]" by (simp add: place_def)
  then show ?thesis by (simp only: part_eq [OF assms(1)])
next
  case False
  with assms(2) con_of_Nil_iff [of ns] show ?thesis by (simp add: place_def)
qed

lemma av_insert_place:
  assumes "part ns" "\<not> conn n" "length ns < cap"
  shows "av_insert cap (length (dis_of ns)) n ns = Some (place n ns)"
proof -
  have "av_insert cap (length (dis_of ns)) n (dis_of ns @ con_of ns) = Some (place n ns)"
    using assms(2,3) length_dis_con [of ns] by (subst av_insert_middle) (simp_all add: place_def)
  then show ?thesis by (simp only: part_eq [OF assms(1)])
qed

definition same_pending :: "('id, 'v) node \<Rightarrow> ('id, 'v) kbucket \<Rightarrow> bool" where
  "same_pending n b = (case kb_pending b of None \<Rightarrow> False | Some p \<Rightarrow> khash (pn_node p) = khash n)"

definition put_node :: "('id, 'v) node \<Rightarrow> ('id, 'v) kbucket \<Rightarrow> ('id, 'v) kbucket" where
  "put_node n b =
     clear_pending_if (same_pending n b)
       (b\<lparr>kb_nodes := place n (kb_nodes b), kb_first_connected_pos := fcp_of (place n (kb_nodes b))\<rparr>)"

definition kb_shape :: "('id, 'v) kbucket \<Rightarrow> bool" where
  "kb_shape b \<longleftrightarrow> part (kb_nodes b) \<and> kb_first_connected_pos b = fcp_of (kb_nodes b) \<and>
     length (kb_nodes b) \<le> MAX_NODES_PER_BUCKET"

lemma kb_position_None: "kb_position k b = None \<longleftrightarrow> hash k \<notin> khash ` set (kb_nodes b)"
  unfolding kb_position_def position_None key_eq_def by (auto simp: image_iff)

lemma same_pending_eq:
  "(case kb_pending b of None \<Rightarrow> False | Some p \<Rightarrow> key_eq (n_key (pn_node p)) (n_key n)) = same_pending n b"
  by (simp add: same_pending_def key_eq_def split: option.split)

lemma kb_fields_commute:
  "b\<lparr>kb_first_connected_pos := x, kb_nodes := y\<rparr> = b\<lparr>kb_nodes := y, kb_first_connected_pos := x\<rparr>"
  by (cases b) simp

lemma kb_nodes_fcp_id:
  "kb_first_connected_pos b = x \<Longrightarrow> b\<lparr>kb_nodes := y, kb_first_connected_pos := x\<rparr> = b\<lparr>kb_nodes := y\<rparr>"
  by (cases b) simp

lemma kb_insert_eq:
  assumes "kb_shape b"
  shows "kb_insert now n b = Some
    (if khash n \<in> khash ` set (kb_nodes b) then (BNodeExists, b)
     else if \<not> passes_filter (n_value n) b then (BFailedFilter, b)
     else if inc n \<and> is_max_incoming b then (BTooManyIncoming, b)
     else if is_full b then
       (if \<not> conn n \<or> dis_of (kb_nodes b) = [] \<or> kb_pending b \<noteq> None then (BFull, b)
        else (BPending (n_key (hd (kb_nodes b))),
              b\<lparr>kb_pending := Some \<lparr>pn_node = n, pn_replace = now + kb_pending_timeout b\<rparr>\<rparr>))
     else (BInserted, put_node n b))"
proof -
  from assms have shape: "part (kb_nodes b)" "kb_first_connected_pos b = fcp_of (kb_nodes b)"
    "length (kb_nodes b) \<le> MAX_NODES_PER_BUCKET"
    by (simp_all add: kb_shape_def)
  have full: "\<not> is_full b \<Longrightarrow> length (kb_nodes b) < MAX_NODES_PER_BUCKET"
    using shape(3) by (simp add: is_full_def)
  have ne: "is_full b \<Longrightarrow> \<exists>x xs. kb_nodes b = x # xs"
    by (cases "kb_nodes b") (simp_all add: is_full_def MAX_NODES_PER_BUCKET_def)
  have push: "conn n \<or> con_of (kb_nodes b) = [] \<Longrightarrow> kb_nodes b @ [n] = place n (kb_nodes b)"
    by (simp only: place_push [OF shape(1)])
  have ins: "av_insert MAX_NODES_PER_BUCKET (length (dis_of (kb_nodes b))) n (kb_nodes b)
      = Some (place n (kb_nodes b))" if "\<not> conn n" "\<not> is_full b"
    using av_insert_place [OF shape(1) that(1) full [OF that(2)]] .
  have zero: "fcp_of (kb_nodes b) = Some 0 \<longleftrightarrow> dis_of (kb_nodes b) = []" if "is_full b"
    using ne [OF that] length_dis_con [of "kb_nodes b"] by (auto simp: fcp_of_def)
  have dis: "con_of (kb_nodes b) = [] \<Longrightarrow> length (kb_nodes b) = length (dis_of (kb_nodes b))"
    by (simp add: con_of_Nil_iff)
  show ?thesis
  proof (cases "conn n")
    case True
    then show ?thesis
      using full ne push dis zero
      by (auto simp: kb_insert_def Let_def kb_position_None shape(2) inc_def same_pending_eq
          put_node_def av_push_less is_full_def fcp_of_def kb_fields_commute)
  next
    case False
    then have "st_state (n_status n) = Disconnected" using state_cases by auto
    then show ?thesis
      using full push ins 
      by (auto simp: kb_insert_def Let_def kb_position_None shape(2) inc_def same_pending_eq
          put_node_def av_push_less fcp_of_def kb_nodes_fcp_id)
  qed
qed

subsection \<open>Removal\<close>

definition rm_nodes :: "('id, 'v) node list \<Rightarrow> ('id, 'v) kbucket \<Rightarrow> ('id, 'v) kbucket" where
  "rm_nodes ns b = b\<lparr>kb_nodes := ns, kb_first_connected_pos := fcp_of ns\<rparr>"

lemma kb_inv_alt:
  "kb_inv b \<longleftrightarrow> kb_shape b \<and> length (filter inc (kb_nodes b)) \<le> kb_max_incoming b \<and>
     distinct (map khash (kb_nodes b)) \<and> pending_ok b"
  by (auto simp: kb_inv_def kb_shape_def)

lemma is_max_incoming_iff:
  "is_max_incoming b \<longleftrightarrow> kb_max_incoming b \<le> length (filter inc (kb_nodes b))"
  by (simp only: is_max_incoming_def inc_filter_eq)

lemma is_full_iff: "is_full b \<longleftrightarrow> length (kb_nodes b) = MAX_NODES_PER_BUCKET"
  by (simp add: is_full_def)

lemma put_node_simps [simp]:
  "kb_nodes (put_node n b) = place n (kb_nodes b)"
  "kb_first_connected_pos (put_node n b) = fcp_of (place n (kb_nodes b))"
  "kb_max_incoming (put_node n b) = kb_max_incoming b"
  "kb_filter (put_node n b) = kb_filter b"
  "kb_pending_timeout (put_node n b) = kb_pending_timeout b"
  "kb_pending (put_node n b) = (if same_pending n b then None else kb_pending b)"
  by (simp_all add: put_node_def clear_pending_if_def)

lemma rm_nodes_simps [simp]:
  "kb_nodes (rm_nodes ns b) = ns"
  "kb_first_connected_pos (rm_nodes ns b) = fcp_of ns"
  "kb_max_incoming (rm_nodes ns b) = kb_max_incoming b"
  "kb_filter (rm_nodes ns b) = kb_filter b"
  "kb_pending_timeout (rm_nodes ns b) = kb_pending_timeout b"
  "kb_pending (rm_nodes ns b) = kb_pending b"
  by (simp_all add: rm_nodes_def)

lemma pending_ok_put_node: "pending_ok b \<Longrightarrow> pending_ok (put_node n b)"
  by (auto simp: pending_ok_def same_pending_def split: option.splits)

lemma put_node_inv:
  assumes "kb_inv b" "khash n \<notin> khash ` set (kb_nodes b)" "\<not> is_full b"
    "\<not> (inc n \<and> is_max_incoming b)"
  shows "kb_inv (put_node n b)"
  using assms pending_ok_put_node [of b n]
  by (auto simp: kb_inv_alt kb_shape_def is_max_incoming_iff is_full_iff)

lemma rm_nodes_inv:
  assumes "kb_inv b" "kb_nodes b = xs @ y # zs"
  shows "kb_inv (rm_nodes (xs @ zs) b)" "\<not> is_full (rm_nodes (xs @ zs) b)"
    "khash y \<notin> khash ` set (xs @ zs)"
  using assms part_remove [of xs y zs]
  by (auto simp: kb_inv_def pending_ok_def is_full_iff image_iff split: option.splits if_splits)

lemma clear_pending_inv: "kb_inv b \<Longrightarrow> kb_inv (b\<lparr>kb_pending := None\<rparr>)"
  by (simp add: kb_inv_def pending_ok_def)

lemma kb_shape_of_inv [simp]: "kb_inv b \<Longrightarrow> kb_shape b"
  by (simp add: kb_inv_alt)

lemma update_fcp_eq_rm_nodes:
  assumes "kb_inv b" "kb_nodes b = xs @ y # zs"
  shows "update_first_connected_pos_for_removal (length xs) (b\<lparr>kb_nodes := xs @ zs\<rparr>) = rm_nodes (xs @ zs) b"
  using assms fcp_of_remove [of xs y zs]
  by (auto simp: update_first_connected_pos_for_removal_def rm_nodes_def kb_inv_def split: option.split)

lemma kb_position_split:
  assumes "kb_position k b = Some i"
  obtains xs y zs where "kb_nodes b = xs @ y # zs" "length xs = i" "khash y = hash k"
  using assms unfolding kb_position_def key_eq_def by (elim position_split) blast

lemma kb_insert_inv:
  assumes "kb_inv b"
  shows "\<exists>r b'. kb_insert now n b = Some (r, b') \<and> kb_inv b'"
proof -
  have "kb_inv (b\<lparr>kb_pending := Some \<lparr>pn_node = n, pn_replace = t\<rparr>\<rparr>)"
    if "khash n \<notin> khash ` set (kb_nodes b)" for t
    using assms that by (simp add: kb_inv_def pending_ok_def)
  then show ?thesis
    unfolding kb_insert_eq [OF kb_shape_of_inv [OF assms]]
    using assms put_node_inv [of b n] by auto
qed

lemma kb_apply_pending_eq:
  assumes inv: "kb_inv b" and p: "kb_pending b = Some p"
  defines "b0 \<equiv> b\<lparr>kb_pending := None\<rparr>" and "n \<equiv> pn_node p"
  shows "kb_apply_pending now b = Some
    (if \<not> pn_replace p \<le> now then (None, b)
     else if (is_full b0 \<and> dis_of (kb_nodes b) = []) \<or> \<not> passes_filter (n_value n) b0 \<or>
       (inc n \<and> is_max_incoming b0) then (None, b0)
     else if is_full b0 then
       (Some \<lparr>ap_inserted = n_key n, ap_evicted = Some (hd (kb_nodes b))\<rparr>,
        put_node n (rm_nodes (tl (kb_nodes b)) b0))
     else (Some \<lparr>ap_inserted = n_key n, ap_evicted = None\<rparr>, put_node n b0))"
proof (cases "is_full b0")
  case False
  have "khash n \<notin> khash ` set (kb_nodes b)"
    using inv p by (simp add: kb_inv_def pending_ok_def n_def)
  with False p kb_insert_eq [OF kb_shape_of_inv [OF clear_pending_inv [OF inv]], of now n] show ?thesis
    by (auto simp: kb_apply_pending_def Let_def b0_def n_def)
next
  case True
  then obtain x xs where ns: "kb_nodes b = x # xs"
    by (cases "kb_nodes b") (simp_all add: is_full_def b0_def MAX_NODES_PER_BUCKET_def)
  from True ns have len: "length xs < MAX_NODES_PER_BUCKET" by (simp add: is_full_def b0_def)
  from inv ns have part: "part (x # xs)" and fcp: "kb_first_connected_pos b = fcp_of (x # xs)"
    by (simp_all add: kb_inv_def)
  have tl: "part xs" using part_remove [of "[]"] part by simp
  have dx: "conn x \<longleftrightarrow> dis_of (x # xs) = []"
    using part_split(1) [of "[]"] part by auto
  show ?thesis
  proof (cases "conn x")
    case True
    with dx \<open>is_full b0\<close> p ns show ?thesis
      by (auto simp: kb_apply_pending_def Let_def b0_def n_def)
  next
    case False
    with part_split(2) [of "[]" x xs] part have "fcp_of (x # xs) = map_option Suc (fcp_of xs)"
      by (simp add: fcp_of_def)
    with False \<open>is_full b0\<close> p ns fcp have fcp': "kb_first_connected_pos b = map_option Suc (fcp_of xs)"
      by simp
    have push: "conn n \<or> fcp_of xs = None \<Longrightarrow> av_push MAX_NODES_PER_BUCKET n xs = Some (place n xs)"
      using place_push [OF tl, of n] len by (auto simp: av_push_less fcp_of_def split: if_splits)
    have ins: "\<not> conn n \<Longrightarrow> av_insert MAX_NODES_PER_BUCKET (length (dis_of xs)) n xs = Some (place n xs)"
      using av_insert_place [OF tl] len by blast
    have same: "b0\<lparr>kb_first_connected_pos := fcp_of (place n xs), kb_nodes := place n xs\<rparr>
        = put_node n (rm_nodes xs b0)"
      by (simp add: put_node_def rm_nodes_def same_pending_def clear_pending_if_def b0_def)
    have same2: "kb_first_connected_pos b = fcp_of (place n xs) \<Longrightarrow> b0\<lparr>kb_nodes := place n xs\<rparr>
        = put_node n (rm_nodes xs b0)"
      by (simp add: put_node_def rm_nodes_def same_pending_def clear_pending_if_def b0_def kb_nodes_fcp_id)
    show ?thesis
      using False \<open>is_full b0\<close> p ns same same2 push ins con_of_Nil_iff [of xs]
      by (cases "con_of xs = []"; cases "conn n")
        (auto simp: kb_apply_pending_def Let_def fcp' vec_remove_0 pn_status_def inc_def b0_def n_def fcp_of_def)
  qed
qed

lemma kb_apply_pending_None: "kb_pending b = None \<Longrightarrow> kb_apply_pending now b = Some (None, b)"
  by (simp add: kb_apply_pending_def)

lemma evict_inv:
  assumes "kb_inv b" "is_full b"
  shows "kb_inv (rm_nodes (tl (kb_nodes b)) b)" "\<not> is_full (rm_nodes (tl (kb_nodes b)) b)"
proof -
  from assms(2) obtain x xs where "kb_nodes b = [] @ x # xs"
    by (cases "kb_nodes b") (simp_all add: is_full_def MAX_NODES_PER_BUCKET_def)
  from rm_nodes_inv [OF assms(1) this] this
  show "kb_inv (rm_nodes (tl (kb_nodes b)) b)" "\<not> is_full (rm_nodes (tl (kb_nodes b)) b)" by simp_all
qed

lemma tl_incoming: "is_max_incoming (rm_nodes (tl (kb_nodes b)) b) \<Longrightarrow> is_max_incoming b"
  by (cases "kb_nodes b") (auto simp: is_max_incoming_iff split: if_splits)

lemma kb_apply_pending_inv:
  assumes "kb_inv b"
  shows "\<exists>r b'. kb_apply_pending now b = Some (r, b') \<and> kb_inv b'"
proof (cases "kb_pending b")
  case (Some p)
  let ?b0 = "b\<lparr>kb_pending := None\<rparr>" and ?n = "pn_node p"
  have fresh: "khash ?n \<notin> khash ` set (kb_nodes b)"
    using assms Some by (simp add: kb_inv_def pending_ok_def)
  then have fresh_tl: "khash ?n \<notin> khash ` set (tl (kb_nodes b))" by (cases "kb_nodes b") auto
  have inv0: "kb_inv ?b0" by (rule clear_pending_inv [OF assms])
  have "kb_inv (put_node ?n (rm_nodes (tl (kb_nodes b)) ?b0))"
    if "is_full ?b0" "\<not> (inc ?n \<and> is_max_incoming ?b0)"
    using evict_inv [OF inv0 that(1)] that(2) fresh_tl tl_incoming [of ?b0]
    by (intro put_node_inv) auto
  moreover have "kb_inv (put_node ?n ?b0)" if "\<not> is_full ?b0" "\<not> (inc ?n \<and> is_max_incoming ?b0)"
    using inv0 that fresh by (intro put_node_inv) auto
  ultimately show ?thesis
    unfolding kb_apply_pending_eq [OF assms Some] using assms inv0 by auto
qed (use assms in \<open>simp add: kb_apply_pending_None\<close>)

lemma kb_position_at:
  assumes "kb_inv b" "kb_nodes b = xs @ y # zs" "khash y = hash k"
  shows "kb_position k b = Some (length xs)"
proof -
  have "khash y \<notin> khash ` set xs" using rm_nodes_inv(3) [OF assms(1,2)] by auto
  then have "\<forall>x\<in>set xs. \<not> key_eq (n_key x) k" using assms(3) by (auto simp: key_eq_def image_iff)
  then show ?thesis using assms(2,3)
    by (simp add: kb_position_def position_append_left key_eq_def)
qed

lemma set_status_simps [simp]:
  "n_key (set_status s d n) = n_key n" "n_value (set_status s d n) = n_value n"
  "st_state (n_status (set_status s d n)) = s"
  by (simp_all add: set_status_def)

lemma kb_update_status_eq:
  fixes s :: connection_state and d :: "connection_direction option"
  assumes inv: "kb_inv b" and pos: "kb_nodes b = xs @ y # zs" "khash y = hash k"
  defines "n \<equiv> set_status s d y"
    and "b1 \<equiv> (rm_nodes (xs @ zs) b)\<lparr>kb_pending := if xs = [] \<and> s = Connected then None else kb_pending b\<rparr>"
  shows "kb_update_status now k s d b = Some
    (if \<not> passes_filter (n_value y) b1 then (UFailed BucketFilter, b1)
     else if inc n \<and> is_max_incoming b1 then (UFailed TooManyIncoming, b1)
     else (if n_status n = n_status y then NotModified
           else if \<not> conn y \<and> s = Connected then UpdatedAndPromoted else Updated, put_node n b1))"
proof -
  have inv0: "kb_inv (rm_nodes (xs @ zs) b)" and fresh: "khash y \<notin> khash ` set (xs @ zs)"
    and room: "\<not> is_full (rm_nodes (xs @ zs) b)"
    using rm_nodes_inv [OF inv pos(1)] by blast+
  then have inv1: "kb_inv b1" by (auto simp: kb_inv_def b1_def pending_ok_def split: option.splits)
  have part: "part (xs @ y # zs)" and fcp: "kb_first_connected_pos b = fcp_of (xs @ y # zs)"
    using inv pos(1) by (simp_all add: kb_inv_def)
  have b1: "b1 = b\<lparr>kb_nodes := xs @ zs, kb_first_connected_pos := fcp_of (xs @ zs),
      kb_pending := if length xs = 0 \<and> s = Connected then None else kb_pending b\<rparr>"
    by (simp add: b1_def rm_nodes_def)
  have ins: "kb_insert now n b1 = Some
     (if \<not> passes_filter (n_value y) b1 then (BFailedFilter, b1)
      else if inc n \<and> is_max_incoming b1 then (BTooManyIncoming, b1)
      else (BInserted, put_node n b1))"
    unfolding kb_insert_eq [OF kb_shape_of_inv [OF inv1]]
    using fresh room by (auto simp: b1_def n_def is_full_iff)
  have eq: "kb_update_status now k s d b =
    do {
      (r, b') \<leftarrow> kb_insert now n b1;
      case r of
        BInserted \<Rightarrow>
          Some (if n_status y = n_status n then NotModified
                else if \<not> conn y \<and> s = Connected then UpdatedAndPromoted else Updated, b')
      | BTooManyIncoming \<Rightarrow> Some (UFailed TooManyIncoming, b')
      | BFailedFilter \<Rightarrow> Some (UFailed BucketFilter, b')
      | BNodeExists \<Rightarrow> None | BFull \<Rightarrow> None | BPending _ \<Rightarrow> None
    }"
    unfolding kb_update_status_def kb_position_at [OF inv pos]
    by (simp only: option.case pos(1) vec_remove_middle [OF refl] Let_def bind.bind_lunit prod.case
        n_def b1 fcp fcp_of_take_out [OF part])
  show ?thesis unfolding eq ins by auto
qed

lemma kb_update_status_inv:
  assumes "kb_inv b"
  shows "\<exists>r b'. kb_update_status now k s d b = Some (r, b') \<and> kb_inv b'"
proof (cases "kb_position k b")
  case None
  have "kb_inv (b\<lparr>kb_pending := Some (p\<lparr>pn_node := set_status s d (pn_node p)\<rparr>)\<rparr>)"
    if "kb_pending b = Some p" for p
    using assms that by (simp add: kb_inv_def pending_ok_def)
  then show ?thesis using None assms
    by (auto simp: kb_update_status_def split: option.split)
next
  case (Some i)
  then obtain xs y zs where pos: "kb_nodes b = xs @ y # zs" "khash y = hash k"
    by (rule kb_position_split)
  let ?b1 = "(rm_nodes (xs @ zs) b)\<lparr>kb_pending := if xs = [] \<and> s = Connected then None else kb_pending b\<rparr>"
  have inv1: "kb_inv ?b1" and "\<not> is_full ?b1"
    using rm_nodes_inv(1,2) [OF assms pos(1)]
    by (auto simp: kb_inv_def pending_ok_def is_full_iff split: option.splits)
  moreover have "khash (set_status s d y) \<notin> khash ` set (kb_nodes ?b1)"
    using rm_nodes_inv(3) [OF assms pos(1)] by simp
  ultimately have "kb_inv (put_node (set_status s d y) ?b1)"
    if "\<not> (inc (set_status s d y) \<and> is_max_incoming ?b1)"
    using that by (intro put_node_inv)
  with inv1 show ?thesis
    unfolding kb_update_status_eq [OF assms pos] by auto
qed

lemma kb_update_value_eq:
  assumes inv: "kb_inv b" and pos: "kb_nodes b = xs @ y # zs" "khash y = hash k"
  shows "kb_update_value k v b = Some
    (if n_value y = v then (NotModified, b)
     else if \<not> passes_filter v (b\<lparr>kb_nodes := xs @ zs\<rparr>) then
       (UFailed BucketFilter, rm_nodes (xs @ zs) b)
     else (Updated, b\<lparr>kb_nodes := xs @ y\<lparr>n_value := v\<rparr> # zs\<rparr>))"
proof -
  have len: "length xs + length zs < MAX_NODES_PER_BUCKET"
    using inv pos(1) by (simp add: kb_inv_def)
  have id: "b\<lparr>kb_nodes := xs @ y # zs\<rparr> = b" by (simp add: pos(1) [symmetric])
  show ?thesis
    using pos(1) len update_fcp_eq_rm_nodes [OF inv pos(1)]
    by (auto simp: kb_update_value_def kb_position_at [OF inv pos] vec_remove_middle av_insert_middle
        Let_def id)
qed

lemma before_ok_value [simp]:
  "before_ok x (y\<lparr>n_value := v\<rparr>) = before_ok x y" "before_ok (y\<lparr>n_value := v\<rparr>) x = before_ok y x"
  "inc (y\<lparr>n_value := v\<rparr>) = inc y"
  by (simp_all add: before_ok_def inc_def)

lemma set_value_inv:
  assumes "kb_inv b" "kb_nodes b = xs @ y # zs"
  shows "kb_inv (b\<lparr>kb_nodes := xs @ y\<lparr>n_value := v\<rparr> # zs\<rparr>)"
proof -
  let ?ns = "xs @ y\<lparr>n_value := v\<rparr> # zs"
  have "part ?ns \<longleftrightarrow> part (kb_nodes b)" "fcp_of ?ns = fcp_of (kb_nodes b)"
    "length ?ns = length (kb_nodes b)" "map khash ?ns = map khash (kb_nodes b)"
    "length (filter inc ?ns) = length (filter inc (kb_nodes b))"
    unfolding assms(2) by (simp_all add: part_def sorted_wrt_append fcp_of_def)
  then have "pending_ok (b\<lparr>kb_nodes := ?ns\<rparr>) \<longleftrightarrow> pending_ok b"
    and "kb_inv (b\<lparr>kb_nodes := ?ns\<rparr>) \<longleftrightarrow> kb_inv b"
    unfolding kb_inv_def pending_ok_def by (simp_all del: map_append list.map(2) split: option.split)
  with assms(1) show ?thesis by simp
qed

lemma kb_update_value_inv:
  assumes "kb_inv b"
  shows "\<exists>r b'. kb_update_value k v b = Some (r, b') \<and> kb_inv b'"
proof (cases "kb_position k b")
  case None
  have "kb_inv (b\<lparr>kb_pending := Some (p\<lparr>pn_node := (pn_node p)\<lparr>n_value := v\<rparr>\<rparr>)\<rparr>)"
    if "kb_pending b = Some p" for p
    using assms that by (simp add: kb_inv_def pending_ok_def)
  then show ?thesis using None assms
    by (auto simp: kb_update_value_def split: option.split)
next
  case (Some i)
  then obtain xs y zs where pos: "kb_nodes b = xs @ y # zs" "khash y = hash k"
    by (rule kb_position_split)
  then show ?thesis
    unfolding kb_update_value_eq [OF assms pos]
    using assms rm_nodes_inv(1) [OF assms pos(1)] set_value_inv [OF assms pos(1)] by simp
qed

lemma kb_remove_eq:
  assumes inv: "kb_inv b" and pos: "kb_nodes b = xs @ y # zs" "khash y = hash k"
  shows "kb_remove now k b = map_option (\<lambda>(_, b'). (True, b')) (kb_apply_pending now (rm_nodes (xs @ zs) b))"
  using pos(1) update_fcp_eq_rm_nodes [OF inv pos(1)]
  by (cases "kb_apply_pending now (rm_nodes (xs @ zs) b)")
    (auto simp: kb_remove_def kb_position_at [OF inv pos] vec_remove_middle)

lemma kb_remove_inv:
  assumes "kb_inv b"
  shows "\<exists>r b'. kb_remove now k b = Some (r, b') \<and> kb_inv b'"
proof (cases "kb_position k b")
  case (Some i)
  then obtain xs y zs where pos: "kb_nodes b = xs @ y # zs" "khash y = hash k"
    by (rule kb_position_split)
  show ?thesis
    unfolding kb_remove_eq [OF assms pos]
    using kb_apply_pending_inv [OF rm_nodes_inv(1) [OF assms pos(1)], of now] by auto
qed (use assms in \<open>auto simp: kb_remove_def\<close>)

lemma kb_update_pending_inv: "kb_inv b \<Longrightarrow> kb_inv (kb_update_pending s b)"
  by (auto simp: kb_update_pending_def kb_inv_def pending_ok_def split: option.split)

lemma kb_new_inv: "kb_inv (kb_new t m f)"
  by (simp add: kb_new_def kb_inv_def part_def fcp_of_def pending_ok_def)

section \<open>Sequences of operations\<close>

text \<open>Every public operation of a bucket that changes it, as a value.\<close>

datatype ('id, 'v) bucket_op =
    OpInsert instant "('id, 'v) node"
  | OpApplyPending instant
  | OpUpdatePending node_status
  | OpUpdateStatus instant "'id key" connection_state "connection_direction option"
  | OpUpdateValue "'id key" 'v
  | OpRemove instant "'id key"

fun kb_step :: "('id, 'v) bucket_op \<Rightarrow> ('id, 'v) kbucket \<Rightarrow> ('id, 'v) kbucket option" where
  "kb_step (OpInsert now n) b = map_option snd (kb_insert now n b)"
| "kb_step (OpApplyPending now) b = map_option snd (kb_apply_pending now b)"
| "kb_step (OpUpdatePending s) b = Some (kb_update_pending s b)"
| "kb_step (OpUpdateStatus now k s d) b = map_option snd (kb_update_status now k s d b)"
| "kb_step (OpUpdateValue k v) b = map_option snd (kb_update_value k v b)"
| "kb_step (OpRemove now k) b = map_option snd (kb_remove now k b)"

fun kb_run :: "('id, 'v) bucket_op list \<Rightarrow> ('id, 'v) kbucket \<Rightarrow> ('id, 'v) kbucket option" where
  "kb_run [] b = Some b"
| "kb_run (op # ops) b = do { b' \<leftarrow> kb_step op b; kb_run ops b' }"

lemma kb_step_inv:
  assumes "kb_inv b"
  shows "\<exists>b'. kb_step op b = Some b' \<and> kb_inv b'"
proof (cases op)
  case (OpInsert now n)
  then show ?thesis using kb_insert_inv [OF assms, of now n] by auto
next
  case (OpApplyPending now)
  then show ?thesis using kb_apply_pending_inv [OF assms, of now] by auto
next
  case (OpUpdatePending s)
  then show ?thesis using kb_update_pending_inv [OF assms] by simp
next
  case (OpUpdateStatus now k s d)
  then show ?thesis using kb_update_status_inv [OF assms, of now k s d] by auto
next
  case (OpUpdateValue k v)
  then show ?thesis using kb_update_value_inv [OF assms, of k v] by auto
next
  case (OpRemove now k)
  then show ?thesis using kb_remove_inv [OF assms, of now k] by auto
qed

lemma kb_run_inv: "kb_inv b \<Longrightarrow> \<exists>b'. kb_run ops b = Some b' \<and> kb_inv b'"
proof (induction ops arbitrary: b)
  case (Cons op ops)
  then show ?case using kb_step_inv [OF Cons.prems, of op] by auto
qed simp

lemma kb_abs_put: "kb_abs (put_node n b) = abs_put n (kb_abs b)"
  by (simp add: kb_abs_def abs_put_def)

lemma abs_del_at:
  assumes "kb_inv b" "kb_nodes b = xs @ y # zs" "kb_nodes b' = xs @ zs"
  shows "kb_abs b' = abs_del (khash y) (kb_abs b)"
proof -
  have "\<forall>x\<in>set xs \<union> set zs. khash x \<noteq> khash y"
    using rm_nodes_inv(3) [OF assms(1,2)] by (metis image_eqI set_append)
  then have "filter (\<lambda>n. khash n \<noteq> khash y) (xs @ y # zs) = xs @ zs"
    by (simp add: filter_True)
  moreover have "dis_of (filter P ns) = filter P (dis_of ns)" "con_of (filter P ns) = filter P (con_of ns)"
    for P and ns :: "('a, 'b) node list"
    by (simp_all add: dis_of_def con_of_def conj_commute)
  ultimately show ?thesis using assms(2,3) unfolding kb_abs_def abs_del_def by (metis fst_conv snd_conv)
qed

lemma kb_abs_pending [simp]: "kb_abs (b\<lparr>kb_pending := p\<rparr>) = kb_abs b"
  by (simp add: kb_abs_def)

lemma length_filter_inc_con: "length (filter inc (con_of ns)) = length (filter inc ns)"
  by (induction ns) (auto simp: inc_def)

section \<open>Specification on the abstract bucket\<close>

definition abs_insert_result ::
  "'v filter option \<Rightarrow> nat \<Rightarrow> bool \<Rightarrow> ('id, 'v) node \<Rightarrow> ('id, 'v) abs_bucket \<Rightarrow> 'id bucket_insert_result" where
  "abs_insert_result flt max_incoming has_pending n a =
     (if khash n \<in> khash ` set (fst a @ snd a) then BNodeExists
      else if (case flt of None \<Rightarrow> False | Some f \<Rightarrow> \<not> f (n_value n) (map n_value (fst a @ snd a)))
        then BFailedFilter
      else if inc n \<and> max_incoming \<le> length (filter inc (snd a)) then BTooManyIncoming
      else if length (fst a) + length (snd a) = MAX_NODES_PER_BUCKET then
        (if conn n \<and> fst a \<noteq> [] \<and> \<not> has_pending then BPending (n_key (hd (fst a))) else BFull)
      else BInserted)"

definition abs_update_result ::
  "'v filter option \<Rightarrow> nat \<Rightarrow> connection_state \<Rightarrow> connection_direction option \<Rightarrow> ('id, 'v) node
     \<Rightarrow> ('id, 'v) abs_bucket \<Rightarrow> update_result" where
  "abs_update_result flt max_incoming s d y a =
     (let others = abs_del (khash y) a; n = set_status s d y
      in if (case flt of None \<Rightarrow> False | Some f \<Rightarrow> \<not> f (n_value y) (map n_value (fst others @ snd others)))
           then UFailed BucketFilter
         else if inc n \<and> max_incoming \<le> length (filter inc (snd others)) then UFailed TooManyIncoming
         else if n_status n = n_status y then NotModified
         else if \<not> conn y \<and> s = Connected then UpdatedAndPromoted
         else Updated)"

lemma kb_insert_result_abs:
  assumes "kb_inv b"
  shows "map_option fst (kb_insert now n b) =
    Some (abs_insert_result (kb_filter b) (kb_max_incoming b) (kb_pending b \<noteq> None) n (kb_abs b))"
proof -
  have p: "part (kb_nodes b)" using assms by (simp add: kb_inv_def)
  have hd: "dis_of (kb_nodes b) \<noteq> [] \<Longrightarrow> hd (kb_nodes b) = hd (dis_of (kb_nodes b))"
    using part_eq [OF p] by (metis hd_append2)
  show ?thesis
    using hd length_dis_con [of "kb_nodes b"]
    unfolding kb_insert_eq [OF kb_shape_of_inv [OF assms]]
    by (auto simp: abs_insert_result_def kb_abs_def passes_filter_def is_max_incoming_iff is_full_iff
        length_filter_inc_con part_eq [OF p] simp del: set_append split: option.splits)
qed

section \<open>Properties\<close>

text \<open>
  C1. From a new bucket, every sequence of bucket operations runs without a panic (no \<open>unreachable!\<close>,
  no index out of range, no push past the capacity), and the bucket it ends in satisfies the
  invariant: disconnected nodes before connected ones, \<open>first_connected_pos\<close> exact, at most
  \<open>MAX_NODES_PER_BUCKET\<close> nodes, at most \<open>max_incoming\<close> incoming connected ones, no key twice and the
  pending node not among the nodes.
\<close>

theorem bucket_ops_safe:
  "\<exists>b. kb_run ops (kb_new timeout max_incoming flt) = Some b \<and> kb_inv b"
  by (rule kb_run_inv [OF kb_new_inv])

text \<open>
  C15. \<open>KBucket::insert\<close> implements its specification on the two queues: its result is the one the
  abstract bucket gives, a node is appended to the queue of its state exactly when the result is
  \<open>Inserted\<close>, and a pending slot is taken exactly when the result is \<open>Pending\<close>.
\<close>

theorem bucket_insert_refines:
  assumes "kb_inv b"
  shows "\<exists>r b'. kb_insert now n b = Some (r, b') \<and>
     r = abs_insert_result (kb_filter b) (kb_max_incoming b) (kb_pending b \<noteq> None) n (kb_abs b) \<and>
     kb_abs b' = (if r = BInserted then abs_put n (kb_abs b) else kb_abs b) \<and>
     kb_pending b' = (case r of
        BPending _ \<Rightarrow> Some \<lparr>pn_node = n, pn_replace = now + kb_pending_timeout b\<rparr>
      | BInserted \<Rightarrow> (if same_pending n b then None else kb_pending b)
      | _ \<Rightarrow> kb_pending b)"
proof -
  obtain r b' where eq: "kb_insert now n b = Some (r, b')"
    using kb_insert_inv [OF assms] by blast
  note closed = eq [unfolded kb_insert_eq [OF kb_shape_of_inv [OF assms]]]
  have "r = abs_insert_result (kb_filter b) (kb_max_incoming b) (kb_pending b \<noteq> None) n (kb_abs b)"
    using kb_insert_result_abs [OF assms, of now n] unfolding eq by simp
  moreover have "kb_abs b' = (if r = BInserted then abs_put n (kb_abs b) else kb_abs b)"
    using closed by (auto simp: kb_abs_put split: if_splits)
  moreover have "kb_pending b' = (case r of
        BPending _ \<Rightarrow> Some \<lparr>pn_node = n, pn_replace = now + kb_pending_timeout b\<rparr>
      | BInserted \<Rightarrow> (if same_pending n b then None else kb_pending b)
      | _ \<Rightarrow> kb_pending b)"
    using closed by (auto split: if_splits)
  ultimately show ?thesis using eq by blast
qed

text \<open>
  C22. \<open>KBucket::update_status\<close> of a stored node implements its specification on the two queues. The update
  fails exactly if the bucket filter rejects the value of the node next to the other nodes, or if the node is
  now an incoming connected one and the others of this kind already reach the limit; the node is then
  removed. Otherwise it moves, with its new status, to the end of the queue of its new state, and the result
  says whether the status changed and whether the node became connected. All other nodes keep their order. The
  pending node is dropped exactly if it was the first node of the bucket that is now connected.
\<close>

theorem bucket_update_status_refines:
  assumes "kb_inv b" "y \<in> set (kb_nodes b)" "khash y = hash k"
  shows "\<exists>r b'. kb_update_status now k s d b = Some (r, b') \<and>
     r = abs_update_result (kb_filter b) (kb_max_incoming b) s d y (kb_abs b) \<and>
     kb_abs b' = (case r of UFailed _ \<Rightarrow> abs_del (khash y) (kb_abs b)
       | _ \<Rightarrow> abs_put (set_status s d y) (abs_del (khash y) (kb_abs b))) \<and>
     kb_pending b' = (if hd (fst (kb_abs b) @ snd (kb_abs b)) = y \<and> s = Connected then None else kb_pending b)"
proof -
  from assms(2) obtain xs zs where pos: "kb_nodes b = xs @ y # zs" by (meson split_list)
  define b1 where "b1 = (rm_nodes (xs @ zs) b)\<lparr>kb_pending := if xs = [] \<and> s = Connected then None else kb_pending b\<rparr>"
  have del: "kb_abs b1 = abs_del (khash y) (kb_abs b)"
    by (rule abs_del_at [OF assms(1) pos]) (simp add: b1_def)
  have b1: "kb_filter b1 = kb_filter b" "kb_max_incoming b1 = kb_max_incoming b" "kb_nodes b1 = xs @ zs"
    by (simp_all add: b1_def)
  have p: "part (kb_nodes b)" "part (xs @ zs)" using assms(1) rm_nodes_inv(1) [OF assms(1) pos] by (simp_all add: kb_inv_def)
  have "hd (xs @ y # zs) = y \<longleftrightarrow> xs = []"
    using rm_nodes_inv(3) [OF assms(1) pos] by (cases xs) auto
  then have first: "hd (fst (kb_abs b) @ snd (kb_abs b)) = y \<longleftrightarrow> xs = []"
    using part_eq [OF p(1)] pos by (simp add: kb_abs_def)
  have nopend: "\<not> same_pending (set_status s d y) b1"
    using assms(1,2) by (auto simp: kb_inv_def pending_ok_def same_pending_def b1_def split: option.splits)
  have nodes: "xs @ zs = fst (kb_abs b1) @ snd (kb_abs b1)" using part_eq [OF p(2)] by (simp add: kb_abs_def b1)
  have incs: "length (filter inc (snd (kb_abs b1))) = length (filter inc (xs @ zs))"
    using length_filter_inc_con [of "xs @ zs"] by (simp add: kb_abs_def b1)
  have rej: "(case kb_filter b of None \<Rightarrow> False | Some f \<Rightarrow> \<not> f (n_value y) (map n_value (fst (kb_abs b1) @ snd (kb_abs b1)))) \<longleftrightarrow>
      \<not> passes_filter (n_value y) b1"
    unfolding nodes [symmetric] passes_filter_def b1 by (simp split: option.split)
  have res: "abs_update_result (kb_filter b) (kb_max_incoming b) s d y (kb_abs b) =
      (if \<not> passes_filter (n_value y) b1 then UFailed BucketFilter
       else if inc (set_status s d y) \<and> is_max_incoming b1 then UFailed TooManyIncoming
       else if n_status (set_status s d y) = n_status y then NotModified
       else if \<not> conn y \<and> s = Connected then UpdatedAndPromoted else Updated)"
    unfolding abs_update_result_def del [symmetric] Let_def rej incs is_max_incoming_iff b1 by (rule refl)
  have kept: "kb_pending b1 = (if xs = [] \<and> s = Connected then None else kb_pending b)" by (simp add: b1_def)
  show ?thesis
    unfolding kb_update_status_eq [OF assms(1) pos assms(3), where s = s, folded b1_def] res first
    by (cases s) (use nopend in \<open>simp_all add: kb_abs_put del kept\<close>)
qed

text \<open>
  C23. \<open>KBucket::apply_pending\<close>: while the timeout has not elapsed nothing changes; afterwards the
  pending slot is empty. A node is evicted only from a full bucket, and it is then the least-recently
  connected disconnected node: a connected node is never evicted.
\<close>

theorem bucket_apply_pending_refines:
  assumes "kb_inv b" "kb_pending b = Some p"
  shows "\<exists>r b'. kb_apply_pending now b = Some (r, b') \<and>
     (now < pn_replace p \<longrightarrow> r = None \<and> b' = b) \<and>
     (pn_replace p \<le> now \<longrightarrow> kb_pending b' = None) \<and>
     kb_abs b' = (case r of
        None \<Rightarrow> kb_abs b
      | Some a \<Rightarrow> abs_put (pn_node p)
          (case ap_evicted a of None \<Rightarrow> kb_abs b | Some e \<Rightarrow> (tl (fst (kb_abs b)), snd (kb_abs b)))) \<and>
     (\<forall>a e. r = Some a \<and> ap_evicted a = Some e \<longrightarrow>
        is_full b \<and> fst (kb_abs b) \<noteq> [] \<and> e = hd (fst (kb_abs b)) \<and> \<not> conn e)"
proof -
  have p: "part (kb_nodes b)" using assms(1) by (simp add: kb_inv_def)
  have hd: "dis_of (kb_nodes b) \<noteq> [] \<Longrightarrow> hd (kb_nodes b) = hd (dis_of (kb_nodes b))"
    using part_eq [OF p] by (metis hd_append2)
  have con: "dis_of (kb_nodes b) \<noteq> [] \<Longrightarrow> \<not> conn (hd (dis_of (kb_nodes b)))"
    by (meson dis_con_set(1) hd_in_set is_connected_iff)
  have tl: "dis_of (kb_nodes b) \<noteq> [] \<Longrightarrow>
      kb_abs (rm_nodes (tl (kb_nodes b)) c) = (tl (dis_of (kb_nodes b)), con_of (kb_nodes b))" for c
    using hd con by (cases "kb_nodes b") (auto simp: kb_abs_def split: if_splits)
  have full: "is_full (b\<lparr>kb_pending := None\<rparr>) = is_full b" by (simp add: is_full_def)
  obtain r b' where eq: "kb_apply_pending now b = Some (r, b')"
    using kb_apply_pending_inv [OF assms(1)] by blast
  note closed = eq [unfolded kb_apply_pending_eq [OF assms] full]
  have "now < pn_replace p \<longrightarrow> r = None \<and> b' = b"
    "pn_replace p \<le> now \<longrightarrow> kb_pending b' = None"
    using closed by (auto split: if_splits)
  moreover have "kb_abs b' = (case r of
        None \<Rightarrow> kb_abs b
      | Some a \<Rightarrow> abs_put (pn_node p)
          (case ap_evicted a of None \<Rightarrow> kb_abs b | Some e \<Rightarrow> (tl (fst (kb_abs b)), snd (kb_abs b))))"
    using closed tl by (auto simp: kb_abs_put split: if_splits) (auto simp: kb_abs_def)
  moreover have "\<forall>a e. r = Some a \<and> ap_evicted a = Some e \<longrightarrow>
        is_full b \<and> fst (kb_abs b) \<noteq> [] \<and> e = hd (fst (kb_abs b)) \<and> \<not> conn e"
    using closed hd con by (auto simp: kb_abs_def split: if_splits)
  ultimately show ?thesis using eq by blast
qed

text \<open>
  \<open>KBucket::remove\<close> reports whether the key was stored; the key is gone afterwards, every other node
  is kept, and the only key that can appear is the one of the pending node.
\<close>

lemma bucket_remove_keys:
  assumes "kb_inv b"
  shows "\<exists>b'. kb_remove now k b = Some (hash k \<in> khash ` set (kb_nodes b), b') \<and>
     khash ` set (kb_nodes b) - {hash k} \<subseteq> khash ` set (kb_nodes b') \<and>
     khash ` set (kb_nodes b') \<subseteq> (khash ` set (kb_nodes b) - {hash k}) \<union>
       (case kb_pending b of None \<Rightarrow> {} | Some p \<Rightarrow> {khash (pn_node p)})"
proof (cases "kb_position k b")
  case None
  then have "hash k \<notin> khash ` set (kb_nodes b)" by (simp add: kb_position_None)
  with None show ?thesis by (auto simp: kb_remove_def)
next
  case (Some i)
  then obtain xs y zs where pos: "kb_nodes b = xs @ y # zs" "khash y = hash k"
    by (rule kb_position_split)
  note rm = rm_nodes_inv [OF assms pos(1)]
  have keys: "khash ` set (kb_nodes b) - {hash k} = khash ` set (xs @ zs)"
    using rm(3) pos by auto
  have eq: "kb_apply_pending now (rm_nodes (xs @ zs) b) = Some (r, b') \<Longrightarrow>
      khash ` set (xs @ zs) \<subseteq> khash ` set (kb_nodes b') \<and>
      khash ` set (kb_nodes b') \<subseteq> khash ` set (xs @ zs) \<union>
       (case kb_pending b of None \<Rightarrow> {} | Some p \<Rightarrow> {khash (pn_node p)})" for r b'
    using rm(2) kb_apply_pending_eq [OF rm(1), of _ now]
    by (cases "kb_pending b") (auto simp: kb_apply_pending_None is_full_iff split: if_splits)
  have "hash k \<in> khash ` set (kb_nodes b)" using pos by force
  with eq kb_apply_pending_inv [OF rm(1), of now] show ?thesis
    unfolding kb_remove_eq [OF assms pos] keys by fastforce
qed

text \<open>
  The counters of a bucket are exact: \<open>num_connected\<close> and \<open>num_disconnected\<close>, computed from
  \<open>first_connected_pos\<close>, count the connected and the disconnected nodes.
\<close>

lemma bucket_counters:
  assumes "kb_inv b"
  shows "kb_num_connected b = length (filter conn (kb_nodes b)) \<and>
    kb_num_disconnected b = length (filter (\<lambda>n. \<not> conn n) (kb_nodes b))"
  unfolding con_of_def [symmetric] dis_of_def [symmetric]
  using assms length_dis_con [of "kb_nodes b"]
  by (auto simp: kb_num_connected_def kb_num_disconnected_def kb_inv_def fcp_of_def)

section \<open>Witnesses\<close>

definition ex_node :: "u256 \<Rightarrow> connection_state \<Rightarrow> (unit, nat) node" where
  "ex_node h s = \<lparr>n_key = \<lparr>preimage = (), hash = h\<rparr>, n_value = unat h,
                  n_status = \<lparr>st_direction = Outgoing, st_state = s\<rparr>\<rparr>"

definition ex_bucket :: "(unit, nat) kbucket" where
  "ex_bucket = \<lparr>kb_nodes = [ex_node 1 Disconnected, ex_node 2 Connected],
     kb_first_connected_pos = Some 1, kb_pending = None, kb_pending_timeout = 60,
     kb_filter = Some (\<lambda>v vs. v \<notin> set vs), kb_max_incoming = 2\<rparr>"

definition ex_full :: "(unit, nat) kbucket" where
  "ex_full = \<lparr>kb_nodes = map (\<lambda>i. ex_node (of_nat i) Disconnected) [1..<10] @
       map (\<lambda>i. ex_node (of_nat i) Connected) [10..<17],
     kb_first_connected_pos = Some 9,
     kb_pending = Some \<lparr>pn_node = ex_node 99 Connected, pn_replace = 5\<rparr>, kb_pending_timeout = 60,
     kb_filter = None, kb_max_incoming = 2\<rparr>"

lemmas ex_defs = ex_node_def ex_bucket_def ex_full_def

lemma ex_bucket_inv: "kb_inv ex_bucket"
  by code_simp

lemma ex_full_inv: "kb_inv ex_full"
  by code_simp

theorem bucket_insert_refines_witness:
  "kb_inv ex_bucket \<and> (\<exists>b'. kb_insert 7 (ex_node 3 Disconnected) ex_bucket = Some (BInserted, b') \<and>
     kb_abs b' = ([ex_node 1 Disconnected, ex_node 3 Disconnected], [ex_node 2 Connected]))"
proof -
  have "abs_insert_result (kb_filter ex_bucket) (kb_max_incoming ex_bucket) (kb_pending ex_bucket \<noteq> None)
      (ex_node 3 Disconnected) (kb_abs ex_bucket) = BInserted"
    "abs_put (ex_node 3 Disconnected) (kb_abs ex_bucket) =
      ([ex_node 1 Disconnected, ex_node 3 Disconnected], [ex_node 2 Connected])"
    by code_simp+
  with bucket_insert_refines [OF ex_bucket_inv, of 7 "ex_node 3 Disconnected"] ex_bucket_inv
  show ?thesis by auto
qed

theorem bucket_update_status_refines_witness:
  "kb_inv ex_bucket \<and>
   (\<exists>r b'. kb_update_status 7 \<lparr>preimage = (), hash = 1\<rparr> Connected None ex_bucket = Some (r, b') \<and>
     r = UpdatedAndPromoted \<and> kb_abs b' = ([], [ex_node 2 Connected, ex_node 1 Connected]))"
proof -
  have "map_option fst (kb_update_status 7 \<lparr>preimage = (), hash = 1\<rparr> Connected None ex_bucket)
      = Some UpdatedAndPromoted" by code_simp
  moreover have "abs_put (set_status Connected None (ex_node 1 Disconnected)) (abs_del (khash (ex_node 1 Disconnected)) (kb_abs ex_bucket))
      = ([], [ex_node 2 Connected, ex_node 1 Connected])" by code_simp
  moreover have "ex_node 1 Disconnected \<in> set (kb_nodes ex_bucket)" by (simp add: ex_bucket_def)
  moreover have "khash (ex_node 1 Disconnected) = hash \<lparr>preimage = (), hash = 1\<rparr>" by (simp add: ex_node_def)
  ultimately show ?thesis
    using bucket_update_status_refines [OF ex_bucket_inv, of "ex_node 1 Disconnected"
        "\<lparr>preimage = (), hash = 1\<rparr>" 7 Connected None] ex_bucket_inv by auto
qed

theorem bucket_apply_pending_refines_witness:
  "kb_inv ex_full \<and>
   (\<exists>a b'. kb_apply_pending 9 ex_full = Some (Some a, b') \<and> kb_pending b' = None \<and>
     ap_evicted a = Some (ex_node 1 Disconnected) \<and> \<not> conn (ex_node 1 Disconnected))"
proof -
  have "map_option (\<lambda>r. map_option ap_evicted (fst r)) (kb_apply_pending 9 ex_full)
      = Some (Some (Some (ex_node 1 Disconnected)))" by code_simp
  then obtain a b' where eq: "kb_apply_pending 9 ex_full = Some (Some a, b')"
    "ap_evicted a = Some (ex_node 1 Disconnected)" by auto
  have p: "kb_pending ex_full = Some \<lparr>pn_node = ex_node 99 Connected, pn_replace = 5\<rparr>"
    by (simp add: ex_full_def)
  from bucket_apply_pending_refines [OF ex_full_inv p, of 9] eq ex_full_inv show ?thesis by auto
qed

end
