(* ===== verification/Disc_Net.thy ===== *)
theory Disc_Net
  imports Disc_Prelude
begin

text \<open>
  Addresses and bytes: the parts of \<open>std::net\<close> and of the integer conversions of \<open>std\<close> that the sources
  use. An IPv4 address is its four octets, an IPv6 address its 128 bits; flow information and scope id of
  an IPv6 socket address are kept because the receive task clears them. \<open>be_bytes n x\<close> is
  \<open>to_be_bytes\<close> of an integer of \<open>n\<close> bytes and \<open>be_val\<close> is \<open>from_be_bytes\<close>.
\<close>

unbundle bit_operations_syntax

section \<open>Big-endian bytes\<close>

fun be_bytes :: "nat \<Rightarrow> nat \<Rightarrow> byte list" where
  "be_bytes 0 x = []"
| "be_bytes (Suc n) x = be_bytes n (x div 256) @ [word_of_nat (x mod 256)]"

definition be_val :: "byte list \<Rightarrow> nat" where
  "be_val bs = foldl (\<lambda>a b. a * 256 + unat b) 0 bs"

lemma length_be_bytes [simp]: "length (be_bytes n x) = n"
  by (induction n arbitrary: x) auto

lemma be_val_Nil [simp]: "be_val [] = 0"
  by (simp add: be_val_def)

lemma be_val_snoc [simp]: "be_val (bs @ [b]) = be_val bs * 256 + unat b"
  by (simp add: be_val_def)

lemma unat_byte_mod [simp]: "unat (word_of_nat (x mod 256) :: byte) = x mod 256"
  by (simp add: unat_of_nat take_bit_nat_eq_self_iff take_bit_eq_mod)

lemma byte_less [simp]: "unat (b :: byte) < 256"
  using unsigned_less [of b] by simp

lemma be_val_be_bytes: "be_val (be_bytes n x) = x mod 256 ^ n"
proof (induction n arbitrary: x)
  case (Suc n)
  show ?case
    using mod_mult2_eq [of x 256 "256 ^ n"] by (simp add: Suc)
qed simp

lemma be_bytes_be_val: "be_bytes (length bs) (be_val bs) = bs"
proof (induction bs rule: rev_induct)
  case (snoc b bs)
  then show ?case by (simp add: div_add1_eq)
qed simp

lemma be_val_less: "be_val bs < 256 ^ length bs"
proof (induction bs rule: rev_induct)
  case (snoc b bs)
  then have "be_val bs * 256 + unat b < (be_val bs + 1) * 256" using byte_less [of b] by simp
  also have "\<dots> \<le> 256 ^ length bs * 256" using snoc by (intro mult_right_mono) simp_all
  finally show ?case by (simp add: mult.commute)
qed simp

lemma be_roundtrip [simp]: "x < 256 ^ n \<Longrightarrow> be_val (be_bytes n x) = x"
  by (simp add: be_val_be_bytes)

text \<open>The bytes of a machine integer of \<open>8 n\<close> bits, and back.\<close>

definition word_bytes :: "nat \<Rightarrow> 'a::len word \<Rightarrow> byte list" where
  "word_bytes n w = be_bytes n (unat w)"

definition bytes_word :: "byte list \<Rightarrow> 'a::len word" where
  "bytes_word bs = word_of_nat (be_val bs)"

lemma length_word_bytes [simp]: "length (word_bytes n w) = n"
  by (simp add: word_bytes_def)

lemma bytes_word_bytes:
  assumes "LENGTH('a) = 8 * n"
  shows "bytes_word (word_bytes n (w :: 'a::len word)) = w"
proof -
  have "unat w < 256 ^ n" using unsigned_less [of w] by (simp add: assms power_mult)
  then show ?thesis by (simp add: bytes_word_def word_bytes_def)
qed

lemma word_bytes_word:
  assumes "LENGTH('a) = 8 * length bs"
  shows "word_bytes (length bs) (bytes_word bs :: 'a::len word) = bs"
proof -
  have "unat (word_of_nat (be_val bs) :: 'a word) = be_val bs"
    using be_val_less [of bs] by (simp add: unat_of_nat take_bit_nat_eq_self_iff assms power_mult)
  then show ?thesis by (simp add: word_bytes_def bytes_word_def be_bytes_be_val)
qed

section \<open>Slices\<close>

text \<open>Indexing a slice with a range panics out of bounds; \<open>to_array\<close> is \<open>try_into\<close> an array.\<close>

definition slice_range :: "nat \<Rightarrow> nat \<Rightarrow> 'a list \<Rightarrow> 'a list option" where
  "slice_range i j xs = (if i \<le> j \<and> j \<le> length xs then Some (take (j - i) (drop i xs)) else None)"

definition slice_from :: "nat \<Rightarrow> 'a list \<Rightarrow> 'a list option" where
  "slice_from i xs = (if i \<le> length xs then Some (drop i xs) else None)"

definition slice_to :: "nat \<Rightarrow> 'a list \<Rightarrow> 'a list option" where
  "slice_to j xs = (if j \<le> length xs then Some (take j xs) else None)"

definition to_array :: "nat \<Rightarrow> 'a list \<Rightarrow> 'a list option" where
  "to_array n xs = (if length xs = n then Some xs else None)"

lemma slice_simps [simp]:
  "i \<le> j \<Longrightarrow> j \<le> length xs \<Longrightarrow> slice_range i j xs = Some (take (j - i) (drop i xs))"
  "i \<le> length xs \<Longrightarrow> slice_from i xs = Some (drop i xs)"
  "j \<le> length xs \<Longrightarrow> slice_to j xs = Some (take j xs)"
  "length xs = n \<Longrightarrow> to_array n xs = Some xs"
  by (simp_all add: slice_range_def slice_from_def slice_to_def to_array_def)

section \<open>Addresses\<close>

type_synonym ipv4 = "byte \<times> byte \<times> byte \<times> byte"
type_synonym ipv6 = u128

datatype ip_addr = V4 ipv4 | V6 ipv6

datatype socket_addr =
    SocketV4 ipv4 u16
  | SocketV6 ipv6 u16 u32 u32

fun sa_ip :: "socket_addr \<Rightarrow> ip_addr" where
  "sa_ip (SocketV4 a p) = V4 a"
| "sa_ip (SocketV6 a p f s) = V6 a"

fun sa_port :: "socket_addr \<Rightarrow> u16" where
  "sa_port (SocketV4 a p) = p"
| "sa_port (SocketV6 a p f s) = p"

definition v6_octets :: "ipv6 \<Rightarrow> byte list" where
  "v6_octets a = word_bytes 16 a"

definition v6_of_octets :: "byte list \<Rightarrow> ipv6" where
  "v6_of_octets bs = bytes_word bs"

definition v4_octets :: "ipv4 \<Rightarrow> byte list" where
  "v4_octets a = (case a of (b0, b1, b2, b3) \<Rightarrow> [b0, b1, b2, b3])"

fun v4_of_octets :: "byte list \<Rightarrow> ipv4 option" where
  "v4_of_octets [b0, b1, b2, b3] = Some (b0, b1, b2, b3)"
| "v4_of_octets _ = None"

lemma length_v6_octets [simp]: "length (v6_octets a) = 16"
  by (simp add: v6_octets_def)

lemma length_v4_octets [simp]: "length (v4_octets a) = 4"
  by (simp add: v4_octets_def split: prod.split)

lemma v6_of_octets_octets [simp]: "v6_of_octets (v6_octets a) = a"
  by (simp add: v6_of_octets_def v6_octets_def bytes_word_bytes)

lemma v4_of_octets_octets [simp]: "v4_of_octets (v4_octets a) = Some a"
  by (cases a) (simp add: v4_octets_def)

text \<open>\<open>Ipv6Addr::to_ipv4\<close>: the IPv4 address of a compatible or a mapped address.\<close>

definition v6_to_ipv4 :: "ipv6 \<Rightarrow> ipv4 option" where
  "v6_to_ipv4 a =
     (let o6 = v6_octets a
      in if take 10 o6 = replicate 10 0 \<and> (take 2 (drop 10 o6) = [0, 0] \<or> take 2 (drop 10 o6) = [255, 255])
         then v4_of_octets (drop 12 o6) else None)"

definition v6_is_loopback :: "ipv6 \<Rightarrow> bool" where
  "v6_is_loopback a \<longleftrightarrow> a = 1"

end
