(* ===== verification/Disc_Filter.thy ===== *)
theory Disc_Filter
  imports Disc_Bucket Disc_Net
begin

text \<open>
  \<open>src/kbucket/filter.rs\<close>: the filters on the IPv4 addresses of node records. The record type is the one
  of the \<open>enr\<close> crate; the filters only use its equality and \<open>Enr::ip4\<close>, the argument \<open>ip4\<close> here.
\<close>

section \<open>Definitions\<close>

definition MAX_NODES_PER_SUBNET_TABLE :: nat where
  "MAX_NODES_PER_SUBNET_TABLE = 10"

definition MAX_NODES_PER_SUBNET_BUCKET :: nat where
  "MAX_NODES_PER_SUBNET_BUCKET = 2"

definition octets3 :: "ipv4 \<Rightarrow> byte \<times> byte \<times> byte" where
  "octets3 ip = (case ip of (a, b, c, d) \<Rightarrow> (a, b, c))"

fun ip_filter_loop ::
  "('enr \<Rightarrow> ipv4 option) \<Rightarrow> 'enr \<Rightarrow> ipv4 \<Rightarrow> nat \<Rightarrow> nat \<Rightarrow> 'enr list \<Rightarrow> bool" where
  "ip_filter_loop ip4 v ip limit cnt [] = True"
| "ip_filter_loop ip4 v ip limit cnt (enr # enrs) =
     (if enr = v then ip_filter_loop ip4 v ip limit cnt enrs
      else
        let cnt' = (case ip4 enr of
                        Some other_ip \<Rightarrow> if octets3 other_ip = octets3 ip then cnt + 1 else cnt
                      | None \<Rightarrow> cnt)
        in if limit \<le> cnt' then False else ip_filter_loop ip4 v ip limit cnt' enrs)"

definition ip_filter :: "('enr \<Rightarrow> ipv4 option) \<Rightarrow> nat \<Rightarrow> 'enr filter" where
  "ip_filter ip4 limit v others =
     (case ip4 v of Some ip \<Rightarrow> ip_filter_loop ip4 v ip limit 0 others | None \<Rightarrow> True)"

definition IpTableFilter :: "('enr \<Rightarrow> ipv4 option) \<Rightarrow> 'enr filter" where
  "IpTableFilter ip4 = ip_filter ip4 MAX_NODES_PER_SUBNET_TABLE"

definition IpBucketFilter :: "('enr \<Rightarrow> ipv4 option) \<Rightarrow> 'enr filter" where
  "IpBucketFilter ip4 = ip_filter ip4 MAX_NODES_PER_SUBNET_BUCKET"

section \<open>The filter counts the records of the same subnet\<close>

definition same_subnet :: "('enr \<Rightarrow> ipv4 option) \<Rightarrow> 'enr \<Rightarrow> 'enr \<Rightarrow> bool" where
  "same_subnet ip4 v w =
     (case (ip4 v, ip4 w) of (Some a, Some b) \<Rightarrow> octets3 a = octets3 b | _ \<Rightarrow> False)"

definition subnet_count :: "('enr \<Rightarrow> ipv4 option) \<Rightarrow> 'enr \<Rightarrow> 'enr list \<Rightarrow> nat" where
  "subnet_count ip4 v ws = length (filter (\<lambda>w. w \<noteq> v \<and> same_subnet ip4 v w) ws)"

lemma ip_filter_loop_count:
  assumes "ip4 v = Some ip" "cnt < limit"
  shows "ip_filter_loop ip4 v ip limit cnt enrs \<longleftrightarrow> cnt + subnet_count ip4 v enrs < limit"
  using assms(2)
proof (induction enrs arbitrary: cnt)
  case (Cons e es)
  then show ?case
    using assms(1) by (auto simp: subnet_count_def same_subnet_def Let_def split: option.splits)
qed (simp add: subnet_count_def)

lemma ip_filter_count:
  assumes "0 < limit"
  shows "ip_filter ip4 limit v others \<longleftrightarrow> (ip4 v = None \<or> subnet_count ip4 v others < limit)"
  using ip_filter_loop_count [of ip4 v _ 0 limit others] assms
  by (auto simp: ip_filter_def split: option.splits)

lemma same_subnet_sym: "same_subnet ip4 v w = same_subnet ip4 w v"
  by (auto simp: same_subnet_def split: option.splits)

section \<open>Properties\<close>

text \<open>
  The bucket and the table filter admit a record exactly if it has no IPv4 address, or fewer than
  2 (in the bucket), respectively 10 (in the table), of the other records are in its /24 subnet.
\<close>

lemma subnet_filters_limit:
  "IpBucketFilter ip4 v others = (ip4 v = None \<or> subnet_count ip4 v others < 2) \<and>
   IpTableFilter ip4 v others = (ip4 v = None \<or> subnet_count ip4 v others < 10)"
  by (simp add: IpBucketFilter_def IpTableFilter_def MAX_NODES_PER_SUBNET_BUCKET_def
      MAX_NODES_PER_SUBNET_TABLE_def ip_filter_count)

end
