(* ===== verification/Disc_Table.thy ===== *)
theory Disc_Table
  imports Disc_Bucket
begin

text \<open>
  \<open>src/kbucket.rs\<close>: the routing table, 256 buckets of which bucket \<open>i\<close> holds the nodes whose distance
  from the local key has its highest bit at \<open>i\<close>. Every operation applies the pending node of the
  bucket it touches before it works on it. The instants an operation reads from the clock are its
  first arguments, in the order in which it reads them.
\<close>

section \<open>Data\<close>

record ('id, 'v) kbuckets_table =
  kt_local_key :: "'id key"
  kt_buckets :: "('id, 'v) kbucket list"
  kt_applied_pending :: "('id, 'v) applied_pending list"
  kt_table_filter :: "'v filter option"

datatype 'id table_insert_result =
    TInserted
  | TPending "'id key"
  | TStatusUpdated (promoted_to_connected: bool)
  | TValueUpdated
  | TUpdated (promoted_to_connected: bool)
  | TUpdatedPending
  | TFailed failure_reason

section \<open>Operations\<close>

definition kt_new ::
  "'id key \<Rightarrow> duration \<Rightarrow> nat \<Rightarrow> 'v filter option \<Rightarrow> 'v filter option \<Rightarrow> ('id, 'v) kbuckets_table" where
  "kt_new local_key pending_timeout max_incoming table_filter bucket_filter =
     \<lparr>kt_local_key = local_key,
      kt_buckets = map (\<lambda>_. kb_new pending_timeout max_incoming bucket_filter) [0..<NUM_BUCKETS],
      kt_applied_pending = [], kt_table_filter = table_filter\<rparr>"

definition kt_get_index :: "'id key \<Rightarrow> ('id, 'v) kbuckets_table \<Rightarrow> nat option" where
  "kt_get_index key t = bucket_index (distance (kt_local_key t) key)"

definition kt_get_bucket :: "'id key \<Rightarrow> ('id, 'v) kbuckets_table \<Rightarrow> ('id, 'v) kbucket option" where
  "kt_get_bucket key t =
     (case kt_get_index key t of Some i \<Rightarrow> vec_get i (kt_buckets t) | None \<Rightarrow> None)"

text \<open>An operation on the bucket with index \<open>i\<close>, in place.\<close>

definition on_bucket ::
  "nat \<Rightarrow> (('id, 'v) kbucket \<Rightarrow> ('r \<times> ('id, 'v) kbucket) option) \<Rightarrow> ('id, 'v) kbuckets_table
     \<Rightarrow> ('r \<times> ('id, 'v) kbuckets_table) option" where
  "on_bucket i f t = do {
     b \<leftarrow> vec_get i (kt_buckets t);
     (r, b') \<leftarrow> f b;
     Some (r, t\<lparr>kt_buckets := (kt_buckets t)[i := b']\<rparr>)
   }"

text \<open>The step every access starts with: apply the pending node and record that it was applied.\<close>

definition kt_apply_pending ::
  "instant \<Rightarrow> nat \<Rightarrow> ('id, 'v) kbuckets_table
     \<Rightarrow> (('id, 'v) applied_pending option \<times> ('id, 'v) kbuckets_table) option" where
  "kt_apply_pending now i t = do {
     (r, t') \<leftarrow> on_bucket i (kb_apply_pending now) t;
     Some (r, case r of
                Some applied \<Rightarrow> t'\<lparr>kt_applied_pending := kt_applied_pending t' @ [applied]\<rparr>
              | None \<Rightarrow> t')
   }"

definition kt_table_iter :: "('id, 'v) kbuckets_table \<Rightarrow> 'v list" where
  "kt_table_iter t = concat (map (\<lambda>b. map n_value (kb_nodes b)) (kt_buckets t))"

definition kt_iter_ref :: "('id, 'v) kbuckets_table \<Rightarrow> ('id, 'v) node list" where
  "kt_iter_ref t = concat (map kb_nodes (kt_buckets t))"

definition passed_table_filter :: "'id key \<Rightarrow> 'v \<Rightarrow> ('id, 'v) kbuckets_table \<Rightarrow> bool" where
  "passed_table_filter key v t =
     (case kt_table_filter t of
        None \<Rightarrow> True
      | Some table_filter \<Rightarrow>
          let duplicate =
            (case kt_get_bucket key t of
               Some bucket \<Rightarrow> (case kb_get key bucket of Some node \<Rightarrow> n_value node = v | None \<Rightarrow> False)
             | None \<Rightarrow> False)
          in duplicate \<or> table_filter v (kt_table_iter t))"

definition kt_update_node_status ::
  "instant \<Rightarrow> instant \<Rightarrow> 'id key \<Rightarrow> connection_state \<Rightarrow> connection_direction option
     \<Rightarrow> ('id, 'v) kbuckets_table \<Rightarrow> (update_result \<times> ('id, 'v) kbuckets_table) option" where
  "kt_update_node_status now1 now2 key state direction t =
     (case kt_get_index key t of
        Some i \<Rightarrow> do {
          (_, t1) \<leftarrow> kt_apply_pending now1 i t;
          on_bucket i (kb_update_status now2 key state direction) t1
        }
      | None \<Rightarrow> Some (NotModified, t))"

fun combine_update :: "update_result \<Rightarrow> update_result \<Rightarrow> update_result" where
  "combine_update u (UFailed r) = UFailed r"
| "combine_update (UFailed r) s = UFailed r"
| "combine_update u UpdatedAndPromoted = UpdatedAndPromoted"
| "combine_update UpdatedPending s = UpdatedPending"
| "combine_update u UpdatedPending = UpdatedPending"
| "combine_update NotModified NotModified = NotModified"
| "combine_update u s = Updated"

definition kt_update_node ::
  "instant \<Rightarrow> instant \<Rightarrow> 'id key \<Rightarrow> 'v \<Rightarrow> connection_state option
     \<Rightarrow> ('id, 'v) kbuckets_table \<Rightarrow> (update_result \<times> ('id, 'v) kbuckets_table) option" where
  "kt_update_node now1 now2 key v state t =
     (let passed = passed_table_filter key v t
      in case kt_get_index key t of
           Some i \<Rightarrow> do {
             (_, t1) \<leftarrow> kt_apply_pending now1 i t;
             if \<not> passed then do {
               (_, t2) \<leftarrow> on_bucket i (kb_remove now2 key) t1;
               Some (UFailed TableFilter, t2)
             }
             else do {
               (update_result, t2) \<leftarrow> on_bucket i (kb_update_value key v) t1;
               if ur_failed update_result then Some (update_result, t2)
               else do {
                 (status_result, t3) \<leftarrow>
                   (case state of
                      Some state \<Rightarrow> on_bucket i (kb_update_status now2 key state None) t2
                    | None \<Rightarrow> Some (NotModified, t2));
                 Some (combine_update update_result status_result, t3)
               }
             }
           }
         | None \<Rightarrow> Some (NotModified, t))"

fun combine_insert :: "update_result \<Rightarrow> update_result \<Rightarrow> 'id table_insert_result option" where
  "combine_insert Updated Updated = Some (TUpdated False)"
| "combine_insert Updated UpdatedAndPromoted = Some (TUpdated True)"
| "combine_insert Updated NotModified = Some TValueUpdated"
| "combine_insert Updated UpdatedPending = Some TValueUpdated"
| "combine_insert NotModified Updated = Some (TStatusUpdated False)"
| "combine_insert NotModified UpdatedAndPromoted = Some (TStatusUpdated True)"
| "combine_insert NotModified NotModified = Some (TUpdated False)"
| "combine_insert UpdatedPending s = Some TUpdatedPending"
| "combine_insert u UpdatedPending = Some TUpdatedPending"
| "combine_insert (UFailed reason) s = Some (TFailed reason)"
| "combine_insert u (UFailed reason) = None"
| "combine_insert UpdatedAndPromoted s = None"

fun bucket_result :: "'id bucket_insert_result \<Rightarrow> 'id table_insert_result option" where
  "bucket_result BNodeExists = None"
| "bucket_result BFull = Some (TFailed BucketFull)"
| "bucket_result BTooManyIncoming = Some (TFailed TooManyIncoming)"
| "bucket_result BFailedFilter = Some (TFailed BucketFilter)"
| "bucket_result (BPending k) = Some (TPending k)"
| "bucket_result BInserted = Some TInserted"

definition kt_insert_or_update ::
  "instant \<Rightarrow> instant \<Rightarrow> 'id key \<Rightarrow> 'v \<Rightarrow> node_status \<Rightarrow> ('id, 'v) kbuckets_table
     \<Rightarrow> ('id table_insert_result \<times> ('id, 'v) kbuckets_table) option" where
  "kt_insert_or_update now1 now2 key v status t =
     (let passed = passed_table_filter key v t
      in case kt_get_index key t of
           Some i \<Rightarrow> do {
             (_, t1) \<leftarrow> kt_apply_pending now1 i t;
             b \<leftarrow> vec_get i (kt_buckets t1);
             if \<not> passed then do {
               (_, t2) \<leftarrow> on_bucket i (kb_remove now2 key) t1;
               Some (TFailed TableFilter, t2)
             }
             else if kb_position key b = None then do {
               (r, t2) \<leftarrow> on_bucket i
                 (kb_insert now2 \<lparr>n_key = key, n_value = v, n_status = status\<rparr>) t1;
               r' \<leftarrow> bucket_result r;
               Some (r', t2)
             }
             else do {
               (update_status, t2) \<leftarrow> on_bucket i
                 (kb_update_status now2 key (st_state status) (Some (st_direction status))) t1;
               if ur_failed update_status then Some (TFailed TooManyIncoming, t2)
               else do {
                 (update_value, t3) \<leftarrow> on_bucket i (kb_update_value key v) t2;
                 r \<leftarrow> combine_insert update_value update_status;
                 Some (r, t3)
               }
             }
           }
         | None \<Rightarrow> Some (TFailed InvalidSelfUpdate, t))"

definition kt_remove ::
  "instant \<Rightarrow> instant \<Rightarrow> 'id key \<Rightarrow> ('id, 'v) kbuckets_table
     \<Rightarrow> (bool \<times> ('id, 'v) kbuckets_table) option" where
  "kt_remove now1 now2 key t =
     (case kt_get_index key t of
        Some i \<Rightarrow> do {
          (_, t1) \<leftarrow> kt_apply_pending now1 i t;
          on_bucket i (kb_remove now2 key) t1
        }
      | None \<Rightarrow> Some (False, t))"

definition kt_take_applied_pending ::
  "('id, 'v) kbuckets_table \<Rightarrow> ('id, 'v) applied_pending option \<times> ('id, 'v) kbuckets_table" where
  "kt_take_applied_pending t =
     (case kt_applied_pending t of
        [] \<Rightarrow> (None, t)
      | a # as \<Rightarrow> (Some a, t\<lparr>kt_applied_pending := as\<rparr>))"

text \<open>
  \<open>iter\<close> consumed to its end: the pending node of each bucket is applied when the iterator reaches the
  bucket; \<open>clock i\<close> is the instant read for bucket \<open>i\<close>.
\<close>

fun kt_iter_from ::
  "(nat \<Rightarrow> instant) \<Rightarrow> nat list \<Rightarrow> ('id, 'v) kbuckets_table
     \<Rightarrow> (('id, 'v) node list \<times> ('id, 'v) kbuckets_table) option" where
  "kt_iter_from clock [] t = Some ([], t)"
| "kt_iter_from clock (i # is) t = do {
     (_, t1) \<leftarrow> kt_apply_pending (clock i) i t;
     b \<leftarrow> vec_get i (kt_buckets t1);
     (ns, t2) \<leftarrow> kt_iter_from clock is t1;
     Some (kb_nodes b @ ns, t2)
   }"

definition kt_iter ::
  "(nat \<Rightarrow> instant) \<Rightarrow> ('id, 'v) kbuckets_table
     \<Rightarrow> (('id, 'v) node list \<times> ('id, 'v) kbuckets_table) option" where
  "kt_iter clock t = kt_iter_from clock [0..<length (kt_buckets t)] t"

text \<open>\<open>nodes_by_distances\<close>: its three loops; \<open>clock k\<close> is the instant of the \<open>k\<close>th round of the second.\<close>

definition valid_distances :: "nat list \<Rightarrow> nat list" where
  "valid_distances ds = filter (\<lambda>d. 0 < d \<and> d \<le> NUM_BUCKETS) ds"

fun nbd_apply ::
  "(nat \<Rightarrow> instant) \<Rightarrow> nat \<Rightarrow> nat \<Rightarrow> nat list \<Rightarrow> nat \<Rightarrow> ('id, 'v) kbuckets_table
     \<Rightarrow> ('id, 'v) kbuckets_table option" where
  "nbd_apply clock k max_nodes [] node_count t = Some t"
| "nbd_apply clock k max_nodes (d # ds) node_count t = do {
     (applied, t1) \<leftarrow> kt_apply_pending (clock k) (d - 1) t;
     b \<leftarrow> vec_get (d - 1) (kt_buckets t1);
     case applied of
       Some _ \<Rightarrow>
         let node_count' = node_count + kb_num_entries b
         in if max_nodes \<le> node_count' then Some t1
            else nbd_apply clock (Suc k) max_nodes ds node_count' t1
     | None \<Rightarrow> nbd_apply clock (Suc k) max_nodes ds node_count t1
   }"

text \<open>The inner loop returns the collected nodes and whether the function returns early.\<close>

fun nbd_push ::
  "nat \<Rightarrow> ('id, 'v) node list \<Rightarrow> ('id, 'v) node list \<Rightarrow> ('id, 'v) node list \<times> bool" where
  "nbd_push max_nodes [] acc = (acc, False)"
| "nbd_push max_nodes (n # ns) acc =
     (let acc' = acc @ [n]
      in if max_nodes \<le> length acc' then (acc', True) else nbd_push max_nodes ns acc')"

fun nbd_collect ::
  "nat \<Rightarrow> nat list \<Rightarrow> ('id, 'v) node list \<Rightarrow> ('id, 'v) kbuckets_table \<Rightarrow> ('id, 'v) node list option" where
  "nbd_collect max_nodes [] acc t = Some acc"
| "nbd_collect max_nodes (d # ds) acc t = do {
     b \<leftarrow> vec_get (d - 1) (kt_buckets t);
     case nbd_push max_nodes (kb_nodes b) acc of
       (acc', True) \<Rightarrow> Some acc'
     | (acc', False) \<Rightarrow> nbd_collect max_nodes ds acc' t
   }"

definition kt_nodes_by_distances ::
  "(nat \<Rightarrow> instant) \<Rightarrow> nat list \<Rightarrow> nat \<Rightarrow> ('id, 'v) kbuckets_table
     \<Rightarrow> (('id, 'v) node list \<times> ('id, 'v) kbuckets_table) option" where
  "kt_nodes_by_distances clock log2_distances max_nodes t = do {
     let distances = valid_distances log2_distances;
     t1 \<leftarrow> nbd_apply clock 0 max_nodes distances 0 t;
     nodes \<leftarrow> nbd_collect max_nodes distances [] t1;
     Some (nodes, t1)
   }"

section \<open>The contract of a bucket operation\<close>

text \<open>
  What the table relies on: an operation on a bucket does not panic, keeps the bucket invariant and
  adds no key besides those in \<open>K\<close>.
\<close>

definition bucket_keys :: "('id, 'v) kbucket \<Rightarrow> u256 set" where
  "bucket_keys b = khash ` set (kb_nodes b) \<union>
     (case kb_pending b of None \<Rightarrow> {} | Some p \<Rightarrow> {khash (pn_node p)})"

definition covers :: "('id, 'v) kbuckets_table \<Rightarrow> nat \<Rightarrow> u256 \<Rightarrow> bool" where
  "covers t i h \<longleftrightarrow> bucket_index (hash (kt_local_key t) XOR h) = Some i"

definition kt_inv :: "('id, 'v) kbuckets_table \<Rightarrow> bool" where
  "kt_inv t \<longleftrightarrow> length (kt_buckets t) = NUM_BUCKETS \<and>
     (\<forall>i<NUM_BUCKETS. kb_inv (kt_buckets t ! i) \<and> (\<forall>h\<in>bucket_keys (kt_buckets t ! i). covers t i h))"

locale bucket_op =
  fixes f :: "('id, 'v) kbucket \<Rightarrow> ('r \<times> ('id, 'v) kbucket) option" and K :: "u256 set"
  assumes total: "kb_inv b \<Longrightarrow> \<exists>r b'. f b = Some (r, b') \<and> kb_inv b'"
    and keys: "kb_inv b \<Longrightarrow> f b = Some (r, b') \<Longrightarrow> bucket_keys b' \<subseteq> bucket_keys b \<union> K"
begin

lemma on_bucket_inv:
  assumes "kt_inv t" "i < NUM_BUCKETS" "\<forall>h\<in>K. covers t i h"
  shows "\<exists>r t'. on_bucket i f t = Some (r, t') \<and> kt_inv t' \<and> kt_local_key t' = kt_local_key t \<and>
    kt_table_filter t' = kt_table_filter t"
proof -
  let ?b = "kt_buckets t ! i"
  from assms(1,2) have b: "kb_inv ?b" "vec_get i (kt_buckets t) = Some ?b"
    "length (kt_buckets t) = NUM_BUCKETS"
    by (simp_all add: kt_inv_def)
  from total [OF b(1)] obtain r b' where f: "f ?b = Some (r, b')" "kb_inv b'" by blast
  have "covers t i h" if "h \<in> bucket_keys b'" for h
    using keys [OF b(1) f(1)] that assms by (auto simp: kt_inv_def)
  with f(2) b(3) assms(1,2) have "kt_inv (t\<lparr>kt_buckets := (kt_buckets t)[i := b']\<rparr>)"
    by (auto simp: kt_inv_def nth_list_update covers_def)
  with b(2) f(1) show ?thesis by (simp add: on_bucket_def)
qed

end

lemma bucket_keys_put: "bucket_keys (put_node n b) \<subseteq> insert (khash n) (bucket_keys b)"
  by (auto simp: bucket_keys_def)

lemma bucket_keys_rm: "set ns \<subseteq> set (kb_nodes b) \<Longrightarrow> bucket_keys (rm_nodes ns b) \<subseteq> bucket_keys b"
  by (auto simp: bucket_keys_def)

lemma bucket_keys_pending:
  "bucket_keys (b\<lparr>kb_pending := None\<rparr>) \<subseteq> bucket_keys b"
  "kb_pending b = Some p \<Longrightarrow> khash (pn_node p) \<in> bucket_keys b"
  by (auto simp: bucket_keys_def)

lemma kb_insert_keys:
  assumes "kb_inv b" "kb_insert now n b = Some (r, b')"
  shows "bucket_keys b' \<subseteq> bucket_keys b \<union> {khash n}"
  using assms(2) bucket_keys_put [of n b]
  unfolding kb_insert_eq [OF kb_shape_of_inv [OF assms(1)]]
  by (auto split: if_splits simp: bucket_keys_def)

lemma kb_apply_pending_keys:
  assumes "kb_inv b" "kb_apply_pending now b = Some (r, b')"
  shows "bucket_keys b' \<subseteq> bucket_keys b"
proof (cases "kb_pending b")
  case (Some p)
  let ?b0 = "b\<lparr>kb_pending := None\<rparr>"
  have tl: "set (tl (kb_nodes b)) \<subseteq> set (kb_nodes ?b0)" by (cases "kb_nodes b") auto
  have "khash (pn_node p) \<in> bucket_keys b" "bucket_keys ?b0 \<subseteq> bucket_keys b"
    using bucket_keys_pending Some by auto
  then show ?thesis
    using assms(2) bucket_keys_put [of "pn_node p" ?b0] bucket_keys_rm [OF tl]
      bucket_keys_put [of "pn_node p" "rm_nodes (tl (kb_nodes b)) ?b0"]
    unfolding kb_apply_pending_eq [OF assms(1) Some]
    by (auto split: if_splits simp del: put_node_simps rm_nodes_simps)
qed (use assms in \<open>simp add: kb_apply_pending_None\<close>)

lemma kb_update_status_keys:
  assumes "kb_inv b" "kb_update_status now k s d b = Some (r, b')"
  shows "bucket_keys b' \<subseteq> bucket_keys b"
proof (cases "kb_position k b")
  case None
  then show ?thesis using assms(2)
    by (auto simp: kb_update_status_def bucket_keys_def split: option.splits if_splits)
next
  case (Some i)
  then obtain xs y zs where pos: "kb_nodes b = xs @ y # zs" "khash y = hash k"
    by (rule kb_position_split)
  then have "khash y \<in> bucket_keys b" by (auto simp: bucket_keys_def)
  with pos assms(2) show ?thesis
    unfolding kb_update_status_eq [OF assms(1) pos]
    by (auto simp: bucket_keys_def split: option.splits if_splits)
qed

lemma kb_update_value_keys:
  assumes "kb_inv b" "kb_update_value k v b = Some (r, b')"
  shows "bucket_keys b' \<subseteq> bucket_keys b"
proof (cases "kb_position k b")
  case None
  then show ?thesis using assms(2)
    by (auto simp: kb_update_value_def bucket_keys_def split: option.splits if_splits)
next
  case (Some i)
  then obtain xs y zs where pos: "kb_nodes b = xs @ y # zs" "khash y = hash k"
    by (rule kb_position_split)
  with assms(2) show ?thesis
    unfolding kb_update_value_eq [OF assms(1) pos]
    by (auto simp: bucket_keys_def split: option.splits if_splits)
qed

lemma kb_remove_keys:
  assumes "kb_inv b" "kb_remove now k b = Some (r, b')"
  shows "bucket_keys b' \<subseteq> bucket_keys b"
proof (cases "kb_position k b")
  case (Some i)
  then obtain xs y zs where pos: "kb_nodes b = xs @ y # zs" "khash y = hash k"
    by (rule kb_position_split)
  with assms(2) obtain r' where "kb_apply_pending now (rm_nodes (xs @ zs) b) = Some (r', b')"
    unfolding kb_remove_eq [OF assms(1) pos] by auto
  from kb_apply_pending_keys [OF rm_nodes_inv(1) [OF assms(1) pos(1)] this]
    bucket_keys_rm [of "xs @ zs" b] pos(1)
  show ?thesis by auto
qed (use assms in \<open>simp add: kb_remove_def\<close>)

interpretation insert_op: bucket_op "kb_insert now n" "{khash n}" for now n
  by unfold_locales (rule kb_insert_inv kb_insert_keys; assumption)+

interpretation apply_op: bucket_op "kb_apply_pending now" "{}" for now
  by unfold_locales (auto intro: kb_apply_pending_inv dest: kb_apply_pending_keys)

interpretation status_op: bucket_op "kb_update_status now k s d" "{}" for now k s d
  by unfold_locales (auto intro: kb_update_status_inv dest: kb_update_status_keys)

interpretation value_op: bucket_op "kb_update_value k v" "{}" for k v
  by unfold_locales (auto intro: kb_update_value_inv dest: kb_update_value_keys)

interpretation remove_op: bucket_op "kb_remove now k" "{}" for now k
  by unfold_locales (auto intro: kb_remove_inv dest: kb_remove_keys)

section \<open>The table operations keep the invariant\<close>

lemma kt_new_inv: "kt_inv (kt_new k t m tf bf)"
  by (simp add: kt_new_def kt_inv_def kb_new_inv) (simp add: kb_new_def bucket_keys_def)

lemma kt_get_index_bound: "kt_get_index k t = Some i \<Longrightarrow> i < NUM_BUCKETS"
  by (auto simp: kt_get_index_def dest: bucket_index_bound)

text \<open>What every table operation promises.\<close>

definition kt_keeps :: "('id, 'v) kbuckets_table \<Rightarrow> ('r \<times> ('id, 'v) kbuckets_table) option \<Rightarrow> bool" where
  "kt_keeps t r = (case r of
     None \<Rightarrow> False
   | Some (_, t') \<Rightarrow> kt_inv t' \<and> kt_local_key t' = kt_local_key t \<and> kt_table_filter t' = kt_table_filter t)"

lemma kt_keeps_bind:
  assumes "kt_keeps t x" "\<And>r t'. x = Some (r, t') \<Longrightarrow> kt_inv t' \<Longrightarrow> kt_local_key t' = kt_local_key t \<Longrightarrow>
      kt_table_filter t' = kt_table_filter t \<Longrightarrow> kt_keeps t' (f (r, t'))"
  shows "kt_keeps t (x \<bind> f)"
  using assms by (auto simp: kt_keeps_def split: option.splits)

lemma kt_keeps_Some: "kt_inv t \<Longrightarrow> kt_keeps t (Some (r, t))"
  by (simp add: kt_keeps_def)

context bucket_op
begin

lemma keeps:
  "kt_inv t \<Longrightarrow> i < NUM_BUCKETS \<Longrightarrow> \<forall>h\<in>K. covers t i h \<Longrightarrow> kt_keeps t (on_bucket i f t)"
  using on_bucket_inv [of t i] by (auto simp: kt_keeps_def)

end

lemma kt_apply_pending_keeps:
  assumes "kt_inv t" "i < NUM_BUCKETS"
  shows "kt_keeps t (kt_apply_pending now i t)"
proof -
  have "kt_inv (t\<lparr>kt_applied_pending := a\<rparr>) = kt_inv t" for a and t :: "('a, 'b) kbuckets_table"
    by (simp add: kt_inv_def covers_def)
  then show ?thesis
    using apply_op.keeps [OF assms, of now]
    by (auto simp: kt_apply_pending_def kt_keeps_def split: option.splits)
qed

lemma kt_update_node_status_keeps:
  "kt_inv t \<Longrightarrow> kt_keeps t (kt_update_node_status n1 n2 k s d t)"
  unfolding kt_update_node_status_def
  by (auto split: option.split prod.split dest!: kt_get_index_bound
      intro!: kt_keeps_bind kt_apply_pending_keeps kt_keeps_Some status_op.keeps)

lemma kt_remove_keeps: "kt_inv t \<Longrightarrow> kt_keeps t (kt_remove n1 n2 k t)"
  unfolding kt_remove_def
  by (auto split: option.split prod.split dest!: kt_get_index_bound
      intro!: kt_keeps_bind kt_apply_pending_keeps kt_keeps_Some remove_op.keeps)

lemma kt_update_node_keeps: "kt_inv t \<Longrightarrow> kt_keeps t (kt_update_node n1 n2 k v s t)"
  unfolding kt_update_node_def Let_def
  by (auto split: option.split prod.split dest!: kt_get_index_bound
      intro!: kt_keeps_bind kt_apply_pending_keeps kt_keeps_Some remove_op.keeps status_op.keeps value_op.keeps)

lemma on_bucket_SomeD:
  "on_bucket i f t = Some (r, t') \<Longrightarrow> i < length (kt_buckets t) \<and>
     (\<exists>b'. f (kt_buckets t ! i) = Some (r, b') \<and> t' = t\<lparr>kt_buckets := (kt_buckets t)[i := b']\<rparr>)"
  by (auto simp: on_bucket_def vec_get_def split: if_splits Option.bind_splits)

lemma combine_insert_Some:
  "u \<noteq> UpdatedAndPromoted \<Longrightarrow> \<not> ur_failed s \<Longrightarrow> \<exists>r. combine_insert u s = Some r"
  by (cases u; cases s) (auto simp: ur_failed_def)

lemma bucket_result_Some: "r \<noteq> BNodeExists \<Longrightarrow> \<exists>r'. bucket_result r = Some r'"
  by (cases r) auto

lemma kb_update_value_result: "kb_update_value k v b = Some (r, b') \<Longrightarrow> r \<noteq> UpdatedAndPromoted"
  by (auto simp: kb_update_value_def Let_def split: option.splits if_splits Option.bind_splits)

lemma kb_insert_absent:
  "kb_position (n_key n) b = None \<Longrightarrow> kb_insert now n b = Some (r, b') \<Longrightarrow> r \<noteq> BNodeExists"
  by (auto simp: kb_insert_def Let_def split: option.splits if_splits connection_state.splits Option.bind_splits)

lemma covers_index: "kt_get_index k t = Some i \<Longrightarrow> covers t i (hash k)"
  by (simp add: kt_get_index_def covers_def distance_def)

lemma kt_keeps_result:
  assumes "kt_keeps t x" "\<And>r t'. x = Some (r, t') \<Longrightarrow> \<exists>r'. g r = Some r'"
  shows "kt_keeps t (x \<bind> (\<lambda>(r, t'). g r \<bind> (\<lambda>r'. Some (r', t'))))"
proof (cases x)
  case (Some y)
  obtain r t' where y: "y = (r, t')" by (cases y)
  with assms(2) Some obtain r' where "g r = Some r'" by blast
  with assms(1) Some y show ?thesis by (simp add: kt_keeps_def)
qed (use assms(1) in \<open>simp add: kt_keeps_def\<close>)

lemma insert_step_keeps:
  assumes "kt_inv t" "i < NUM_BUCKETS" "covers t i (hash k)" "kb_position k (kt_buckets t ! i) = None"
  shows "kt_keeps t (on_bucket i (kb_insert now \<lparr>n_key = k, n_value = v, n_status = s\<rparr>) t \<bind>
     (\<lambda>(r, t'). bucket_result r \<bind> (\<lambda>r'. Some (r', t'))))"
proof (rule kt_keeps_result)
  show "kt_keeps t (on_bucket i (kb_insert now \<lparr>n_key = k, n_value = v, n_status = s\<rparr>) t)"
    using assms by (intro insert_op.keeps) auto
next
  fix r t' assume "on_bucket i (kb_insert now \<lparr>n_key = k, n_value = v, n_status = s\<rparr>) t = Some (r, t')"
  from on_bucket_SomeD [OF this]
  obtain b' where "kb_insert now \<lparr>n_key = k, n_value = v, n_status = s\<rparr> (kt_buckets t ! i) = Some (r, b')"
    by blast
  with assms(4) have "r \<noteq> BNodeExists" by (intro kb_insert_absent) auto
  then show "\<exists>r'. bucket_result r = Some r'" by (rule bucket_result_Some)
qed

lemma update_step_keeps:
  assumes "kt_inv t" "i < NUM_BUCKETS" "\<not> ur_failed us"
  shows "kt_keeps t (on_bucket i (kb_update_value k v) t \<bind>
     (\<lambda>(u, t'). combine_insert u us \<bind> (\<lambda>r. Some (r, t'))))"
proof (rule kt_keeps_result)
  show "kt_keeps t (on_bucket i (kb_update_value k v) t)"
    using assms by (intro value_op.keeps) auto
next
  fix u t' assume "on_bucket i (kb_update_value k v) t = Some (u, t')"
  from on_bucket_SomeD [OF this] obtain b' where "kb_update_value k v (kt_buckets t ! i) = Some (u, b')"
    by blast
  then have "u \<noteq> UpdatedAndPromoted" by (rule kb_update_value_result)
  then show "\<exists>r. combine_insert u us = Some r" using assms(3) by (rule combine_insert_Some)
qed

lemma kt_inv_vec_get:
  "kt_inv t \<Longrightarrow> i < NUM_BUCKETS \<Longrightarrow> vec_get i (kt_buckets t) = Some (kt_buckets t ! i)"
  by (simp add: kt_inv_def)

lemma kt_insert_or_update_keeps:
  assumes "kt_inv t"
  shows "kt_keeps t (kt_insert_or_update n1 n2 k v s t)"
proof (cases "kt_get_index k t")
  case (Some i)
  note i = kt_get_index_bound [OF Some]
  have cov: "kt_local_key t1 = kt_local_key t \<Longrightarrow> covers t1 i (hash k)" for t1 :: "('a, 'b) kbuckets_table"
    using covers_index [OF Some] by (simp add: covers_def)
  show ?thesis
    unfolding kt_insert_or_update_def Let_def Some option.case
    using assms i cov
    by (auto simp: kt_inv_vec_get intro!: kt_keeps_bind [OF kt_apply_pending_keeps]
        kt_keeps_bind [OF remove_op.keeps] kt_keeps_bind [OF status_op.keeps] kt_keeps_Some
        insert_step_keeps update_step_keeps)
qed (use assms in \<open>simp add: kt_insert_or_update_def kt_keeps_Some\<close>)

lemma kt_keeps_trans:
  "kt_keeps t' r \<Longrightarrow> kt_local_key t' = kt_local_key t \<Longrightarrow> kt_table_filter t' = kt_table_filter t \<Longrightarrow> kt_keeps t r"
  by (auto simp: kt_keeps_def split: option.splits)

lemma kt_iter_from_keeps:
  "kt_inv t \<Longrightarrow> \<forall>i\<in>set is. i < NUM_BUCKETS \<Longrightarrow> kt_keeps t (kt_iter_from clock is t)"
proof (induction "is" arbitrary: t)
  case (Cons i "is")
  have "kt_keeps t1 (kt_iter_from clock is t1 \<bind> (\<lambda>(ns, t2). Some (kb_nodes b @ ns, t2)))"
    if "kt_inv t1" for t1 and b :: "('a, 'b) kbucket"
    using Cons.IH [of t1] Cons.prems(2) that by (intro kt_keeps_bind) (auto intro: kt_keeps_Some)
  with Cons.prems show ?case
    by (auto simp: kt_inv_vec_get intro!: kt_keeps_bind [OF kt_apply_pending_keeps])
qed (simp add: kt_keeps_Some)

lemma kt_iter_keeps: "kt_inv t \<Longrightarrow> kt_keeps t (kt_iter clock t)"
  unfolding kt_iter_def by (rule kt_iter_from_keeps) (auto simp: kt_inv_def)

lemma nbd_apply_keeps:
  "kt_inv t \<Longrightarrow> \<forall>d\<in>set ds. 0 < d \<and> d \<le> NUM_BUCKETS \<Longrightarrow>
     kt_keeps t (nbd_apply clock k m ds c t \<bind> (\<lambda>t'. Some ((), t')))"
proof (induction ds arbitrary: t k c)
  case (Cons d ds)
  then have "d - 1 < NUM_BUCKETS" by auto
  with Cons show ?case
    by (auto simp: kt_inv_vec_get Let_def bind_assoc split: option.split
        intro!: kt_keeps_bind [OF kt_apply_pending_keeps] kt_keeps_Some)
qed (simp add: kt_keeps_Some)

lemma valid_distances_range: "\<forall>d\<in>set (valid_distances ds). 0 < d \<and> d \<le> NUM_BUCKETS"
  by (simp add: valid_distances_def)

lemma nbd_push_take:
  "length acc < max 1 m \<Longrightarrow>
   nbd_push m ns acc = (acc @ take (max 1 m - length acc) ns, max 1 m \<le> length acc + length ns)"
  by (induction ns arbitrary: acc) (auto simp: Let_def take_Cons' max_def split: if_splits)

definition nodes_at :: "('id, 'v) kbuckets_table \<Rightarrow> nat list \<Rightarrow> ('id, 'v) node list" where
  "nodes_at t ds = concat (map (\<lambda>d. kb_nodes (kt_buckets t ! (d - 1))) ds)"

lemma nbd_collect_take:
  assumes "kt_inv t"
  shows "length acc < max 1 m \<Longrightarrow> \<forall>d\<in>set ds. 0 < d \<and> d \<le> NUM_BUCKETS \<Longrightarrow>
    nbd_collect m ds acc t = Some (acc @ take (max 1 m - length acc) (nodes_at t ds))"
proof (induction ds arbitrary: acc)
  case (Cons d ds)
  let ?ns = "kb_nodes (kt_buckets t ! (d - 1))"
  have v: "vec_get (d - 1) (kt_buckets t) = Some (kt_buckets t ! (d - 1))"
    using Cons.prems(2) assms by (intro kt_inv_vec_get) auto
  have all: "nodes_at t (d # ds) = ?ns @ nodes_at t ds" by (simp add: nodes_at_def)
  show ?case
  proof (cases "max 1 m \<le> length acc + length ?ns")
    case True
    then have "nbd_push m ?ns acc = (acc @ take (max 1 m - length acc) ?ns, True)"
      using nbd_push_take [OF Cons.prems(1), of ?ns] by metis
    moreover have "take (max 1 m - length acc) (?ns @ nodes_at t ds) = take (max 1 m - length acc) ?ns"
      using True by (simp only: take_append) simp
    ultimately show ?thesis unfolding all nbd_collect.simps v by simp
  next
    case False
    then have whole: "take (max 1 m - length acc) ?ns = ?ns" by (intro take_all) linarith
    with False have "nbd_push m ?ns acc = (acc @ ?ns, False)"
      using nbd_push_take [OF Cons.prems(1), of ?ns] by metis
    moreover have "length (acc @ ?ns) < max 1 m" using False by (simp only: length_append not_le)
    moreover have "take (max 1 m - length acc) (?ns @ nodes_at t ds) =
        ?ns @ take (max 1 m - length (acc @ ?ns)) (nodes_at t ds)"
      by (simp only: take_append whole length_append diff_diff_left)
    ultimately show ?thesis
      unfolding all nbd_collect.simps v using Cons.IH [of "acc @ ?ns"] Cons.prems(2) by simp
  qed
qed (simp add: nodes_at_def)

lemma kt_nodes_by_distances_eq:
  assumes "kt_inv t"
  shows "\<exists>t'. nbd_apply clock 0 m (valid_distances ds) 0 t = Some t' \<and>
    kt_inv t' \<and> kt_local_key t' = kt_local_key t \<and> kt_table_filter t' = kt_table_filter t \<and>
    kt_nodes_by_distances clock ds m t = Some (take (max 1 m) (nodes_at t' (valid_distances ds)), t')"
proof -
  from nbd_apply_keeps [OF assms valid_distances_range, of clock 0 m ds 0]
  obtain t' where t': "nbd_apply clock 0 m (valid_distances ds) 0 t = Some t'" "kt_inv t'"
    "kt_local_key t' = kt_local_key t" "kt_table_filter t' = kt_table_filter t"
    by (auto simp: kt_keeps_def split: option.splits Option.bind_splits)
  with nbd_collect_take [OF t'(2), of "[]" m "valid_distances ds"] show ?thesis
    by (simp add: kt_nodes_by_distances_def valid_distances_range)
qed

lemma kt_nodes_by_distances_keeps: "kt_inv t \<Longrightarrow> kt_keeps t (kt_nodes_by_distances clock ds m t)"
  using kt_nodes_by_distances_eq [of t clock m ds] by (auto simp: kt_keeps_def)

lemma kt_take_applied_pending_keeps: "kt_inv t \<Longrightarrow> kt_keeps t (Some (kt_take_applied_pending t))"
  by (auto simp: kt_take_applied_pending_def kt_keeps_def kt_inv_def covers_def split: list.split)

section \<open>Lookup\<close>

definition kt_lookup :: "'id key \<Rightarrow> ('id, 'v) kbuckets_table \<Rightarrow> ('v \<times> node_status) option" where
  "kt_lookup k t = (case kt_get_bucket k t of
     None \<Rightarrow> None | Some b \<Rightarrow> map_option (\<lambda>n. (n_value n, n_status n)) (kb_get k b))"

lemma kb_get_None: "kb_get k b = None \<longleftrightarrow> kb_position k b = None"
  by (auto simp: kb_get_def kb_position_def find_None_iff)

lemma kb_get_Some:
  assumes "kb_inv b"
  shows "kb_get k b = Some n \<longleftrightarrow> n \<in> set (kb_nodes b) \<and> khash n = hash k"
proof
  assume "kb_get k b = Some n"
  then show "n \<in> set (kb_nodes b) \<and> khash n = hash k"
    by (auto simp: kb_get_def find_Some_iff key_eq_def)
next
  assume n: "n \<in> set (kb_nodes b) \<and> khash n = hash k"
  have "kb_position k b \<noteq> None" unfolding kb_position_None using n by force
  then obtain m where m: "kb_get k b = Some m" using kb_get_None [of k b] by auto
  then have "m \<in> set (kb_nodes b)" "khash m = khash n"
    using n by (auto simp: kb_get_def find_Some_iff key_eq_def)
  moreover have "inj_on khash (set (kb_nodes b))" using assms by (simp add: kb_inv_def distinct_map)
  ultimately have "m = n" using n by (auto elim: inj_onD)
  with m show "kb_get k b = Some n" by simp
qed

lemma kb_insert_get:
  assumes "kb_inv b" "kb_position (n_key n) b = None" "kb_insert now n b = Some (r, b')"
  shows "kb_get (n_key n) b' = (if r = BInserted then Some n else None)"
proof -
  have inv': "kb_inv b'" using kb_insert_inv [OF assms(1), of now n] assms(3) by auto
  have r: "r = BInserted \<and> b' = put_node n b \<or> r \<noteq> BInserted \<and> kb_nodes b' = kb_nodes b"
    using assms(3) unfolding kb_insert_eq [OF kb_shape_of_inv [OF assms(1)]] by (auto split: if_splits)
  then show ?thesis
  proof
    assume "r = BInserted \<and> b' = put_node n b"
    then show ?thesis using kb_get_Some [OF inv', of "n_key n" n] by simp
  next
    assume "r \<noteq> BInserted \<and> kb_nodes b' = kb_nodes b"
    then show ?thesis using assms(2) by (auto simp: kb_get_None kb_position_def)
  qed
qed

lemma kb_update_status_get:
  assumes "kb_inv b" "kb_get k b = Some y" "kb_update_status now k s d b = Some (r, b')"
  shows "kb_get k b' = (if ur_failed r then None else Some (set_status s d y))"
    and "ur_failed r \<or> r = NotModified \<or> r = Updated \<or> r = UpdatedAndPromoted"
proof -
  have inv': "kb_inv b'" using kb_update_status_inv [OF assms(1), of now k s d] assms(3) by auto
  from kb_get_Some [OF assms(1)] assms(2) have y: "y \<in> set (kb_nodes b)" "khash y = hash k" by auto
  then obtain xs zs where pos: "kb_nodes b = xs @ y # zs" by (meson split_list)
  have fresh: "khash y \<notin> khash ` set (xs @ zs)" using rm_nodes_inv(3) [OF assms(1) pos] .
  from assms(3) [unfolded kb_update_status_eq [OF assms(1) pos y(2)]]
  have r: "ur_failed r \<and> kb_nodes b' = xs @ zs \<or>
      (r = NotModified \<or> r = Updated \<or> r = UpdatedAndPromoted) \<and> set_status s d y \<in> set (kb_nodes b')"
    by (auto simp: ur_failed_def split: if_splits)
  then show "ur_failed r \<or> r = NotModified \<or> r = Updated \<or> r = UpdatedAndPromoted" by blast
  from r show "kb_get k b' = (if ur_failed r then None else Some (set_status s d y))"
  proof
    assume "ur_failed r \<and> kb_nodes b' = xs @ zs"
    with fresh y(2) show ?thesis by (simp add: kb_get_None kb_position_None)
  next
    assume "(r = NotModified \<or> r = Updated \<or> r = UpdatedAndPromoted) \<and> set_status s d y \<in> set (kb_nodes b')"
    with y(2) kb_get_Some [OF inv', of k "set_status s d y"] show ?thesis by (auto simp: ur_failed_def)
  qed
qed

lemma kb_update_value_get:
  assumes "kb_inv b" "kb_get k b = Some y" "kb_update_value k v b = Some (r, b')"
  shows "kb_get k b' = (if ur_failed r then None else Some (y\<lparr>n_value := v\<rparr>))"
    and "ur_failed r \<or> r = NotModified \<or> r = Updated"
proof -
  have inv': "kb_inv b'" using kb_update_value_inv [OF assms(1), of k v] assms(3) by auto
  from kb_get_Some [OF assms(1)] assms(2) have y: "y \<in> set (kb_nodes b)" "khash y = hash k" by auto
  then obtain xs zs where pos: "kb_nodes b = xs @ y # zs" by (meson split_list)
  have fresh: "khash y \<notin> khash ` set (xs @ zs)" using rm_nodes_inv(3) [OF assms(1) pos] .
  from assms(3) [unfolded kb_update_value_eq [OF assms(1) pos y(2)]] y(1)
  have r: "ur_failed r \<and> kb_nodes b' = xs @ zs \<or>
      (r = NotModified \<or> r = Updated) \<and> y\<lparr>n_value := v\<rparr> \<in> set (kb_nodes b')"
    by (auto simp: ur_failed_def split: if_splits)
  then show "ur_failed r \<or> r = NotModified \<or> r = Updated" by blast
  from r show "kb_get k b' = (if ur_failed r then None else Some (y\<lparr>n_value := v\<rparr>))"
  proof
    assume "ur_failed r \<and> kb_nodes b' = xs @ zs"
    with fresh y(2) show ?thesis by (simp add: kb_get_None kb_position_None)
  next
    assume "(r = NotModified \<or> r = Updated) \<and> y\<lparr>n_value := v\<rparr> \<in> set (kb_nodes b')"
    with y(2) kb_get_Some [OF inv', of k "y\<lparr>n_value := v\<rparr>"] show ?thesis by (auto simp: ur_failed_def)
  qed
qed

lemma kb_remove_get:
  assumes "kb_inv b" "kb_remove now k b = Some (r, b')"
  shows "kb_get k b' = None"
proof (cases "kb_position k b")
  case (Some i)
  then obtain xs y zs where pos: "kb_nodes b = xs @ y # zs" "khash y = hash k"
    by (rule kb_position_split)
  note rm = rm_nodes_inv [OF assms(1) pos(1)]
  from assms(2) obtain r' where r': "kb_apply_pending now (rm_nodes (xs @ zs) b) = Some (r', b')"
    unfolding kb_remove_eq [OF assms(1) pos] by auto
  have "bucket_keys b' \<subseteq> bucket_keys (rm_nodes (xs @ zs) b)"
    by (rule kb_apply_pending_keys [OF rm(1) r'])
  moreover have "hash k \<notin> bucket_keys (rm_nodes (xs @ zs) b)"
    using rm(3) pos assms(1) by (auto simp: bucket_keys_def kb_inv_def pending_ok_def split: option.splits)
  ultimately have "hash k \<notin> khash ` set (kb_nodes b')" by (auto simp: bucket_keys_def)
  then show ?thesis by (simp add: kb_get_None kb_position_None)
qed (use assms in \<open>simp add: kb_remove_def kb_get_None\<close>)

lemma kt_get_index_cong: "kt_local_key t1 = kt_local_key t \<Longrightarrow> kt_get_index k t1 = kt_get_index k t"
  by (simp add: kt_get_index_def)

lemma kt_lookup_at:
  assumes "kt_inv t" "kt_get_index k t = Some i"
  shows "kt_lookup k t = map_option (\<lambda>n. (n_value n, n_status n)) (kb_get k (kt_buckets t ! i))"
  using assms kt_get_index_bound [OF assms(2)]
  by (simp add: kt_lookup_def kt_get_bucket_def kt_inv_vec_get)

lemma on_bucket_lookup:
  assumes "kt_inv t" "kt_get_index k t = Some i" "on_bucket i f t = Some (r, t')"
  obtains b' where "f (kt_buckets t ! i) = Some (r, b')" "kb_inv (kt_buckets t ! i)" "kt_buckets t' ! i = b'"
    "kt_lookup k t' = map_option (\<lambda>n. (n_value n, n_status n)) (kb_get k b')"
    "kt_local_key t' = kt_local_key t" "\<forall>j. j \<noteq> i \<longrightarrow> kt_buckets t' ! j = kt_buckets t ! j"
proof -
  from on_bucket_SomeD [OF assms(3)] obtain b' where b': "i < length (kt_buckets t)"
    "f (kt_buckets t ! i) = Some (r, b')" "t' = t\<lparr>kt_buckets := (kt_buckets t)[i := b']\<rparr>" by blast
  show thesis
  proof (rule that [OF b'(2)])
    show "kb_inv (kt_buckets t ! i)" using assms(1) kt_get_index_bound [OF assms(2)] by (simp add: kt_inv_def)
    have "kt_get_index k t' = Some i" using assms(2) b'(3) by (simp add: kt_get_index_def)
    then show "kt_lookup k t' = map_option (\<lambda>n. (n_value n, n_status n)) (kb_get k b')"
      using b' by (simp add: kt_lookup_def kt_get_bucket_def)
  qed (use b' in auto)
qed

lemma kt_apply_pending_SomeD:
  assumes "kt_inv t" "i < NUM_BUCKETS" "kt_apply_pending now i t = Some (r, t')"
  shows "kt_inv t'" "kt_local_key t' = kt_local_key t" "\<forall>j. j \<noteq> i \<longrightarrow> kt_buckets t' ! j = kt_buckets t ! j"
proof -
  from kt_apply_pending_keeps [OF assms(1,2), of now] assms(3)
  show "kt_inv t'" "kt_local_key t' = kt_local_key t" by (simp_all add: kt_keeps_def)
  from assms(3) obtain t1 where t1: "on_bucket i (kb_apply_pending now) t = Some (r, t1)"
    "kt_buckets t' = kt_buckets t1"
    by (auto simp: kt_apply_pending_def split: Option.bind_splits option.splits)
  from on_bucket_SomeD [OF t1(1)] t1(2)
  show "\<forall>j. j \<noteq> i \<longrightarrow> kt_buckets t' ! j = kt_buckets t ! j" by auto
qed

lemma set_status_Some: "n_status (set_status (st_state s) (Some (st_direction s)) y) = s"
  by (simp add: set_status_def)

lemma kt_insert_or_update_lookup:
  assumes inv: "kt_inv t" and eq: "kt_insert_or_update n1 n2 k v s t = Some (r, t')"
    and i: "kt_get_index k t = Some i"
  shows "kt_lookup k t' = (case r of TFailed _ \<Rightarrow> None | TPending _ \<Rightarrow> None | _ \<Rightarrow> Some (v, s)) \<and>
    (\<forall>j. j \<noteq> i \<longrightarrow> kt_buckets t' ! j = kt_buckets t ! j)"
proof -
  let ?n = "\<lparr>n_key = k, n_value = v, n_status = s\<rparr>"
  note bound = kt_get_index_bound [OF i]
  from eq i obtain a t1 where t1: "kt_apply_pending n1 i t = Some (a, t1)"
    by (auto simp: kt_insert_or_update_def Let_def split: Option.bind_splits)
  note ap = kt_apply_pending_SomeD [OF inv bound t1]
  have i1: "kt_get_index k t1 = Some i" using i ap(2) by (simp add: kt_get_index_def)
  note bk = kt_inv_vec_get [OF ap(1) bound]
  note step = on_bucket_lookup [OF ap(1) i1]
  consider (removed) "\<not> passed_table_filter k v t"
    | (new) "passed_table_filter k v t" "kb_position k (kt_buckets t1 ! i) = None"
    | (old) y where "passed_table_filter k v t" "kb_get k (kt_buckets t1 ! i) = Some y"
    using kb_get_None [of k "kt_buckets t1 ! i"] by auto
  then show ?thesis
  proof cases
    case removed
    with eq i t1 bk obtain x where "on_bucket i (kb_remove n2 k) t1 = Some (x, t')" "r = TFailed TableFilter"
      by (auto simp: kt_insert_or_update_def Let_def split: Option.bind_splits)
    with ap(3) show ?thesis by (elim step) (auto dest: kb_remove_get)
  next
    case new
    with eq i t1 bk obtain x where x: "on_bucket i (kb_insert n2 ?n) t1 = Some (x, t')" "bucket_result x = Some r"
      by (auto simp: kt_insert_or_update_def Let_def split: Option.bind_splits)
    from x(1) show ?thesis
    proof (rule step)
      fix b' assume *: "kb_insert n2 ?n (kt_buckets t1 ! i) = Some (x, b')" "kb_inv (kt_buckets t1 ! i)"
        "kt_lookup k t' = map_option (\<lambda>n. (n_value n, n_status n)) (kb_get k b')"
        "\<forall>j. j \<noteq> i \<longrightarrow> kt_buckets t' ! j = kt_buckets t1 ! j"
      from kb_insert_get [OF *(2) _ *(1)] new(2) have "kb_get k b' = (if x = BInserted then Some ?n else None)"
        by simp
      with *(3,4) ap(3) x(2) show ?thesis by (cases x) auto
    qed
  next
    case (old y)
    let ?st = "kb_update_status n2 k (st_state s) (Some (st_direction s))"
    have "kb_position k (kt_buckets t1 ! i) \<noteq> None" using old(2) kb_get_None [of k "kt_buckets t1 ! i"] by auto
    with old eq i t1 bk obtain us t2 where us: "on_bucket i ?st t1 = Some (us, t2)"
      and rest: "if ur_failed us then r = TFailed TooManyIncoming \<and> t' = t2
        else \<exists>uv. on_bucket i (kb_update_value k v) t2 = Some (uv, t') \<and> combine_insert uv us = Some r"
      by (auto simp: kt_insert_or_update_def Let_def split: Option.bind_splits if_splits)
    have inv2: "kt_inv t2" "kt_get_index k t2 = Some i"
      using status_op.keeps [OF ap(1) bound, of n2 k "st_state s" "Some (st_direction s)"] us i1
      by (simp_all add: kt_keeps_def kt_get_index_def)
    from us obtain b2 where b2: "?st (kt_buckets t1 ! i) = Some (us, b2)" "kb_inv (kt_buckets t1 ! i)"
      "kt_buckets t2 ! i = b2" "kt_lookup k t2 = map_option (\<lambda>n. (n_value n, n_status n)) (kb_get k b2)"
      "kt_local_key t2 = kt_local_key t1" "\<forall>j. j \<noteq> i \<longrightarrow> kt_buckets t2 ! j = kt_buckets t1 ! j"
      by (rule step) (rule that; assumption)
    note st = kb_update_status_get [OF b2(2) old(2) b2(1)]
    show ?thesis
    proof (cases "ur_failed us")
      case True
      with rest st(1) b2(4,6) ap(3) show ?thesis by simp
    next
      case False
      with rest obtain uv where uv: "on_bucket i (kb_update_value k v) t2 = Some (uv, t')"
        "combine_insert uv us = Some r" by auto
      from uv(1) obtain b3 where b3: "kb_update_value k v (kt_buckets t2 ! i) = Some (uv, b3)"
        "kb_inv (kt_buckets t2 ! i)" "kt_buckets t' ! i = b3" "kt_lookup k t' = map_option (\<lambda>n. (n_value n, n_status n)) (kb_get k b3)"
        "kt_local_key t' = kt_local_key t2" "\<forall>j. j \<noteq> i \<longrightarrow> kt_buckets t' ! j = kt_buckets t2 ! j"
        by (rule on_bucket_lookup [OF inv2]) (rule that; assumption)
      have "kb_get k (kt_buckets t2 ! i) = Some (set_status (st_state s) (Some (st_direction s)) y)"
        using st(1) False b2(3) by simp
      note val = kb_update_value_get [OF b3(2) this b3(1)]
      from val(2) st(2) False uv(2) val(1) b3(4) have
        "kt_lookup k t' = (case r of TFailed _ \<Rightarrow> None | TPending _ \<Rightarrow> None | _ \<Rightarrow> Some (v, s))"
        by (cases uv; cases us) (auto simp: ur_failed_def set_status_Some)
      with b3(6) b2(6) ap(3) show ?thesis by simp
    qed
  qed
qed

lemma kt_iter_ref_split: "n \<in> set (kt_iter_ref t) \<longleftrightarrow> (\<exists>i<length (kt_buckets t). n \<in> set (kb_nodes (kt_buckets t ! i)))"
  by (fastforce simp: kt_iter_ref_def in_set_conv_nth)

lemma kt_node_index:
  assumes "kt_inv t" "i < NUM_BUCKETS" "n \<in> set (kb_nodes (kt_buckets t ! i))"
  shows "bucket_index (hash (kt_local_key t) XOR khash n) = Some i"
  using assms by (auto simp: kt_inv_def bucket_keys_def covers_def)

lemma distinct_concat_nth:
  assumes "\<And>i. i < length xss \<Longrightarrow> distinct (map f (xss ! i))"
    and "\<And>i j x y. i < length xss \<Longrightarrow> j < length xss \<Longrightarrow> i \<noteq> j \<Longrightarrow> x \<in> set (xss ! i) \<Longrightarrow> y \<in> set (xss ! j) \<Longrightarrow> f x \<noteq> f y"
  shows "distinct (map f (concat xss))"
  using assms
proof (induction xss)
  case (Cons xs xss)
  have "distinct (map f (concat xss))"
  proof (rule Cons.IH)
    show "\<And>i. i < length xss \<Longrightarrow> distinct (map f (xss ! i))" using Cons.prems(1) by fastforce
    show "\<And>i j x y. i < length xss \<Longrightarrow> j < length xss \<Longrightarrow> i \<noteq> j \<Longrightarrow> x \<in> set (xss ! i) \<Longrightarrow> y \<in> set (xss ! j) \<Longrightarrow> f x \<noteq> f y"
      using Cons.prems(2) [of "Suc _" "Suc _"] by fastforce
  qed
  moreover have "distinct (map f xs)" using Cons.prems(1) [of 0] by simp
  moreover have "f x \<noteq> f y" if "x \<in> set xs" "y \<in> set (concat xss)" for x y
  proof -
    from that(2) obtain ys where "ys \<in> set xss" "y \<in> set ys" by auto
    then obtain j where "j < length xss" "y \<in> set (xss ! j)" by (metis in_set_conv_nth)
    with Cons.prems(2) [of 0 "Suc j" x y] that(1) show ?thesis by simp
  qed
  ultimately show ?case by auto
qed simp

section \<open>Properties\<close>

text \<open>
  C16. \<open>insert_or_update\<close> never panics and keeps the table invariant, and its result tells what a lookup
  of the key finds afterwards: the given value and status, or nothing if the result is \<open>Failed\<close> or
  \<open>Pending\<close>. (On \<open>Failed\<close> a node that was stored under the key has been removed.)
\<close>

theorem table_insert_lookup:
  assumes "kt_inv t"
  shows "\<exists>r t'. kt_insert_or_update now1 now2 k v s t = Some (r, t') \<and> kt_inv t' \<and>
     kt_lookup k t' = (case r of TFailed _ \<Rightarrow> None | TPending _ \<Rightarrow> None | _ \<Rightarrow> Some (v, s))"
proof -
  from kt_insert_or_update_keeps [OF assms, of now1 now2 k v s]
  obtain r t' where eq: "kt_insert_or_update now1 now2 k v s t = Some (r, t')" "kt_inv t'"
    by (auto simp: kt_keeps_def split: option.splits)
  moreover have "kt_lookup k t' = (case r of TFailed _ \<Rightarrow> None | TPending _ \<Rightarrow> None | _ \<Rightarrow> Some (v, s))"
  proof (cases "kt_get_index k t")
    case None
    with eq show ?thesis by (auto simp: kt_insert_or_update_def kt_lookup_def kt_get_bucket_def)
  next
    case (Some i)
    from kt_insert_or_update_lookup [OF assms eq(1) Some] show ?thesis by blast
  qed
  ultimately show ?thesis by blast
qed

text \<open>
  No key is stored twice in the whole table, the local key is not stored, and each node is in the
  bucket that its logarithmic distance from the local key selects.
\<close>

lemma table_keys_unique:
  assumes "kt_inv t"
  shows "distinct (map khash (kt_iter_ref t)) \<and>
     hash (kt_local_key t) \<notin> khash ` set (kt_iter_ref t) \<and>
     (\<forall>i<NUM_BUCKETS. \<forall>n\<in>set (kb_nodes (kt_buckets t ! i)).
        log2_distance (kt_local_key t) (n_key n) = Some (i + 1))"
proof -
  have len: "length (kt_buckets t) = NUM_BUCKETS" using assms by (simp add: kt_inv_def)
  note idx = kt_node_index [OF assms]
  have "distinct (map khash (kt_iter_ref t))"
    unfolding kt_iter_ref_def
  proof (rule distinct_concat_nth)
    fix i assume "i < length (map kb_nodes (kt_buckets t))"
    then show "distinct (map khash (map kb_nodes (kt_buckets t) ! i))"
      using assms by (simp add: kt_inv_def kb_inv_def)
  next
    fix i j x y
    assume "i < length (map kb_nodes (kt_buckets t))" "j < length (map kb_nodes (kt_buckets t))" "i \<noteq> j"
      "x \<in> set (map kb_nodes (kt_buckets t) ! i)" "y \<in> set (map kb_nodes (kt_buckets t) ! j)"
    with idx [of i x] idx [of j y] show "khash x \<noteq> khash y" by (auto simp: len)
  qed
  moreover have "khash n \<noteq> hash (kt_local_key t)" if "n \<in> set (kt_iter_ref t)" for n
    using that idx by (fastforce simp: kt_iter_ref_split len)
  moreover have "log2_distance (kt_local_key t) (n_key n) = Some (i + 1)"
    if "i < NUM_BUCKETS" "n \<in> set (kb_nodes (kt_buckets t ! i))" for i n
    using idx [OF that] by (simp add: log2_distance_bucket_index distance_def)
  ultimately show ?thesis by (metis imageE)
qed

text \<open>
  C24. \<open>nodes_by_distances\<close> never panics, and returns the first \<open>max_nodes\<close> nodes (but at least one) of
  the buckets at the requested distances that lie in \<open>[1, 256]\<close>, in the order of the request; each
  returned node is at one of the requested distances.
\<close>

theorem table_nodes_by_distances:
  assumes "kt_inv t"
  shows "\<exists>ns t'. kt_nodes_by_distances clock ds m t = Some (ns, t') \<and> kt_inv t' \<and>
     ns = take (max 1 m) (nodes_at t' (valid_distances ds)) \<and>
     (\<forall>n\<in>set ns. \<exists>d\<in>set ds. log2_distance (kt_local_key t) (n_key n) = Some d)"
proof -
  from kt_nodes_by_distances_eq [OF assms, of clock m ds] obtain t' where
    t': "kt_inv t'" "kt_local_key t' = kt_local_key t"
    "kt_nodes_by_distances clock ds m t = Some (take (max 1 m) (nodes_at t' (valid_distances ds)), t')"
    by blast
  have "\<exists>d\<in>set ds. log2_distance (kt_local_key t) (n_key n) = Some d"
    if "n \<in> set (nodes_at t' (valid_distances ds))" for n
  proof -
    from that obtain d where d: "d \<in> set (valid_distances ds)" "n \<in> set (kb_nodes (kt_buckets t' ! (d - 1)))"
      by (auto simp: nodes_at_def)
    then have "0 < d" "d \<le> NUM_BUCKETS" "d \<in> set ds" by (auto simp: valid_distances_def)
    with kt_node_index [OF t'(1) _ d(2)] show ?thesis
      by (auto simp: log2_distance_bucket_index distance_def t'(2) intro!: bexI [of _ d])
  qed
  with t' show ?thesis by (blast dest: in_set_takeD)
qed

section \<open>Witnesses\<close>

definition ex_local :: "node_id key" where
  "ex_local = key_from_node_id 8"

definition ex_table :: "(node_id, nat) kbuckets_table" where
  "ex_table = kt_new ex_local 60 8 None (Some (\<lambda>v vs. v \<notin> set vs))"

definition ex_status :: node_status where
  "ex_status = \<lparr>st_direction = Outgoing, st_state = Connected\<rparr>"

definition ex_inserted :: "(node_id, nat) kbuckets_table" where
  "ex_inserted = snd (the (kt_insert_or_update 0 0 (key_from_node_id 9) 5 ex_status ex_table))"

lemma ex_table_inv: "kt_inv ex_table"
  unfolding ex_table_def by (rule kt_new_inv)

lemma ex_inserted_result:
  "map_option fst (kt_insert_or_update 0 0 (key_from_node_id 9) 5 ex_status ex_table) = Some TInserted"
  by code_simp

lemma ex_inserted_inv: "kt_inv ex_inserted"
proof -
  from kt_insert_or_update_keeps [OF ex_table_inv, of 0 0 "key_from_node_id 9" 5 ex_status]
  show ?thesis by (auto simp: ex_inserted_def kt_keeps_def split: option.splits)
qed

theorem table_insert_lookup_witness:
  "kt_inv ex_table \<and>
   (\<exists>t'. kt_insert_or_update 0 0 (key_from_node_id 9) 5 ex_status ex_table = Some (TInserted, t') \<and>
     kt_lookup (key_from_node_id 9) t' = Some (5, ex_status))"
  using table_insert_lookup [OF ex_table_inv, of 0 0 "key_from_node_id 9" 5 ex_status]
    ex_inserted_result ex_table_inv by auto

theorem table_nodes_by_distances_witness:
  "kt_inv ex_inserted \<and>
   (\<exists>ns t'. kt_nodes_by_distances (\<lambda>_. 0) [0, 1, 300] 16 ex_inserted = Some (ns, t') \<and> map khash ns = [9] \<and>
     (\<forall>n\<in>set ns. \<exists>d\<in>{0, 1, 300}. log2_distance (kt_local_key ex_inserted) (n_key n) = Some d))"
proof -
  have "map_option (\<lambda>r. map khash (fst r)) (kt_nodes_by_distances (\<lambda>_. 0) [0, 1, 300] 16 ex_inserted) = Some [9]"
    by code_simp
  with table_nodes_by_distances [OF ex_inserted_inv, of "\<lambda>_. 0" "[0, 1, 300]" 16] ex_inserted_inv
  show ?thesis by fastforce
qed

end
