(* ===== verification/Disc_Entry.thy ===== *)
theory Disc_Entry
  imports Disc_Table
begin

text \<open>
  \<open>src/kbucket/entry.rs\<close> and \<open>KBucketsTable::entry\<close>: the view of the state of one key in the table. An
  \<open>Entry\<close> borrows a bucket and a key; its operations are functions of that key and bucket.
\<close>

section \<open>Definitions\<close>

datatype entry = Present node_status | Pending node_status | Absent | SelfEntry

definition entry_new :: "'id key \<Rightarrow> ('id, 'v) kbucket \<Rightarrow> entry" where
  "entry_new key b =
     (case kb_position key b of
        Some pos \<Rightarrow> Present (kb_status pos b)
      | None \<Rightarrow> (case kb_as_pending key b of Some p \<Rightarrow> Pending (pn_status p) | None \<Rightarrow> Absent))"

definition kt_entry ::
  "instant \<Rightarrow> 'id key \<Rightarrow> ('id, 'v) kbuckets_table \<Rightarrow> (entry \<times> ('id, 'v) kbuckets_table) option" where
  "kt_entry now key t =
     (case kt_get_index key t of
        Some i \<Rightarrow> do {
          (_, t1) \<leftarrow> kt_apply_pending now i t;
          b \<leftarrow> vec_get i (kt_buckets t1);
          Some (entry_new key b, t1)
        }
      | None \<Rightarrow> Some (SelfEntry, t))"

text \<open>\<open>PresentEntry::value\<close>, and \<open>value_mut\<close> with what the caller writes through the reference.\<close>

definition present_value :: "'id key \<Rightarrow> ('id, 'v) kbucket \<Rightarrow> 'v option" where
  "present_value key b = map_option n_value (kb_get key b)"

definition present_value_mut :: "('v \<Rightarrow> 'v) \<Rightarrow> 'id key \<Rightarrow> ('id, 'v) kbucket \<Rightarrow> ('id, 'v) kbucket option" where
  "present_value_mut f key b = do {
     pos \<leftarrow> kb_position key b;
     n \<leftarrow> vec_get pos (kb_nodes b);
     Some (b\<lparr>kb_nodes := (kb_nodes b)[pos := n\<lparr>n_value := f (n_value n)\<rparr>]\<rparr>)
   }"

definition present_update ::
  "instant \<Rightarrow> connection_state \<Rightarrow> connection_direction option \<Rightarrow> 'id key \<Rightarrow> ('id, 'v) kbucket
     \<Rightarrow> ((failure_reason + unit) \<times> ('id, 'v) kbucket) option" where
  "present_update now state direction key b = do {
     (r, b') \<leftarrow> kb_update_status now key state direction b;
     Some (case r of UFailed reason \<Rightarrow> Inl reason | _ \<Rightarrow> Inr (), b')
   }"

definition present_remove ::
  "instant \<Rightarrow> 'id key \<Rightarrow> ('id, 'v) kbucket \<Rightarrow> ('id, 'v) kbucket option" where
  "present_remove now key b = map_option snd (kb_remove now key b)"

definition pending_value_mut :: "('v \<Rightarrow> 'v) \<Rightarrow> ('id, 'v) kbucket \<Rightarrow> ('id, 'v) kbucket option" where
  "pending_value_mut f b = do {
     p \<leftarrow> kb_pending b;
     Some (b\<lparr>kb_pending := Some (p\<lparr>pn_node := (pn_node p)\<lparr>n_value := f (n_value (pn_node p))\<rparr>\<rparr>)\<rparr>)
   }"

definition pending_update :: "node_status \<Rightarrow> ('id, 'v) kbucket \<Rightarrow> ('id, 'v) kbucket" where
  "pending_update s b = kb_update_pending s b"

definition pending_remove ::
  "instant \<Rightarrow> 'id key \<Rightarrow> ('id, 'v) kbucket \<Rightarrow> ('id, 'v) kbucket option" where
  "pending_remove now key b = map_option snd (kb_remove now key b)"

definition absent_insert ::
  "instant \<Rightarrow> 'v \<Rightarrow> node_status \<Rightarrow> 'id key \<Rightarrow> ('id, 'v) kbucket
     \<Rightarrow> ('id bucket_insert_result \<times> ('id, 'v) kbucket) option" where
  "absent_insert now v status key b = kb_insert now \<lparr>n_key = key, n_value = v, n_status = status\<rparr> b"

section \<open>An entry tells where the key is\<close>

lemma entry_new_cases:
  assumes "kb_inv b"
  shows "case entry_new k b of
      Present s \<Rightarrow> \<exists>n\<in>set (kb_nodes b). khash n = hash k \<and> n_status n = s
    | Pending s \<Rightarrow> \<exists>p. kb_pending b = Some p \<and> khash (pn_node p) = hash k \<and> n_status (pn_node p) = s \<and>
        hash k \<notin> khash ` set (kb_nodes b)
    | Absent \<Rightarrow> hash k \<notin> bucket_keys b
    | SelfEntry \<Rightarrow> False"
proof (cases "kb_position k b")
  case (Some i)
  then obtain xs y zs where "kb_nodes b = xs @ y # zs" "length xs = i" "khash y = hash k"
    by (rule kb_position_split)
  with Some show ?thesis by (auto simp: entry_new_def kb_status_def)
next
  case None
  then have "hash k \<notin> khash ` set (kb_nodes b)" by (simp add: kb_position_None)
  with None show ?thesis
    by (auto simp: entry_new_def kb_as_pending_def key_eq_def pn_status_def bucket_keys_def split: option.splits)
qed

lemma kt_entry_keeps: "kt_inv t \<Longrightarrow> kt_keeps t (kt_entry now k t)"
  unfolding kt_entry_def
  by (auto split: option.split dest!: kt_get_index_bound simp: kt_inv_vec_get
      intro!: kt_keeps_bind [OF kt_apply_pending_keeps] kt_keeps_Some)

lemma present_value_mut_inv:
  assumes "kb_inv b" "entry_new k b = Present s"
  shows "\<exists>b'. present_value_mut f k b = Some b' \<and> kb_inv b' \<and> bucket_keys b' = bucket_keys b"
proof -
  from assms(2) obtain i where i: "kb_position k b = Some i"
    by (auto simp: entry_new_def split: option.splits)
  then obtain xs y zs where pos: "kb_nodes b = xs @ y # zs" "length xs = i" by (rule kb_position_split)
  then have "present_value_mut f k b = Some (b\<lparr>kb_nodes := xs @ y\<lparr>n_value := f (n_value y)\<rparr> # zs\<rparr>)"
    using i by (auto simp: present_value_mut_def)
  with set_value_inv [OF assms(1) pos(1)] pos(1) show ?thesis by (simp add: bucket_keys_def)
qed

section \<open>Properties\<close>

text \<open>
  \<open>entry\<close> never panics and keeps the table invariant. The entry it builds tells the truth about
  the bucket the key belongs to: \<open>Present\<close> with the stored status, \<open>Pending\<close> with the pending node's
  status, \<open>Absent\<close> if the key is neither stored nor pending, \<open>SelfEntry\<close> for the local key only.
\<close>

lemma table_entry_correct:
  assumes "kt_inv t"
  shows "\<exists>e t'. kt_entry now k t = Some (e, t') \<and> kt_inv t' \<and>
     (case kt_get_bucket k t' of
        None \<Rightarrow> e = SelfEntry \<and> hash k = hash (kt_local_key t)
      | Some b \<Rightarrow> (case e of
            Present s \<Rightarrow> \<exists>n\<in>set (kb_nodes b). khash n = hash k \<and> n_status n = s
          | Pending s \<Rightarrow> \<exists>p. kb_pending b = Some p \<and> khash (pn_node p) = hash k \<and>
              n_status (pn_node p) = s \<and> hash k \<notin> khash ` set (kb_nodes b)
          | Absent \<Rightarrow> hash k \<notin> bucket_keys b
          | SelfEntry \<Rightarrow> False))"
proof (cases "kt_get_index k t")
  case None
  then have "hash k = hash (kt_local_key t)" by (simp add: kt_get_index_def)
  moreover have "kt_entry now k t = Some (SelfEntry, t)" "kt_get_bucket k t = None"
    using None by (simp_all add: kt_entry_def kt_get_bucket_def)
  ultimately show ?thesis using assms by simp
next
  case (Some i)
  note bound = kt_get_index_bound [OF Some]
  from kt_apply_pending_keeps [OF assms bound, of now] obtain a t1 where
    t1: "kt_apply_pending now i t = Some (a, t1)" "kt_inv t1" "kt_local_key t1 = kt_local_key t"
    by (auto simp: kt_keeps_def split: option.splits)
  let ?b = "kt_buckets t1 ! i"
  have "kt_entry now k t = Some (entry_new k ?b, t1)"
    using Some t1 kt_inv_vec_get [OF t1(2) bound] by (simp add: kt_entry_def)
  moreover have "kt_get_bucket k t1 = Some ?b"
    using Some t1 kt_inv_vec_get [OF t1(2) bound] by (simp add: kt_get_bucket_def kt_get_index_def)
  moreover have "kb_inv ?b" using t1(2) bound by (simp add: kt_inv_def)
  ultimately show ?thesis using entry_new_cases [of ?b k] t1(2) by simp
qed

text \<open>
  \<open>PendingEntry::remove\<close> leaves the bucket as it is: it calls \<open>KBucket::remove\<close>, which only looks
  among the nodes, so the pending entry stays pending.
\<close>

lemma pending_remove_no_effect:
  assumes "entry_new k b = Pending s"
  shows "pending_remove now k b = Some b"
  using assms by (auto simp: entry_new_def pending_remove_def kb_remove_def split: option.splits)

section \<open>Witnesses\<close>

end
