(* ===== verification/Disc_Closest.thy ===== *)
theory Disc_Closest
  imports Disc_Table Disc_Entry
begin

text \<open>
  \<open>src/kbucket.rs\<close>, the iterators: \<open>ClosestBucketsIter\<close> yields the bucket indices from the bucket of the
  target outwards, \<open>ClosestIter\<close> the entries of these buckets, each bucket sorted by the distance from
  the target. \<open>closest_keys\<close>, \<open>closest_values\<close> and \<open>closest_values_predicate\<close> are three projections.
\<close>

section \<open>The bucket iterator\<close>

datatype closest_buckets_state = Start nat | ZoomIn nat | ZoomOut nat | Done

definition cb_new :: "u256 \<Rightarrow> closest_buckets_state" where
  "cb_new d = (case bucket_index d of Some i \<Rightarrow> Start i | None \<Rightarrow> Start 0)"

definition next_in :: "u256 \<Rightarrow> nat \<Rightarrow> nat option" where
  "next_in d i = find_map (\<lambda>i. if bit d i then Some i else None) (rev [0..<i])"

definition next_out :: "u256 \<Rightarrow> nat \<Rightarrow> nat option" where
  "next_out d i = find_map (\<lambda>i. if \<not> bit d i then Some i else None) [i + 1..<NUM_BUCKETS]"

fun cb_next :: "u256 \<Rightarrow> closest_buckets_state \<Rightarrow> nat option \<times> closest_buckets_state" where
  "cb_next d (Start i) = (Some i, ZoomIn i)"
| "cb_next d (ZoomIn i) =
     (case next_in d i of Some j \<Rightarrow> (Some j, ZoomIn j) | None \<Rightarrow> (Some 0, ZoomOut 0))"
| "cb_next d (ZoomOut i) =
     (case next_out d i of Some j \<Rightarrow> (Some j, ZoomOut j) | None \<Rightarrow> (None, Done))"
| "cb_next d Done = (None, Done)"

text \<open>How many indices the iterator can still yield, at most.\<close>

fun cb_rank :: "closest_buckets_state \<Rightarrow> nat" where
  "cb_rank (Start i) = i + NUM_BUCKETS + 2"
| "cb_rank (ZoomIn i) = i + NUM_BUCKETS + 1"
| "cb_rank (ZoomOut i) = NUM_BUCKETS - i"
| "cb_rank Done = 0"

lemma find_map_mem: "find_map (\<lambda>i. if P i then Some i else None) xs = Some j \<Longrightarrow> j \<in> set xs \<and> P j"
  by (induction xs) (auto split: if_splits)

lemma next_in_less: "next_in d i = Some j \<Longrightarrow> j < i \<and> bit d j"
  unfolding next_in_def by (drule find_map_mem) auto

lemma next_out_greater: "next_out d i = Some j \<Longrightarrow> i < j \<and> j < NUM_BUCKETS \<and> \<not> bit d j"
  unfolding next_out_def by (drule find_map_mem) auto

lemma cb_rank_next: "cb_next d s = (Some i, s') \<Longrightarrow> cb_rank s' < cb_rank s"
  by (cases s) (auto split: option.splits dest!: next_in_less next_out_greater)

section \<open>The entry iterator\<close>

record ('id, 'v, 'out) closest_iter =
  ci_target :: u256
  ci_table :: "('id, 'v) kbuckets_table"
  ci_distance :: u256
  ci_buckets :: closest_buckets_state
  ci_iter :: "'out list option"

text \<open>
  \<open>next\<close>: the loop of \<open>ClosestIter::next\<close>. \<open>fmap\<close> projects a node (the closures map it over the bucket),
  \<open>key_of\<close> is \<open>AsRef\<close>, \<open>clock i\<close> the instant at which bucket \<open>i\<close> is entered.
\<close>

function (sequential) ci_next ::
  "(nat \<Rightarrow> instant) \<Rightarrow> (('id, 'v) node \<Rightarrow> 'out) \<Rightarrow> ('out \<Rightarrow> 'id key) \<Rightarrow> ('id, 'v, 'out) closest_iter
     \<Rightarrow> ('out option \<times> ('id, 'v, 'out) closest_iter) option" where
  "ci_next clock fmap key_of it =
     (case ci_iter it of
        Some (k # ks) \<Rightarrow> Some (Some k, it\<lparr>ci_iter := Some ks\<rparr>)
      | Some [] \<Rightarrow> ci_next clock fmap key_of (it\<lparr>ci_iter := None\<rparr>)
      | None \<Rightarrow>
          (case cb_next (ci_distance it) (ci_buckets it) of
             (None, s) \<Rightarrow> Some (None, it\<lparr>ci_buckets := s\<rparr>)
           | (Some i, s) \<Rightarrow>
               (case kt_apply_pending (clock i) i (ci_table it) of
                  None \<Rightarrow> None
                | Some (_, t) \<Rightarrow>
                    (case vec_get i (kt_buckets t) of
                       None \<Rightarrow> None
                     | Some b \<Rightarrow>
                         ci_next clock fmap key_of
                           (it\<lparr>ci_buckets := s, ci_table := t,
                              ci_iter := Some (sort_key (\<lambda>a. ci_target it XOR hash (key_of a))
                                                 (map fmap (kb_nodes b)))\<rparr>)))))"
  by pat_completeness auto

termination
  by (relation "measure (\<lambda>(clock, fmap, key_of, it).
        2 * cb_rank (ci_buckets it) + (case ci_iter it of None \<Rightarrow> 0 | Some _ \<Rightarrow> 1))")
    (auto dest!: cb_rank_next [OF sym])

declare ci_next.simps [simp del]

text \<open>The first \<open>n\<close> results of the iterator, and the iterator after them.\<close>

fun ci_take ::
  "(nat \<Rightarrow> instant) \<Rightarrow> (('id, 'v) node \<Rightarrow> 'out) \<Rightarrow> ('out \<Rightarrow> 'id key) \<Rightarrow> nat \<Rightarrow> ('id, 'v, 'out) closest_iter
     \<Rightarrow> ('out list \<times> ('id, 'v, 'out) closest_iter) option" where
  "ci_take clock fmap key_of 0 it = Some ([], it)"
| "ci_take clock fmap key_of (Suc n) it = do {
     (r, it1) \<leftarrow> ci_next clock fmap key_of it;
     case r of
       None \<Rightarrow> Some ([], it1)
     | Some k \<Rightarrow> do {
         (ks, it2) \<leftarrow> ci_take clock fmap key_of n it1;
         Some (k # ks, it2)
       }
   }"

definition ci_new :: "'t key \<Rightarrow> ('id, 'v) kbuckets_table \<Rightarrow> ('id, 'v, 'out) closest_iter" where
  "ci_new target t =
     (let d = distance (kt_local_key t) target
      in \<lparr>ci_target = hash target, ci_table = t, ci_distance = d, ci_buckets = cb_new d, ci_iter = None\<rparr>)"

record ('id, 'v) predicate_value =
  pv_key :: "'id key"
  pv_predicate_match :: bool
  pv_value :: 'v

definition closest_keys ::
  "(nat \<Rightarrow> instant) \<Rightarrow> nat \<Rightarrow> 't key \<Rightarrow> ('id, 'v) kbuckets_table
     \<Rightarrow> ('id key list \<times> ('id, 'v, 'id key) closest_iter) option" where
  "closest_keys clock n target t = ci_take clock n_key id n (ci_new target t)"

definition closest_values ::
  "(nat \<Rightarrow> instant) \<Rightarrow> nat \<Rightarrow> 't key \<Rightarrow> ('id, 'v) kbuckets_table
     \<Rightarrow> (('id key \<times> 'v) list \<times> ('id, 'v, 'id key \<times> 'v) closest_iter) option" where
  "closest_values clock n target t = ci_take clock (\<lambda>m. (n_key m, n_value m)) fst n (ci_new target t)"

definition closest_values_predicate ::
  "(nat \<Rightarrow> instant) \<Rightarrow> ('v \<Rightarrow> bool) \<Rightarrow> nat \<Rightarrow> 't key \<Rightarrow> ('id, 'v) kbuckets_table
     \<Rightarrow> (('id, 'v) predicate_value list \<times> ('id, 'v, ('id, 'v) predicate_value) closest_iter) option" where
  "closest_values_predicate clock predicate n target t =
     ci_take clock
       (\<lambda>m. \<lparr>pv_key = n_key m, pv_predicate_match = predicate (n_value m), pv_value = n_value m\<rparr>)
       pv_key n (ci_new target t)"

section \<open>The order of the buckets\<close>

function cb_list :: "u256 \<Rightarrow> closest_buckets_state \<Rightarrow> nat list" where
  "cb_list d s = (case cb_next d s of (None, _) \<Rightarrow> [] | (Some i, s') \<Rightarrow> i # cb_list d s')"
  by pat_completeness auto

termination
  by (relation "measure (\<lambda>(d, s). cb_rank s)") (auto dest!: cb_rank_next [OF sym])

declare cb_list.simps [simp del]

lemma find_map_filter:
  "find_map (\<lambda>i. if P i then Some i else None) xs = (case filter P xs of [] \<Rightarrow> None | y # _ \<Rightarrow> Some y)"
  by (induction xs) auto

lemma cb_list_Done [simp]: "cb_list d Done = []"
  by (simp add: cb_list.simps)

lemma filter_upt_Cons:
  "filter P [i..<n] = j # js \<Longrightarrow> js = filter P [j + 1..<n]"
proof (induction "n - i" arbitrary: i)
  case (Suc m)
  then have "i < n" "m = n - Suc i" by simp_all
  with Suc.hyps(1) [of "Suc i"] Suc.prems show ?case by (auto simp: upt_conv_Cons split: if_splits)
qed simp

lemma filter_rev_upt_Cons: "filter P (rev [0..<i]) = j # js \<Longrightarrow> js = filter P (rev [0..<j])"
  by (induction i) (auto split: if_splits)

lemma cb_list_ZoomOut: "cb_list d (ZoomOut i) = filter (\<lambda>k. \<not> bit d k) [i + 1..<NUM_BUCKETS]"
proof (induction "NUM_BUCKETS - i" arbitrary: i rule: less_induct)
  case less
  show ?case
  proof (cases "filter (\<lambda>k. \<not> bit d k) [i + 1..<NUM_BUCKETS]")
    case Nil
    then show ?thesis by (simp add: cb_list.simps [of d "ZoomOut i"] next_out_def find_map_filter)
  next
    case (Cons j js)
    then have nxt: "next_out d i = Some j" by (simp add: next_out_def find_map_filter)
    have "NUM_BUCKETS - j < NUM_BUCKETS - i" using next_out_greater [OF nxt] by (simp add: diff_less_mono2)
    with less.hyps [of j] filter_upt_Cons [OF Cons] Cons nxt show ?thesis
      by (simp add: cb_list.simps [of d "ZoomOut i"])
  qed
qed

lemma cb_list_ZoomIn:
  "cb_list d (ZoomIn i) = filter (bit d) (rev [0..<i]) @ 0 # filter (\<lambda>k. \<not> bit d k) [1..<NUM_BUCKETS]"
proof (induction i rule: less_induct)
  case (less i)
  show ?case
  proof (cases "filter (bit d) (rev [0..<i])")
    case Nil
    then show ?thesis
      by (simp add: cb_list.simps [of d "ZoomIn i"] next_in_def find_map_filter cb_list_ZoomOut)
  next
    case (Cons j js)
    then have "next_in d i = Some j" by (simp add: next_in_def find_map_filter)
    with next_in_less [OF this] less.IH [of j] filter_rev_upt_Cons [OF Cons] Cons show ?thesis
      by (simp add: cb_list.simps [of d "ZoomIn i"])
  qed
qed

lemma cb_list_Start: "cb_list d (Start i) = i # cb_list d (ZoomIn i)"
  by (simp add: cb_list.simps [of d "Start i"])

lemma cb_list_new:
  "cb_list d (cb_new d) =
     (case bucket_index d of Some i \<Rightarrow> i # filter (bit d) (rev [0..<i]) | None \<Rightarrow> [0])
       @ 0 # filter (\<lambda>k. \<not> bit d k) [1..<NUM_BUCKETS]"
  by (simp add: cb_new_def cb_list_Start cb_list_ZoomIn split: option.split)


text \<open>Bucket \<open>j\<close> may come before bucket \<open>k\<close>: all its keys are at most as far from the target.\<close>

definition zoom_before :: "u256 \<Rightarrow> nat \<Rightarrow> nat \<Rightarrow> bool" where
  "zoom_before d j k \<longleftrightarrow> (k < j \<and> bit d j) \<or> (j < k \<and> \<not> bit d k) \<or> (j = 0 \<and> k = 0)"

lemma zoom_before_le:
  assumes "zoom_before d j k" "bucket_index x = Some j" "bucket_index y = Some k"
  shows "d XOR x \<le> d XOR y"
proof -
  from assms(2,3) have x: "bit x j" "\<And>i. j < i \<Longrightarrow> \<not> bit x i" and y: "bit y k" "\<And>i. k < i \<Longrightarrow> \<not> bit y i"
    by (auto simp: bucket_index_Some_iff)
  from assms(1) consider "k < j" "bit d j" | "j < k" "\<not> bit d k" | "j = 0" "k = 0"
    by (auto simp: zoom_before_def)
  then show ?thesis
  proof cases
    case 1
    then have "d XOR x < d XOR y"
      using x y by (intro word_less_highest_bit [of _ j]) (auto simp: bit_xor_iff)
    then show ?thesis by simp
  next
    case 2
    then have "d XOR x < d XOR y"
      using x y by (intro word_less_highest_bit [of _ k]) (auto simp: bit_xor_iff)
    then show ?thesis by simp
  next
    case 3
    then have "x = y" using x y by (intro bit_eqI) (metis gr0I)
    then show ?thesis by simp
  qed
qed

lemma sorted_wrt_filter_upt: "sorted_wrt (<) (filter P [i..<n :: nat])"
  by (simp add: sorted_wrt_filter)

lemma cb_list_zoom: "sorted_wrt (zoom_before d) (cb_list d (cb_new d))"
proof -
  let ?in = "\<lambda>i. filter (bit d) (rev [0..<i])" and ?out = "filter (\<lambda>k. \<not> bit d k) [1..<NUM_BUCKETS]"
  have out: "sorted_wrt (zoom_before d) (0 # ?out)"
  proof -
    have "sorted_wrt (zoom_before d) ?out"
      by (rule sorted_wrt_mono_rel [OF _ sorted_wrt_filter_upt]) (auto simp: zoom_before_def)
    then show ?thesis by (auto simp: zoom_before_def)
  qed
  have ins: "sorted_wrt (zoom_before d) (?in i)" for i
  proof -
    have "sorted_wrt (>) (rev [0..<i])" by (simp add: sorted_wrt_rev)
    then have "sorted_wrt (>) (?in i)" by (rule sorted_wrt_filter)
    then show ?thesis by (rule sorted_wrt_mono_rel [rotated]) (auto simp: zoom_before_def)
  qed
  show ?thesis
  proof (cases "bucket_index d")
    case None
    then show ?thesis using out by (auto simp: cb_list_new zoom_before_def)
  next
    case (Some i)
    then have i: "bit d i" "\<forall>j>i. \<not> bit d j" by (auto simp: bucket_index_Some_iff)
    have "zoom_before d j k" if "j \<in> set (i # ?in i)" "k \<in> set (0 # ?out)" for j k
      using that i(1) by (cases j k rule: linorder_cases) (auto simp: zoom_before_def)
    moreover have "sorted_wrt (zoom_before d) (i # ?in i)"
      using ins i(1) by (auto simp: zoom_before_def)
    ultimately show ?thesis using out by (simp only: cb_list_new Some option.case sorted_wrt_append) blast
  qed
qed

lemma cb_list_all: "set (cb_list d (cb_new d)) = {..<NUM_BUCKETS}"
proof (cases "bucket_index d")
  case None
  then have "d = 0" by simp
  then show ?thesis by (auto simp: cb_list_new NUM_BUCKETS_def)
next
  case (Some i)
  note b = bucket_index_bound [OF Some]
  from Some have i: "\<forall>j>i. \<not> bit d j" by (auto simp: bucket_index_Some_iff)
  have "k \<in> set (cb_list d (cb_new d))" if "k < NUM_BUCKETS" for k
    using that i by (cases "k = i"; cases "k < i"; cases "k = 0") (auto simp: cb_list_new Some)
  moreover have "k < NUM_BUCKETS" if "k \<in> set (cb_list d (cb_new d))" for k
    using that b by (auto simp: cb_list_new Some)
  ultimately show ?thesis by auto
qed

section \<open>What the entry iterator yields\<close>

text \<open>The results of visiting the buckets \<open>is\<close> in order, without laziness.\<close>

fun visit ::
  "(nat \<Rightarrow> instant) \<Rightarrow> (('id, 'v) node \<Rightarrow> 'out) \<Rightarrow> ('out \<Rightarrow> 'id key) \<Rightarrow> u256 \<Rightarrow> nat list
     \<Rightarrow> ('id, 'v) kbuckets_table \<Rightarrow> ('out list \<times> ('id, 'v) kbuckets_table) option" where
  "visit clock fmap key_of target [] t = Some ([], t)"
| "visit clock fmap key_of target (i # is) t = do {
     (_, t1) \<leftarrow> kt_apply_pending (clock i) i t;
     b \<leftarrow> vec_get i (kt_buckets t1);
     (rest, t2) \<leftarrow> visit clock fmap key_of target is t1;
     Some (sort_key (\<lambda>a. target XOR hash (key_of a)) (map fmap (kb_nodes b)) @ rest, t2)
   }"

lemma kt_apply_pending_total:
  assumes "kt_inv t" "i < NUM_BUCKETS"
  obtains a t1 where "kt_apply_pending now i t = Some (a, t1)" "kt_inv t1"
    "kt_local_key t1 = kt_local_key t" "kt_table_filter t1 = kt_table_filter t"
    "vec_get i (kt_buckets t1) = Some (kt_buckets t1 ! i)"
    "\<forall>j. j \<noteq> i \<longrightarrow> kt_buckets t1 ! j = kt_buckets t ! j"
proof -
  from kt_apply_pending_keeps [OF assms, of now] obtain a t1 where
    t1: "kt_apply_pending now i t = Some (a, t1)" "kt_inv t1" "kt_local_key t1 = kt_local_key t"
    "kt_table_filter t1 = kt_table_filter t"
    by (auto simp: kt_keeps_def split: option.splits)
  with that kt_inv_vec_get [OF t1(2) assms(2)] kt_apply_pending_SomeD(3) [OF assms t1(1)]
  show thesis by blast
qed

lemma visit_total:
  assumes "kt_inv t" "\<forall>i\<in>set is. i < NUM_BUCKETS"
  shows "\<exists>out t'. visit clock fmap key_of target is t = Some (out, t') \<and> kt_inv t' \<and>
     kt_local_key t' = kt_local_key t \<and> kt_table_filter t' = kt_table_filter t \<and>
     (\<forall>i\<in>set is. fmap ` set (kb_nodes (kt_buckets t' ! i)) \<subseteq> set out) \<and>
     (\<forall>i. i \<notin> set is \<longrightarrow> kt_buckets t' ! i = kt_buckets t ! i)"
  using assms
proof (induction "is" arbitrary: t)
  case (Cons i "is")
  have i: "i < NUM_BUCKETS" using Cons.prems(2) by simp
  obtain a t1 where t1: "kt_apply_pending (clock i) i t = Some (a, t1)" "kt_inv t1"
    "kt_local_key t1 = kt_local_key t" "kt_table_filter t1 = kt_table_filter t"
    "vec_get i (kt_buckets t1) = Some (kt_buckets t1 ! i)"
    "\<forall>j. j \<noteq> i \<longrightarrow> kt_buckets t1 ! j = kt_buckets t ! j"
    using kt_apply_pending_total [OF Cons.prems(1) i] by metis
  from Cons.IH [OF t1(2)] Cons.prems(2) obtain out t' where
    v: "visit clock fmap key_of target is t1 = Some (out, t')" "kt_inv t'"
     "kt_local_key t' = kt_local_key t1" "kt_table_filter t' = kt_table_filter t1"
     "\<forall>i\<in>set is. fmap ` set (kb_nodes (kt_buckets t' ! i)) \<subseteq> set out"
     "\<forall>i. i \<notin> set is \<longrightarrow> kt_buckets t' ! i = kt_buckets t1 ! i" by auto
  let ?out = "sort_key (\<lambda>a. target XOR hash (key_of a)) (map fmap (kb_nodes (kt_buckets t1 ! i))) @ out"
  have "visit clock fmap key_of target (i # is) t = Some (?out, t')"
    using t1(1,5) v(1) by simp
  moreover have "\<forall>j\<in>set (i # is). fmap ` set (kb_nodes (kt_buckets t' ! j)) \<subseteq> set ?out"
    using v(5,6) by (cases "i \<in> set is") auto
  ultimately show ?case using v t1 by auto
qed simp

definition remaining ::
  "(nat \<Rightarrow> instant) \<Rightarrow> (('id, 'v) node \<Rightarrow> 'out) \<Rightarrow> ('out \<Rightarrow> 'id key) \<Rightarrow> ('id, 'v, 'out) closest_iter \<Rightarrow> 'out list" where
  "remaining clock fmap key_of it =
     (case ci_iter it of None \<Rightarrow> [] | Some ks \<Rightarrow> ks) @
     fst (the (visit clock fmap key_of (ci_target it) (cb_list (ci_distance it) (ci_buckets it)) (ci_table it)))"

definition ci_inv :: "('id, 'v, 'out) closest_iter \<Rightarrow> bool" where
  "ci_inv it \<longleftrightarrow> kt_inv (ci_table it) \<and>
     (\<forall>i\<in>set (cb_list (ci_distance it) (ci_buckets it)). i < NUM_BUCKETS)"

lemma ci_next_remaining:
  "ci_inv it \<Longrightarrow> \<exists>it'. ci_inv it' \<and> remaining clock fmap key_of it' = tl (remaining clock fmap key_of it) \<and>
     ci_next clock fmap key_of it =
       Some (case remaining clock fmap key_of it of [] \<Rightarrow> None | k # _ \<Rightarrow> Some k, it')"
proof (induction clock fmap key_of it rule: ci_next.induct)
  case (1 clock fmap key_of it)
  show ?case
  proof (cases "ci_iter it")
    case (Some ks)
    show ?thesis
    proof (cases ks)
      case Nil
      let ?it = "it\<lparr>ci_iter := None\<rparr>"
      have "ci_inv ?it" using "1.prems" by (simp add: ci_inv_def)
      moreover have "remaining clock fmap key_of ?it = remaining clock fmap key_of it"
        using Some Nil by (simp add: remaining_def)
      moreover have "ci_next clock fmap key_of it = ci_next clock fmap key_of ?it"
        using Some Nil by (subst ci_next.simps) simp
      ultimately show ?thesis using "1.IH"(2) [OF Some Nil] by simp
    next
      case (Cons k ks')
      then show ?thesis using Some "1.prems"
        by (intro exI [of _ "it\<lparr>ci_iter := Some ks'\<rparr>"])
          (simp add: remaining_def ci_inv_def ci_next.simps)
    qed
  next
    case None
    obtain r s where nxt: "cb_next (ci_distance it) (ci_buckets it) = (r, s)" by fastforce
    show ?thesis
    proof (cases r)
      case None
      then have "cb_list (ci_distance it) (ci_buckets it) = []"
        using nxt by (simp add: cb_list.simps [of _ "ci_buckets it"])
      moreover have "cb_list (ci_distance it) s = []"
        using nxt None by (cases "ci_buckets it") (auto split: option.splits)
      ultimately show ?thesis using nxt None \<open>ci_iter it = None\<close> "1.prems"
        by (intro exI [of _ "it\<lparr>ci_buckets := s\<rparr>"]) (simp add: remaining_def ci_inv_def ci_next.simps)
    next
      case (Some i)
      then have lst: "cb_list (ci_distance it) (ci_buckets it) = i # cb_list (ci_distance it) s"
        using nxt by (simp add: cb_list.simps [of _ "ci_buckets it"])
      with "1.prems" have inv: "kt_inv (ci_table it)" "i < NUM_BUCKETS"
        "\<forall>i\<in>set (cb_list (ci_distance it) s). i < NUM_BUCKETS" by (auto simp: ci_inv_def)
      obtain a t1 where t1: "kt_apply_pending (clock i) i (ci_table it) = Some (a, t1)" "kt_inv t1"
        "vec_get i (kt_buckets t1) = Some (kt_buckets t1 ! i)"
        using kt_apply_pending_total [OF inv(1,2)] by metis
      define it1 where "it1 = it\<lparr>ci_buckets := s, ci_table := t1,
         ci_iter := Some (sort_key (\<lambda>a. ci_target it XOR hash (key_of a)) (map fmap (kb_nodes (kt_buckets t1 ! i))))\<rparr>"
      have "ci_inv it1" using t1(2) inv(3) by (simp add: ci_inv_def it1_def)
      moreover have "remaining clock fmap key_of it1 = remaining clock fmap key_of it"
        using visit_total [OF t1(2) inv(3), of clock fmap key_of "ci_target it"] t1 lst \<open>ci_iter it = None\<close>
        by (auto simp: remaining_def it1_def)
      moreover have "ci_next clock fmap key_of it = ci_next clock fmap key_of it1"
        using nxt Some t1 \<open>ci_iter it = None\<close> by (subst ci_next.simps) (simp add: it1_def)
      ultimately show ?thesis
        using "1.IH"(1) [OF \<open>ci_iter it = None\<close> nxt [symmetric] Some t1(1) refl t1(3), folded it1_def] by simp
    qed
  qed
qed

lemma ci_take_remaining:
  "ci_inv it \<Longrightarrow> \<exists>it'. ci_inv it' \<and>
     ci_take clock fmap key_of n it = Some (take n (remaining clock fmap key_of it), it')"
proof (induction n arbitrary: it)
  case (Suc n)
  obtain it1 where it1: "ci_inv it1" "remaining clock fmap key_of it1 = tl (remaining clock fmap key_of it)"
    "ci_next clock fmap key_of it =
       Some (case remaining clock fmap key_of it of [] \<Rightarrow> None | k # _ \<Rightarrow> Some k, it1)"
    using ci_next_remaining [OF Suc.prems, of clock fmap key_of] by blast
  obtain it2 where it2: "ci_inv it2"
    "ci_take clock fmap key_of n it1 = Some (take n (remaining clock fmap key_of it1), it2)"
    using Suc.IH [OF it1(1)] by blast
  show ?case
  proof (cases "remaining clock fmap key_of it")
    case Nil
    with it1 show ?thesis by auto
  next
    case (Cons k ks)
    with it1 it2 show ?thesis by auto
  qed
qed auto

lemma xor_local: "target XOR h = (l XOR target) XOR (l XOR h)" for target h l :: u256
  by (intro bit_eqI) (auto simp: bit_xor_iff)

lemma visit_sorted:
  assumes "\<forall>n. key_of (fmap n) = n_key n"
  shows "kt_inv t \<Longrightarrow> \<forall>i\<in>set is. i < NUM_BUCKETS \<Longrightarrow>
     sorted_wrt (zoom_before (hash (kt_local_key t) XOR target)) is \<Longrightarrow>
     visit clock fmap key_of target is t = Some (out, t') \<Longrightarrow>
     sorted (map (\<lambda>a. target XOR hash (key_of a)) out) \<and>
     (\<forall>a\<in>set out. \<exists>i\<in>set is. bucket_index (hash (kt_local_key t) XOR hash (key_of a)) = Some i)"
proof (induction "is" arbitrary: t out)
  case (Cons i "is")
  let ?l = "hash (kt_local_key t)"
  have i: "i < NUM_BUCKETS" using Cons.prems(2) by simp
  obtain a t1 where t1: "kt_apply_pending (clock i) i t = Some (a, t1)" "kt_inv t1"
    "kt_local_key t1 = kt_local_key t" "vec_get i (kt_buckets t1) = Some (kt_buckets t1 ! i)"
    using kt_apply_pending_total [OF Cons.prems(1) i] by metis
  let ?blk = "sort_key (\<lambda>a. target XOR hash (key_of a)) (map fmap (kb_nodes (kt_buckets t1 ! i)))"
  from Cons.prems(4) t1 obtain rest where
    rest: "visit clock fmap key_of target is t1 = Some (rest, t')" "out = ?blk @ rest"
    by (auto split: Option.bind_splits)
  have IH: "sorted (map (\<lambda>a. target XOR hash (key_of a)) rest)"
    "\<forall>a\<in>set rest. \<exists>i\<in>set is. bucket_index (?l XOR hash (key_of a)) = Some i"
    using Cons.IH [OF t1(2) _ _ rest(1)] Cons.prems(2,3) t1(3) by auto
  have blk: "bucket_index (?l XOR hash (key_of a)) = Some i" if "a \<in> set ?blk" for a
    using that kt_node_index [OF t1(2) i] by (auto simp: assms t1(3))
  have "target XOR hash (key_of a) \<le> target XOR hash (key_of b)" if ab: "a \<in> set ?blk" "b \<in> set rest" for a b
  proof -
    from ab(2) IH(2) obtain j where j: "j \<in> set is" "bucket_index (?l XOR hash (key_of b)) = Some j" by blast
    with Cons.prems(3) have "zoom_before (?l XOR target) i j" by simp
    from zoom_before_le [OF this blk [OF ab(1)] j(2)] show ?thesis
      by (simp only: xor_local [of target "hash (key_of a)" ?l] xor_local [of target "hash (key_of b)" ?l])
  qed
  then have "sorted (map (\<lambda>a. target XOR hash (key_of a)) out)"
    unfolding rest(2) using IH(1) by (auto simp: sorted_append simp del: set_sort)
  with IH(2) blk show ?case unfolding rest(2) by auto
qed simp

lemma visit_no_pending:
  assumes "kt_inv t" "\<forall>b\<in>set (kt_buckets t). kb_pending b = None" "\<forall>i\<in>set is. i < NUM_BUCKETS"
  shows "visit clock fmap key_of target is t =
     Some (concat (map (\<lambda>i. sort_key (\<lambda>a. target XOR hash (key_of a)) (map fmap (kb_nodes (kt_buckets t ! i)))) is), t)"
  using assms(3)
proof (induction "is")
  case (Cons i "is")
  then have i: "i < length (kt_buckets t)" using assms(1) by (simp add: kt_inv_def)
  with assms(2) have "kb_pending (kt_buckets t ! i) = None" by simp
  with i have "kt_apply_pending (clock i) i t = Some (None, t)"
    by (simp add: kt_apply_pending_def on_bucket_def kb_apply_pending_None)
  with Cons i show ?case by simp
qed simp

lemma ci_new_inv: "kt_inv t \<Longrightarrow> ci_inv (ci_new target t)"
  by (simp add: ci_inv_def ci_new_def Let_def cb_list_all)

lemma distance_hash: "distance a b = hash a XOR hash b"
  by (simp add: distance_def)

text \<open>The contract of the three projections: the order and the content of what they yield.\<close>

lemma ci_correct:
  assumes "kt_inv t" "\<forall>n. key_of (fmap n) = n_key n"
  shows "\<exists>out. (\<forall>n. \<exists>it. ci_take clock fmap key_of n (ci_new target t) = Some (take n out, it) \<and> kt_inv (ci_table it)) \<and>
     sorted (map (\<lambda>a. distance target (key_of a)) out) \<and>
     ((\<forall>b\<in>set (kt_buckets t). kb_pending b = None) \<longrightarrow> set out = fmap ` set (kt_iter_ref t))"
proof -
  let ?it = "ci_new target t"
  define d where "d = distance (kt_local_key t) target"
  have d: "d = hash (kt_local_key t) XOR hash target" by (simp add: d_def distance_def)
  let ?is = "cb_list d (cb_new d)"
  have idx: "\<forall>i\<in>set ?is. i < NUM_BUCKETS" by (simp add: cb_list_all)
  obtain out t' where v: "visit clock fmap key_of (hash target) ?is t = Some (out, t')"
    using visit_total [OF assms(1) idx, of clock fmap key_of "hash target"] by auto
  then have rem: "remaining clock fmap key_of ?it = out"
    by (simp add: remaining_def ci_new_def Let_def d_def)
  have "\<exists>it. ci_take clock fmap key_of n ?it = Some (take n out, it) \<and> kt_inv (ci_table it)" for n
    using ci_take_remaining [OF ci_new_inv [OF assms(1)], of clock fmap key_of n target] rem
    by (auto simp: ci_inv_def)
  moreover have "sorted (map (\<lambda>a. distance target (key_of a)) out)"
  proof -
    have "sorted_wrt (zoom_before (hash (kt_local_key t) XOR hash target)) ?is"
      using cb_list_zoom [of d] by (simp only: d [symmetric])
    from visit_sorted [OF assms(2,1) idx this v]
    have "sorted (map (\<lambda>a. hash target XOR hash (key_of a)) out)" by (rule conjunct1)
    then show ?thesis by (simp only: distance_hash)
  qed
  moreover have "set out = fmap ` set (kt_iter_ref t)" if "\<forall>b\<in>set (kt_buckets t). kb_pending b = None"
  proof -
    have "out = concat (map (\<lambda>i. sort_key (\<lambda>a. hash target XOR hash (key_of a))
        (map fmap (kb_nodes (kt_buckets t ! i)))) ?is)"
      using v visit_no_pending [OF assms(1) that idx, of clock fmap key_of "hash target"]
      by (metis option.inject prod.inject)
    then have "set out = (\<Union>i\<in>set ?is. fmap ` set (kb_nodes (kt_buckets t ! i)))" by simp
    also have "\<dots> = fmap ` (\<Union>i\<in>{..<NUM_BUCKETS}. set (kb_nodes (kt_buckets t ! i)))"
      unfolding cb_list_all by (rule image_UN [symmetric])
    also have "(\<Union>i\<in>{..<NUM_BUCKETS}. set (kb_nodes (kt_buckets t ! i))) = set (kt_iter_ref t)"
      using assms(1) by (auto simp only: kt_iter_ref_split kt_inv_def)
    finally show ?thesis .
  qed
  ultimately show ?thesis by blast
qed

section \<open>Sequences of table operations\<close>

datatype ('id, 'v) table_op =
    TOInsertOrUpdate instant instant "'id key" 'v node_status
  | TOUpdateNode instant instant "'id key" 'v "connection_state option"
  | TOUpdateStatus instant instant "'id key" connection_state "connection_direction option"
  | TORemove instant instant "'id key"
  | TOEntry instant "'id key"
  | TOIter "nat \<Rightarrow> instant"
  | TONodesByDistances "nat \<Rightarrow> instant" "nat list" nat
  | TOClosest "nat \<Rightarrow> instant" nat u256
  | TOTakeApplied

definition run_closest ::
  "(nat \<Rightarrow> instant) \<Rightarrow> nat \<Rightarrow> u256 \<Rightarrow> ('id, 'v) kbuckets_table \<Rightarrow> ('id, 'v) kbuckets_table option" where
  "run_closest clock n target t =
     map_option (\<lambda>r. ci_table (snd r)) (closest_keys clock n \<lparr>preimage = (), hash = target\<rparr> t)"

fun kt_step :: "('id, 'v) table_op \<Rightarrow> ('id, 'v) kbuckets_table \<Rightarrow> ('id, 'v) kbuckets_table option" where
  "kt_step (TOInsertOrUpdate n1 n2 k v s) t = map_option snd (kt_insert_or_update n1 n2 k v s t)"
| "kt_step (TOUpdateNode n1 n2 k v s) t = map_option snd (kt_update_node n1 n2 k v s t)"
| "kt_step (TOUpdateStatus n1 n2 k s d) t = map_option snd (kt_update_node_status n1 n2 k s d t)"
| "kt_step (TORemove n1 n2 k) t = map_option snd (kt_remove n1 n2 k t)"
| "kt_step (TOEntry now k) t = map_option snd (kt_entry now k t)"
| "kt_step (TOIter clock) t = map_option snd (kt_iter clock t)"
| "kt_step (TONodesByDistances clock ds m) t = map_option snd (kt_nodes_by_distances clock ds m t)"
| "kt_step (TOClosest clock n target) t = run_closest clock n target t"
| "kt_step TOTakeApplied t = Some (snd (kt_take_applied_pending t))"

fun kt_run :: "('id, 'v) table_op list \<Rightarrow> ('id, 'v) kbuckets_table \<Rightarrow> ('id, 'v) kbuckets_table option" where
  "kt_run [] t = Some t"
| "kt_run (op # ops) t = do { t' \<leftarrow> kt_step op t; kt_run ops t' }"

lemma kt_keeps_snd: "kt_keeps t r \<Longrightarrow> \<exists>t'. map_option snd r = Some t' \<and> kt_inv t'"
  by (auto simp: kt_keeps_def split: option.splits)

lemma run_closest_inv:
  assumes "kt_inv t"
  shows "\<exists>t'. run_closest clock n target t = Some t' \<and> kt_inv t'"
  using ci_take_remaining [OF ci_new_inv [OF assms], of clock n_key id n "\<lparr>preimage = (), hash = target\<rparr>"]
  by (auto simp: run_closest_def closest_keys_def ci_inv_def)

lemma kt_step_inv:
  assumes "kt_inv t"
  shows "\<exists>t'. kt_step op t = Some t' \<and> kt_inv t'"
proof (cases op)
  case TOTakeApplied
  then show ?thesis using kt_keeps_snd [OF kt_take_applied_pending_keeps [OF assms]] by simp
qed (simp_all only: kt_step.simps run_closest_inv [OF assms]
    kt_keeps_snd [OF kt_insert_or_update_keeps [OF assms]] kt_keeps_snd [OF kt_update_node_keeps [OF assms]]
    kt_keeps_snd [OF kt_update_node_status_keeps [OF assms]] kt_keeps_snd [OF kt_remove_keeps [OF assms]]
    kt_keeps_snd [OF kt_entry_keeps [OF assms]] kt_keeps_snd [OF kt_iter_keeps [OF assms]]
    kt_keeps_snd [OF kt_nodes_by_distances_keeps [OF assms]])

lemma kt_run_inv: "kt_inv t \<Longrightarrow> \<exists>t'. kt_run ops t = Some t' \<and> kt_inv t'"
proof (induction ops arbitrary: t)
  case (Cons op ops)
  then show ?case using kt_step_inv [OF Cons.prems, of op] by auto
qed simp

lemma count_distinct: "distinct xs \<Longrightarrow> length (filter (\<lambda>j. j = i) xs) = (if i \<in> set xs then 1 else 0)"
  by (induction xs) auto

lemma count_distinct_around:
  assumes "distinct xs" "distinct ys"
  shows "length (filter (\<lambda>j. j = i) (xs @ y # ys)) =
     (if i \<in> set xs then 1 else 0) + (if i = y then 1 else 0) + (if i \<in> set ys then 1 else 0)"
  using assms by (simp add: count_distinct)

lemma cb_list_count:
  assumes "i < NUM_BUCKETS"
  shows "length (filter (\<lambda>j. j = i) (cb_list d (cb_new d))) = (if i = 0 \<and> (bit d 0 \<or> d = 0) then 2 else 1)"
proof (cases "bucket_index d")
  case None
  then have "d = 0" by simp
  then have "cb_list d (cb_new d) = [0] @ 0 # [1..<NUM_BUCKETS]" by (simp add: cb_list_new)
  then have "length (filter (\<lambda>j. j = i) (cb_list d (cb_new d))) =
      (if i = 0 then 2 else 0) + (if i \<in> set [1..<NUM_BUCKETS] then 1 else 0)"
    by (simp add: count_distinct del: upt_rec_numeral)
  with \<open>d = 0\<close> assms show ?thesis by (auto simp del: upt_rec_numeral)
next
  case (Some m)
  then have m: "bit d m" "\<forall>j>m. \<not> bit d j" "d \<noteq> 0" by (auto simp: bucket_index_Some_iff)
  let ?in = "m # filter (bit d) (rev [0..<m])" and ?out = "filter (\<lambda>k. \<not> bit d k) [1..<NUM_BUCKETS]"
  have "distinct ?in" "distinct ?out" by simp_all
  note count_distinct_around [OF this, of i 0]
  moreover have "i \<in> set ?in \<longleftrightarrow> bit d i" using m by (cases i m rule: linorder_cases) auto
  moreover have "i \<in> set ?out \<longleftrightarrow> i \<noteq> 0 \<and> \<not> bit d i" using assms by auto
  ultimately show ?thesis using m(3) by (auto simp only: cb_list_new Some option.case split: if_split)
qed

section \<open>Properties\<close>

text \<open>
  C2. From a new table, every sequence of table operations (insertions, updates, removals, entry
  accesses, iterations, searches by distance and by closeness) runs without a panic and keeps the
  table invariant: 256 buckets that satisfy the bucket invariant, with each stored or pending node in
  the bucket its distance from the local key selects.
\<close>

theorem table_ops_safe:
  "\<exists>t. kt_run ops (kt_new local_key timeout max_incoming table_filter bucket_filter) = Some t \<and> kt_inv t"
  by (rule kt_run_inv [OF kt_new_inv])

text \<open>
  C21. \<open>closest_values_predicate\<close> (like \<open>closest_keys\<close> and \<open>closest_values\<close>) terminates without a panic,
  yields the entries by increasing distance from the target, and when no node is pending yields exactly
  the stored nodes, each marked with whether its value satisfies the predicate. Consuming only \<open>n\<close>
  results gives the first \<open>n\<close>.
\<close>

theorem closest_values_correct:
  fixes target :: "'t key"
  assumes "kt_inv t"
  shows "\<exists>out. (\<forall>n. \<exists>it. closest_values_predicate clock predicate n target t = Some (take n out, it) \<and>
       kt_inv (ci_table it)) \<and>
     sorted (map (\<lambda>a. distance target (pv_key a)) out) \<and>
     ((\<forall>b\<in>set (kt_buckets t). kb_pending b = None) \<longrightarrow>
        set out = (\<lambda>m. \<lparr>pv_key = n_key m, pv_predicate_match = predicate (n_value m), pv_value = n_value m\<rparr>)
          ` set (kt_iter_ref t))"
  unfolding closest_values_predicate_def by (rule ci_correct [OF assms]) simp

text \<open>
  C27. The bucket iterator yields every bucket index, and each index only once, except that bucket 0 comes
  twice when the lowest bit of the distance between the local key and the target is set or the two
  keys are equal.
\<close>

theorem closest_buckets_visits:
  "set (cb_list d (cb_new d)) = {..<NUM_BUCKETS} \<and>
   length (filter (\<lambda>j. j = i) (cb_list d (cb_new d))) =
     (if NUM_BUCKETS \<le> i then 0 else if i = 0 \<and> (bit d 0 \<or> d = 0) then 2 else 1)"
  by (cases "NUM_BUCKETS \<le> i") (auto simp: cb_list_all cb_list_count filter_empty_conv)

section \<open>Witnesses\<close>

theorem closest_values_correct_witness:
  "kt_inv ex_inserted \<and>
   (\<exists>it. closest_values_predicate (\<lambda>_. 0) (\<lambda>v. v = 5) 1 (key_from_node_id 12) ex_inserted =
      Some ([\<lparr>pv_key = key_from_node_id 9, pv_predicate_match = True, pv_value = 5\<rparr>], it) \<and>
     kt_inv (ci_table it))"
proof -
  have r: "map_option fst (closest_values_predicate (\<lambda>_. 0) (\<lambda>v. v = 5) 1 (key_from_node_id 12) ex_inserted) =
      Some [\<lparr>pv_key = key_from_node_id 9, pv_predicate_match = True, pv_value = 5\<rparr>]"
    by code_simp
  from closest_values_correct [OF ex_inserted_inv, of "\<lambda>_. 0" "\<lambda>v. v = 5" "key_from_node_id 12"]
  obtain out it where
    "closest_values_predicate (\<lambda>_. 0) (\<lambda>v. v = 5) 1 (key_from_node_id 12) ex_inserted = Some (take 1 out, it)"
    "kt_inv (ci_table it)" by blast
  with r ex_inserted_inv show ?thesis by simp
qed

end
