(* ===== verification/Disc_Btree.thy ===== *)
theory Disc_Btree
  imports Disc_Prelude
begin

text \<open>
  \<open>std::collections::BTreeMap\<close> as the queries use it: an association list with strictly increasing
  keys. The iteration order of the map is the order of the list.
\<close>

section \<open>Definitions\<close>

type_synonym ('k, 'v) btree = "('k \<times> 'v) list"

definition bt_invar :: "('k::linorder, 'v) btree \<Rightarrow> bool" where
  "bt_invar m = sorted_wrt (<) (map fst m)"

definition bt_get :: "'k \<Rightarrow> ('k, 'v) btree \<Rightarrow> 'v option" where
  "bt_get k m = map_of m k"

fun bt_insert :: "'k::linorder \<Rightarrow> 'v \<Rightarrow> ('k, 'v) btree \<Rightarrow> ('k, 'v) btree" where
  "bt_insert k v [] = [(k, v)]"
| "bt_insert k v ((k', v') # m) =
     (if k < k' then (k, v) # (k', v') # m
      else if k = k' then (k, v) # m
      else (k', v') # bt_insert k v m)"

text \<open>\<open>entry(k).or_insert(v)\<close>, and \<open>entry(k)\<close> modified through \<open>get_mut\<close>.\<close>

definition bt_or_insert :: "'k::linorder \<Rightarrow> 'v \<Rightarrow> ('k, 'v) btree \<Rightarrow> ('k, 'v) btree" where
  "bt_or_insert k v m = (case bt_get k m of Some _ \<Rightarrow> m | None \<Rightarrow> bt_insert k v m)"

definition bt_modify :: "'k \<Rightarrow> ('v \<Rightarrow> 'v) \<Rightarrow> ('k, 'v) btree \<Rightarrow> ('k, 'v) btree" where
  "bt_modify k f m = map (\<lambda>(k', v). (k', if k' = k then f v else v)) m"

text \<open>\<open>collect\<close> from an iterator of pairs: a later pair replaces an earlier one with the same key.\<close>

definition bt_collect :: "('k::linorder \<times> 'v) list \<Rightarrow> ('k, 'v) btree" where
  "bt_collect kvs = fold (\<lambda>(k, v). bt_insert k v) kvs []"

section \<open>The interface of an ordered map\<close>

locale ordered_map =
  fixes empty :: 'm and invar :: "'m \<Rightarrow> bool" and lookup :: "'k::linorder \<Rightarrow> 'm \<Rightarrow> 'v option"
    and insert :: "'k \<Rightarrow> 'v \<Rightarrow> 'm \<Rightarrow> 'm" and entries :: "'m \<Rightarrow> ('k \<times> 'v) list"
  assumes invar_empty: "invar empty"
    and invar_insert: "invar m \<Longrightarrow> invar (insert k v m)"
    and lookup_empty: "lookup k empty = None"
    and lookup_insert: "invar m \<Longrightarrow> lookup k' (insert k v m) = (if k' = k then Some v else lookup k' m)"
    and entries_sorted: "invar m \<Longrightarrow> sorted_wrt (<) (map fst (entries m))"
    and entries_lookup: "invar m \<Longrightarrow> (k, v) \<in> set (entries m) \<longleftrightarrow> lookup k m = Some v"
begin

lemma invar_fold: "invar m \<Longrightarrow> invar (fold (\<lambda>(k, v). insert k v) kvs m)"
  by (induction kvs arbitrary: m) (auto simp: invar_insert)

lemma lookup_fold:
  "invar m \<Longrightarrow> lookup k (fold (\<lambda>(k, v). insert k v) kvs m) =
     (case map_of (rev kvs) k of Some v \<Rightarrow> Some v | None \<Rightarrow> lookup k m)"
  by (induction kvs arbitrary: m) (auto simp: invar_insert lookup_insert map_add_def split: option.splits)

lemma entries_insert:
  "invar m \<Longrightarrow> set (entries (insert k v m)) = {(k, v)} \<union> {e \<in> set (entries m). fst e \<noteq> k}"
  by (auto simp: entries_lookup invar_insert lookup_insert split: if_splits)

end

lemma bt_insert_keys: "set (map fst (bt_insert k v m)) = {k} \<union> set (map fst m)"
  by (induction k v m rule: bt_insert.induct) auto

lemma bt_insert_invar: "bt_invar m \<Longrightarrow> bt_invar (bt_insert k v m)"
proof (induction k v m rule: bt_insert.induct)
  case (2 k v k' v' m)
  then show ?case using bt_insert_keys [of k v m]
    by (auto simp: bt_invar_def)
qed (simp add: bt_invar_def)

lemma bt_get_insert: "bt_invar m \<Longrightarrow> bt_get k' (bt_insert k v m) = (if k' = k then Some v else bt_get k' m)"
  by (induction k v m rule: bt_insert.induct) (auto simp: bt_invar_def bt_get_def)

lemma bt_distinct: "bt_invar m \<Longrightarrow> distinct (map fst m)"
  by (simp add: bt_invar_def strict_sorted_iff)

lemma bt_get_Some: "bt_invar m \<Longrightarrow> bt_get k m = Some v \<longleftrightarrow> (k, v) \<in> set m"
  using bt_distinct [of m] by (simp add: bt_get_def)

lemma bt_get_None: "bt_get k m = None \<longleftrightarrow> k \<notin> fst ` set m"
  by (simp add: bt_get_def map_of_eq_None_iff)

lemma bt_Nil [simp]: "bt_invar []" "bt_get k [] = None"
  by (simp_all add: bt_invar_def bt_get_def)

interpretation bt: ordered_map "[]" bt_invar bt_get bt_insert id
  by unfold_locales (auto simp: bt_insert_invar bt_get_insert bt_get_Some, simp add: bt_invar_def)

lemma bt_collect_invar: "bt_invar (bt_collect kvs)"
  unfolding bt_collect_def by (rule bt.invar_fold) (rule bt.invar_empty)

lemma bt_collect_set: "set (bt_collect kvs) \<subseteq> set kvs"
proof
  fix e assume "e \<in> set (bt_collect kvs)"
  then have "bt_get (fst e) (bt_collect kvs) = Some (snd e)"
    by (simp add: bt_get_Some [OF bt_collect_invar])
  then have "map_of (rev kvs) (fst e) = Some (snd e)"
    unfolding bt_collect_def by (subst (asm) bt.lookup_fold) (auto simp: bt_invar_def bt_get_def split: option.splits)
  then show "e \<in> set kvs" by (metis map_of_SomeD prod.collapse set_rev)
qed

lemma bt_or_insert_invar: "bt_invar m \<Longrightarrow> bt_invar (bt_or_insert k v m)"
  by (simp add: bt_or_insert_def bt_insert_invar split: option.split)

lemma bt_or_insert_set:
  assumes "bt_invar m"
  shows "set (bt_or_insert k v m) = (if k \<in> fst ` set m then set m else Set.insert (k, v) (set m))"
proof (cases "bt_get k m")
  case None
  then have "k \<notin> fst ` set m" by (simp add: bt_get_None)
  then show ?thesis
    using None bt.entries_insert [OF assms, of k v] by (auto simp: bt_or_insert_def)
next
  case (Some w)
  then have "k \<in> fst ` set m" using bt_get_None [of k m] by auto
  with Some show ?thesis by (simp add: bt_or_insert_def)
qed

lemma bt_modify_keys [simp]: "map fst (bt_modify k f m) = map fst m"
  by (simp add: bt_modify_def case_prod_beta comp_def)

lemma bt_modify_invar [simp]: "bt_invar (bt_modify k f m) = bt_invar m"
  by (simp add: bt_invar_def)

lemma bt_insert_head: "bt_invar m \<Longrightarrow> bt_get k m = None \<Longrightarrow> length (bt_insert k v m) = Suc (length m)"
  by (induction k v m rule: bt_insert.induct) (auto simp: bt_invar_def bt_get_def split: if_splits)

text \<open>
  Below the first key whose entry it changes, a map is split by that key.
\<close>

lemma bt_get_split:
  assumes "bt_invar m" "bt_get k m = Some v"
  obtains xs ys where "m = xs @ (k, v) # ys" "\<And>f. bt_modify k f m = xs @ (k, f v) # ys"
proof -
  from assms have "(k, v) \<in> set m" by (simp add: bt_get_Some)
  then obtain xs ys where m: "m = xs @ (k, v) # ys" by (meson split_list)
  with bt_distinct [OF assms(1)] have "k \<notin> fst ` set xs" "k \<notin> fst ` set ys" by auto
  then have "map (\<lambda>(k', v). (k', if k' = k then f v else v)) xs = xs"
    "map (\<lambda>(k', v). (k', if k' = k then f v else v)) ys = ys" for f
    by (force intro!: map_idI)+
  then have "bt_modify k f m = xs @ (k, f v) # ys" for f by (simp add: bt_modify_def m)
  with m that show thesis by blast
qed

end
