(* ===== verification/Disc_Predicate_Query.thy ===== *)
theory Disc_Predicate_Query
  imports Disc_Key Disc_Btree
begin

text \<open>
  \<open>src/query_pool/peers.rs\<close> and \<open>src/query_pool/peers/predicate.rs\<close>: the iterative lookup of the peers
  closest to a target whose records satisfy a predicate. The peers of a query are a map from their
  distance to the target; \<open>to_key\<close> is the conversion of a node id to its key. \<^term>\<open>None\<close> as the
  result of an operation is a failed \<open>debug_assert!\<close> (an underflow of \<open>num_waiting\<close>).
\<close>

section \<open>Data\<close>

datatype 'id query_state = QSWaiting "'id option" | QSWaitingAtCapacity | QSFinished

datatype query_progress = Iterating nat | Stalled | Finished

datatype peer_state = NotContacted | Waiting instant | Unresponsive | Failed | Succeeded

record query_config =
  parallelism :: nat
  num_results :: nat
  peer_timeout :: duration

record 'id predicate_peer =
  pp_key :: "'id key"
  pp_peers_returned :: nat
  pp_predicate_match :: bool
  pp_state :: peer_state

record ('id, 'r) predicate_query =
  pq_target_key :: "'id key"
  pq_progress :: query_progress
  pq_closest_peers :: "(u256, 'id predicate_peer) btree"
  pq_num_waiting :: nat
  pq_predicate :: "'r \<Rightarrow> bool"
  pq_config :: query_config

record 'id predicate_key =
  pk_key :: "'id key"
  pk_predicate_match :: bool

section \<open>Operations\<close>

definition pp_new :: "'id key \<Rightarrow> peer_state \<Rightarrow> bool \<Rightarrow> 'id predicate_peer" where
  "pp_new key state m =
     \<lparr>pp_key = key, pp_peers_returned = 0, pp_predicate_match = m, pp_state = state\<rparr>"

definition pq_with_config ::
  "query_config \<Rightarrow> 'id key \<Rightarrow> 'id predicate_key list \<Rightarrow> ('r \<Rightarrow> bool) \<Rightarrow> ('id, 'r) predicate_query" where
  "pq_with_config config target_key known_closest_peers predicate =
     \<lparr>pq_target_key = target_key, pq_progress = Iterating 0,
      pq_closest_peers = bt_collect (take (num_results config)
        (map (\<lambda>k. (distance (pk_key k) target_key, pp_new (pk_key k) NotContacted (pk_predicate_match k)))
             known_closest_peers)),
      pq_num_waiting = 0, pq_predicate = predicate, pq_config = config\<rparr>"

text \<open>The loop over the reported peers: the peers of the query and the flag \<open>progress\<close>.\<close>

fun pq_incorporate ::
  "('id \<Rightarrow> 'id key) \<Rightarrow> ('r \<Rightarrow> 'id) \<Rightarrow> ('r \<Rightarrow> bool) \<Rightarrow> 'id key \<Rightarrow> nat \<Rightarrow> nat \<Rightarrow> 'r list
     \<Rightarrow> (u256, 'id predicate_peer) btree \<Rightarrow> bool \<Rightarrow> (u256, 'id predicate_peer) btree \<times> bool" where
  "pq_incorporate to_key id_of pred target num_closest num_res [] peers progress = (peers, progress)"
| "pq_incorporate to_key id_of pred target num_closest num_res (r # rs) peers progress =
     (let key = to_key (id_of r);
          d = distance target key;
          peers' = bt_or_insert d (pp_new key NotContacted (pred r)) peers
      in pq_incorporate to_key id_of pred target num_closest num_res rs peers'
           (map_option fst (vec_get 0 peers') = Some d \<or> num_closest < num_res))"

fun update_progress :: "nat \<Rightarrow> bool \<Rightarrow> query_progress \<Rightarrow> query_progress" where
  "update_progress par progress (Iterating no_progress) =
     (let no_progress' = (if progress then 0 else no_progress + 1)
      in if par \<le> no_progress' then Stalled else Iterating no_progress')"
| "update_progress par progress Stalled = (if progress then Iterating 0 else Stalled)"
| "update_progress par progress Finished = Finished"

definition pq_on_success ::
  "('id \<Rightarrow> 'id key) \<Rightarrow> ('r \<Rightarrow> 'id) \<Rightarrow> 'id \<Rightarrow> 'r list \<Rightarrow> ('id, 'r) predicate_query
     \<Rightarrow> ('id, 'r) predicate_query option" where
  "pq_on_success to_key id_of node_id closer_peers q =
     (if pq_progress q = Finished then Some q
      else
        let d = distance (to_key node_id) (pq_target_key q);
            mark = bt_modify d (\<lambda>p. p\<lparr>pp_peers_returned := pp_peers_returned p + length closer_peers,
                                      pp_state := Succeeded\<rparr>) (pq_closest_peers q);
            finish = (\<lambda>nw.
              let num_closest = length mark;
                  (peers, progress) = pq_incorporate to_key id_of (pq_predicate q) (pq_target_key q)
                     num_closest (num_results (pq_config q)) closer_peers mark False
              in q\<lparr>pq_closest_peers := peers, pq_num_waiting := nw,
                   pq_progress := update_progress (parallelism (pq_config q)) progress (pq_progress q)\<rparr>)
        in case bt_get d (pq_closest_peers q) of
             None \<Rightarrow> Some q
           | Some p \<Rightarrow>
               (case pp_state p of
                  Waiting _ \<Rightarrow> map_option finish (checked_sub (pq_num_waiting q) 1)
                | Unresponsive \<Rightarrow> Some (finish (pq_num_waiting q))
                | NotContacted \<Rightarrow> Some q
                | Failed \<Rightarrow> Some q
                | Succeeded \<Rightarrow> Some q))"

definition pq_on_failure ::
  "('id \<Rightarrow> 'id key) \<Rightarrow> 'id \<Rightarrow> ('id, 'r) predicate_query \<Rightarrow> ('id, 'r) predicate_query option" where
  "pq_on_failure to_key peer q =
     (if pq_progress q = Finished then Some q
      else
        let d = distance (to_key peer) (pq_target_key q)
        in case bt_get d (pq_closest_peers q) of
             None \<Rightarrow> Some q
           | Some p \<Rightarrow>
               (case pp_state p of
                  Waiting _ \<Rightarrow> do {
                    nw \<leftarrow> checked_sub (pq_num_waiting q) 1;
                    Some (q\<lparr>pq_num_waiting := nw,
                            pq_closest_peers := bt_modify d (\<lambda>p. p\<lparr>pp_state := Failed\<rparr>) (pq_closest_peers q)\<rparr>)
                  }
                | _ \<Rightarrow> Some q))"

definition pq_at_capacity :: "('id, 'r) predicate_query \<Rightarrow> bool" where
  "pq_at_capacity q =
     (case pq_progress q of
        Stalled \<Rightarrow> num_results (pq_config q) \<le> pq_num_waiting q
      | Iterating _ \<Rightarrow> parallelism (pq_config q) \<le> pq_num_waiting q
      | Finished \<Rightarrow> True)"

text \<open>
  The body of the loop of \<open>next\<close> for one peer: it returns from \<open>next\<close> or goes on to the next peer, with
  the peer's new state, \<open>result_counter\<close> and \<open>num_waiting\<close>.
\<close>

datatype ('p, 'id) visited = Return 'p nat "'id query_state" | Continue 'p "nat option" nat

definition pq_visit ::
  "instant \<Rightarrow> query_config \<Rightarrow> bool \<Rightarrow> nat option \<Rightarrow> nat \<Rightarrow> 'id predicate_peer
     \<Rightarrow> ('id predicate_peer, 'id) visited option" where
  "pq_visit now cfg at_capacity counter nw p =
     (case pp_state p of
        NotContacted \<Rightarrow>
          if \<not> at_capacity then
            Some (Return (p\<lparr>pp_state := Waiting (now + peer_timeout cfg)\<rparr>) (nw + 1)
                    (QSWaiting (Some (preimage (pp_key p)))))
          else Some (Return p nw QSWaitingAtCapacity)
      | Waiting timeout \<Rightarrow>
          if timeout \<le> now then do {
            nw' \<leftarrow> checked_sub nw 1;
            Some (Continue (p\<lparr>pp_state := Unresponsive\<rparr>) counter nw')
          }
          else if at_capacity then Some (Return p nw QSWaitingAtCapacity)
          else Some (Continue p (if pp_predicate_match p then None else counter) nw)
      | Succeeded \<Rightarrow>
          (case counter of
             Some cnt \<Rightarrow>
               if pp_predicate_match p then
                 (if num_results cfg \<le> cnt + 1 then Some (Return p nw QSFinished)
                  else Some (Continue p (Some (cnt + 1)) nw))
               else Some (Continue p counter nw)
           | None \<Rightarrow> Some (Continue p counter nw))
      | Failed \<Rightarrow> Some (Continue p counter nw)
      | Unresponsive \<Rightarrow> Some (Continue p counter nw))"

fun pq_loop ::
  "instant \<Rightarrow> query_config \<Rightarrow> bool \<Rightarrow> nat option \<Rightarrow> nat \<Rightarrow> (u256, 'id predicate_peer) btree
     \<Rightarrow> ((u256, 'id predicate_peer) btree \<times> nat \<times> 'id query_state option) option" where
  "pq_loop now cfg at_capacity counter nw [] = Some ([], nw, None)"
| "pq_loop now cfg at_capacity counter nw ((d, p) # ps) = do {
     v \<leftarrow> pq_visit now cfg at_capacity counter nw p;
     case v of
       Return p' nw' r \<Rightarrow> Some ((d, p') # ps, nw', Some r)
     | Continue p' counter' nw' \<Rightarrow> do {
         (ps', nw'', r) \<leftarrow> pq_loop now cfg at_capacity counter' nw' ps;
         Some ((d, p') # ps', nw'', r)
       }
   }"

definition pq_next ::
  "instant \<Rightarrow> ('id, 'r) predicate_query \<Rightarrow> ('id query_state \<times> ('id, 'r) predicate_query) option" where
  "pq_next now q =
     (if pq_progress q = Finished then Some (QSFinished, q)
      else do {
        (peers, nw, r) \<leftarrow>
          pq_loop now (pq_config q) (pq_at_capacity q) (Some 0) (pq_num_waiting q) (pq_closest_peers q);
        let q' = q\<lparr>pq_closest_peers := peers, pq_num_waiting := nw\<rparr>;
        case r of
          Some QSFinished \<Rightarrow> Some (QSFinished, q'\<lparr>pq_progress := Finished\<rparr>)
        | Some s \<Rightarrow> Some (s, q')
        | None \<Rightarrow>
            if 0 < nw then Some (QSWaiting None, q')
            else Some (QSFinished, q'\<lparr>pq_progress := Finished\<rparr>)
      })"

definition pq_into_result :: "('id, 'r) predicate_query \<Rightarrow> 'id list" where
  "pq_into_result q =
     take (num_results (pq_config q))
       (List.map_filter
         (\<lambda>(d, p). if pp_state p = Succeeded then
                     (if pp_predicate_match p then Some (preimage (pp_key p)) else None)
                   else None)
         (pq_closest_peers q))"

section \<open>The invariant\<close>

fun is_waiting :: "peer_state \<Rightarrow> bool" where
  "is_waiting (Waiting _) = True"
| "is_waiting _ = False"

definition waiting_count :: "(u256, 'id predicate_peer) btree \<Rightarrow> nat" where
  "waiting_count ps = length (filter (\<lambda>e. is_waiting (pp_state (snd e))) ps)"

definition uncontacted :: "(u256, 'id predicate_peer) btree \<Rightarrow> nat" where
  "uncontacted ps = length (filter (\<lambda>e. pp_state (snd e) = NotContacted) ps)"

definition pq_inv :: "('id, 'r) predicate_query \<Rightarrow> bool" where
  "pq_inv q \<longleftrightarrow>
     bt_invar (pq_closest_peers q) \<and>
     (\<forall>e\<in>set (pq_closest_peers q). fst e = distance (pp_key (snd e)) (pq_target_key q)) \<and>
     pq_num_waiting q = waiting_count (pq_closest_peers q) \<and>
     pq_num_waiting q \<le> max (parallelism (pq_config q)) (num_results (pq_config q))"

lemma waiting_count_simps [simp]:
  "waiting_count [] = 0"
  "waiting_count (e # ps) = (if is_waiting (pp_state (snd e)) then 1 else 0) + waiting_count ps"
  "waiting_count (xs @ ys) = waiting_count xs + waiting_count ys"
  by (simp_all add: waiting_count_def)

lemma uncontacted_simps [simp]:
  "uncontacted [] = 0"
  "uncontacted (e # ps) = (if pp_state (snd e) = NotContacted then 1 else 0) + uncontacted ps"
  "uncontacted (xs @ ys) = uncontacted xs + uncontacted ys"
  by (simp_all add: uncontacted_def)

lemma uncontacted_0: "uncontacted ps = 0 \<longleftrightarrow> (\<forall>e\<in>set ps. pp_state (snd e) \<noteq> NotContacted)"
  by (induction ps) auto

lemma waiting_count_0: "waiting_count ps = 0 \<longleftrightarrow> (\<forall>e\<in>set ps. \<not> is_waiting (pp_state (snd e)))"
  by (induction ps) auto

text \<open>What does not change about a peer while a query runs: its distance, key and match.\<close>

definition peer_ident :: "u256 \<times> 'id predicate_peer \<Rightarrow> u256 \<times> 'id key \<times> bool" where
  "peer_ident e = (fst e, pp_key (snd e), pp_predicate_match (snd e))"

text \<open>The moves of one peer in a call of \<open>next\<close>.\<close>

definition peer_move :: "instant \<Rightarrow> duration \<Rightarrow> u256 \<times> 'id predicate_peer \<Rightarrow> u256 \<times> 'id predicate_peer \<Rightarrow> bool" where
  "peer_move now timeout e e' \<longleftrightarrow> peer_ident e' = peer_ident e \<and>
     (pp_state (snd e') = pp_state (snd e) \<or>
      pp_state (snd e) = NotContacted \<and> pp_state (snd e') = Waiting (now + timeout) \<or>
      (\<exists>t\<le>now. pp_state (snd e) = Waiting t) \<and> pp_state (snd e') = Unresponsive)"

lemma peer_move_simps [simp]:
  "peer_move now t e e"
  "pp_state p = NotContacted \<Longrightarrow> peer_move now t (d, p) (d, p\<lparr>pp_state := Waiting (now + t)\<rparr>)"
  "pp_state p = Waiting t' \<Longrightarrow> t' \<le> now \<Longrightarrow> peer_move now t (d, p) (d, p\<lparr>pp_state := Unresponsive\<rparr>)"
  by (auto simp: peer_move_def peer_ident_def)

lemma list_all2_peer_move_refl [simp]: "list_all2 (peer_move now t) ps ps"
  by (rule list.rel_refl) simp

text \<open>What a visit of one peer does.\<close>

lemma pq_visit_cases [consumes 1]:
  assumes "is_waiting (pp_state p) \<longrightarrow> 0 < nw"
  obtains (contact) "pp_state p = NotContacted" "\<not> cap"
      "pq_visit now cfg cap c nw p = Some (Return (p\<lparr>pp_state := Waiting (now + peer_timeout cfg)\<rparr>) (Suc nw)
          (QSWaiting (Some (preimage (pp_key p)))))"
    | (capacity) "cap" "pp_state p = NotContacted \<or> is_waiting (pp_state p)"
      "pq_visit now cfg cap c nw p = Some (Return p nw QSWaitingAtCapacity)"
    | (finish) n where "pp_state p = Succeeded" "pp_predicate_match p" "c = Some n" "num_results cfg \<le> Suc n"
      "pq_visit now cfg cap c nw p = Some (Return p nw QSFinished)"
    | (expire) t where "pp_state p = Waiting t" "t \<le> now" "0 < nw"
      "pq_visit now cfg cap c nw p = Some (Continue (p\<lparr>pp_state := Unresponsive\<rparr>) c (nw - 1))"
    | (pass) c' where "pp_state p \<noteq> NotContacted" "pq_visit now cfg cap c nw p = Some (Continue p c' nw)"
      "is_waiting (pp_state p) \<and> pp_predicate_match p \<Longrightarrow> c' = None"
      "pp_state p = Succeeded \<and> pp_predicate_match p \<Longrightarrow> c' = map_option Suc c"
      "\<not> pp_predicate_match p \<or> \<not> is_waiting (pp_state p) \<and> pp_state p \<noteq> Succeeded \<Longrightarrow> c' = c"
      "\<forall>t. pp_state p = Waiting t \<longrightarrow> now < t"
proof (cases "pp_state p")
  case NotContacted
  then show thesis using contact capacity by (cases cap) (simp_all add: pq_visit_def)
next
  case (Waiting t)
  show thesis
  proof (cases "t \<le> now")
    case True
    with Waiting assms show thesis by (intro expire [of t]) (simp_all add: pq_visit_def checked_sub_def)
  next
    case False
    with Waiting show thesis
    proof (cases cap)
      case True
      with Waiting False show thesis by (intro capacity) (simp_all add: pq_visit_def)
    next
      case ncap: False
      with Waiting False show thesis
        by (intro pass [of "if pp_predicate_match p then None else c"]) (simp_all add: pq_visit_def)
    qed
  qed
next
  case Succeeded
  show thesis
  proof (cases "pp_predicate_match p \<and> (\<exists>n. c = Some n \<and> num_results cfg \<le> Suc n)")
    case True
    then obtain n where "c = Some n" "num_results cfg \<le> Suc n" "pp_predicate_match p" by blast
    with Succeeded show thesis by (intro finish [of n]) (simp_all add: pq_visit_def)
  next
    case False
    with Succeeded show thesis
      by (intro pass [of "if pp_predicate_match p then map_option Suc c else c"])
        (cases c; simp add: pq_visit_def)+
  qed
qed (intro pass [of c]; simp add: pq_visit_def)+

lemma pq_loop_total:
  assumes "waiting_count ps \<le> nw"
  shows "\<exists>ps' nw' r. pq_loop now cfg cap c nw ps = Some (ps', nw', r) \<and>
     nw' + waiting_count ps = nw + waiting_count ps' \<and>
     list_all2 (peer_move now (peer_timeout cfg)) ps ps' \<and>
     nw' \<le> (if cap then nw else Suc nw)"
  using assms
proof (induction ps arbitrary: c nw)
  case (Cons e ps)
  obtain d p where e: "e = (d, p)" by (cases e)
  from Cons.prems e have "is_waiting (pp_state p) \<longrightarrow> 0 < nw" by auto
  then show ?case
  proof (cases rule: pq_visit_cases [of p nw cap now cfg c])
    case (expire t)
    with Cons.prems e have "waiting_count ps \<le> nw - 1" by auto
    from Cons.IH [OF this, of c] expire e show ?thesis by (auto split: if_splits)
  next
    case (pass c')
    with Cons.prems e have "waiting_count ps \<le> nw" by auto
    from Cons.IH [OF this, of c'] pass(2) e show ?thesis by auto
  qed (auto simp: e)
qed auto

definition hit :: "u256 \<times> 'id predicate_peer \<Rightarrow> bool" where
  "hit e \<longleftrightarrow> pp_state (snd e) = Succeeded \<and> pp_predicate_match (snd e)"

text \<open>Peers that the query need not wait for any more.\<close>

definition resolved :: "u256 \<times> 'id predicate_peer \<Rightarrow> bool" where
  "resolved e \<longleftrightarrow> pp_state (snd e) \<noteq> NotContacted \<and> (is_waiting (pp_state (snd e)) \<longrightarrow> \<not> pp_predicate_match (snd e))"

lemma pq_loop_contact:
  assumes "waiting_count ps \<le> nw" "pq_loop now cfg cap c nw ps = Some (ps', nw', Some (QSWaiting x))"
  shows "\<not> cap \<and> (\<exists>xs d p ys. ps = xs @ (d, p) # ys \<and> uncontacted xs = 0 \<and> pp_state p = NotContacted \<and>
     x = Some (preimage (pp_key p)) \<and> (d, p\<lparr>pp_state := Waiting (now + peer_timeout cfg)\<rparr>) \<in> set ps') \<and>
     uncontacted ps = Suc (uncontacted ps')"
  using assms
proof (induction ps arbitrary: c nw ps')
  case (Cons e ps)
  obtain d p where e: "e = (d, p)" by (cases e)
  have step: ?case
    if *: "waiting_count ps \<le> m" "pq_loop now cfg cap c' m ps = Some (ps'', nw', Some (QSWaiting x))"
      "ps' = (d, p') # ps''" "pp_state p \<noteq> NotContacted" "pp_state p' \<noteq> NotContacted" for c' m ps'' p'
  proof -
    from Cons.IH [OF *(1,2)] obtain xs da pa ys where IH: "\<not> cap" "ps = xs @ (da, pa) # ys" "uncontacted xs = 0"
      "pp_state pa = NotContacted" "x = Some (preimage (pp_key pa))"
      "(da, pa\<lparr>pp_state := Waiting (now + peer_timeout cfg)\<rparr>) \<in> set ps''" "uncontacted ps = Suc (uncontacted ps'')"
      by blast
    with *(3-) e have "e # ps = (e # xs) @ (da, pa) # ys \<and> uncontacted (e # xs) = 0 \<and>
      pp_state pa = NotContacted \<and> x = Some (preimage (pp_key pa)) \<and>
      (da, pa\<lparr>pp_state := Waiting (now + peer_timeout cfg)\<rparr>) \<in> set ps'" by simp
    moreover have "uncontacted (e # ps) = Suc (uncontacted ps')" using IH(7) *(3-) e by simp
    ultimately show ?thesis using IH(1) by blast
  qed
  from Cons.prems(1) e have "is_waiting (pp_state p) \<longrightarrow> 0 < nw" by auto
  then show ?case
  proof (cases rule: pq_visit_cases [of p nw cap now cfg c])
    case contact
    with Cons.prems(2) e show ?thesis by (auto intro!: exI [of _ "[]"])
  next
    case (expire t)
    with Cons.prems e obtain ps'' where ps'': "pq_loop now cfg cap c (nw - 1) ps = Some (ps'', nw', Some (QSWaiting x))"
      "ps' = (d, p\<lparr>pp_state := Unresponsive\<rparr>) # ps''" by (auto split: Option.bind_splits)
    show ?thesis by (rule step [OF _ ps'']) (use Cons.prems(1) expire e in auto)
  next
    case (pass c')
    with Cons.prems e obtain ps'' where ps'': "pq_loop now cfg cap c' nw ps = Some (ps'', nw', Some (QSWaiting x))"
      "ps' = (d, p) # ps''" by (auto split: Option.bind_splits)
    show ?thesis by (rule step [OF _ ps'']) (use Cons.prems(1) pass e in auto)
  qed (use Cons.prems(2) e in auto)
qed auto

lemma pq_loop_ends:
  assumes "waiting_count ps \<le> nw" "pq_loop now cfg cap c nw ps = Some (ps', nw', r)"
  shows "case r of
      None \<Rightarrow> uncontacted ps' = 0
    | Some QSFinished \<Rightarrow> \<exists>n xs ys. c = Some n \<and> ps' = xs @ ys \<and> (\<forall>e\<in>set xs. resolved e) \<and>
        num_results cfg \<le> n + length (filter hit xs)
    | Some QSWaitingAtCapacity \<Rightarrow> cap
    | Some (QSWaiting x) \<Rightarrow> \<not> cap"
  using assms
proof (induction ps arbitrary: c nw ps')
  case (Cons e ps)
  obtain d p where e: "e = (d, p)" by (cases e)
  have step: "case r of
      None \<Rightarrow> uncontacted ps' = 0
    | Some QSFinished \<Rightarrow> \<exists>n xs ys. c = Some n \<and> ps' = xs @ ys \<and> (\<forall>e\<in>set xs. resolved e) \<and>
        num_results cfg \<le> n + length (filter hit xs)
    | Some QSWaitingAtCapacity \<Rightarrow> cap
    | Some (QSWaiting x) \<Rightarrow> \<not> cap"
    if "waiting_count ps \<le> m" "pq_loop now cfg cap c' m ps = Some (ps'', nw', r)" "ps' = (d, p') # ps''"
      "pp_state p' \<noteq> NotContacted"
      "\<And>n. c' = Some n \<Longrightarrow> resolved (d, p') \<and> (\<exists>k. c = Some k \<and> n = (if hit (d, p') then Suc k else k))"
    for c' m ps'' p'
  proof -
    note IH = Cons.IH [OF that(1,2)]
    show ?thesis
    proof (cases r)
      case None
      with IH that(3,4) show ?thesis by simp
    next
      case (Some s)
      show ?thesis
      proof (cases s)
        case QSFinished
        with IH Some obtain n xs ys where x: "c' = Some n" "ps'' = xs @ ys" "\<forall>e\<in>set xs. resolved e"
          "num_results cfg \<le> n + length (filter hit xs)" by auto
        with that(5) [OF x(1)] that(3) obtain k where "c = Some k" "ps' = ((d, p') # xs) @ ys"
          "\<forall>e\<in>set ((d, p') # xs). resolved e" "num_results cfg \<le> k + length (filter hit ((d, p') # xs))"
          by (auto split: if_splits)
        then show ?thesis unfolding Some QSFinished option.case query_state.case by blast
      qed (use IH Some in auto)
    qed
  qed
  from Cons.prems(1) e have "is_waiting (pp_state p) \<longrightarrow> 0 < nw" by auto
  then show ?case
  proof (cases rule: pq_visit_cases [of p nw cap now cfg c])
    case (finish n)
    with Cons.prems(2) e have r: "r = Some QSFinished" and "ps' = [(d, p)] @ ps"
      "\<forall>e\<in>set [(d, p)]. resolved e" "num_results cfg \<le> n + length (filter hit [(d, p)])"
      by (auto simp: hit_def resolved_def)
    with finish(3) show ?thesis unfolding r option.case query_state.case by blast
  next
    case (expire t)
    with Cons.prems e obtain ps'' where ps'': "pq_loop now cfg cap c (nw - 1) ps = Some (ps'', nw', r)"
      "ps' = (d, p\<lparr>pp_state := Unresponsive\<rparr>) # ps''" by (auto split: Option.bind_splits)
    with Cons.prems(1) expire e show ?thesis by (intro step [OF _ ps'']) (auto simp: resolved_def hit_def)
  next
    case (pass c')
    with Cons.prems e obtain ps'' where ps'': "pq_loop now cfg cap c' nw ps = Some (ps'', nw', r)"
      "ps' = (d, p) # ps''" by (auto split: Option.bind_splits)
    have "resolved (d, p) \<and> (\<exists>k. c = Some k \<and> n = (if hit (d, p) then Suc k else k))" if c': "c' = Some n" for n
    proof -
      consider "\<not> pp_predicate_match p" | "pp_predicate_match p" "pp_state p = Succeeded"
        | "pp_predicate_match p" "pp_state p \<noteq> Succeeded" "\<not> is_waiting (pp_state p)"
        using pass(3) c' by auto
      then show ?thesis using pass(1,4,5) c' by cases (cases c; auto simp: resolved_def hit_def)+
    qed
    then show ?thesis by (intro step [OF _ ps'' pass(1)]) (use Cons.prems(1) e in auto)
  qed (use Cons.prems(2) e in auto)
qed auto

lemma peer_move_keys: "list_all2 (peer_move now t) ps ps' \<Longrightarrow> map peer_ident ps' = map peer_ident ps"
  by (induction rule: list_all2_induct) (simp_all add: peer_move_def)

lemma peer_ident_inv:
  fixes ps :: "(u256, 'a predicate_peer) btree"
  assumes "map peer_ident ps' = map peer_ident ps"
  shows "bt_invar ps' = bt_invar ps"
    and "(\<forall>e\<in>set ps'. fst e = distance (pp_key (snd e)) t) = (\<forall>e\<in>set ps. fst e = distance (pp_key (snd e)) t)"
proof -
  have "map fst ps' = map fst ps"
    using arg_cong [OF assms, of "map fst"] by (simp add: peer_ident_def comp_def)
  then show "bt_invar ps' = bt_invar ps" by (simp add: bt_invar_def)
  have "map (\<lambda>e. (fst e, pp_key (snd e))) ps' = map (\<lambda>e. (fst e, pp_key (snd e))) ps"
    using arg_cong [OF assms, of "map (\<lambda>(d, k, m). (d, k))"] by (simp add: peer_ident_def comp_def)
  then have "(\<lambda>e. (fst e, pp_key (snd e))) ` set ps' = (\<lambda>e. (fst e, pp_key (snd e))) ` set ps"
    by (metis set_map)
  moreover have "(\<forall>e\<in>set qs. fst e = distance (pp_key (snd e)) t) =
      (\<forall>x\<in>(\<lambda>e. (fst e, pp_key (snd e))) ` set qs. fst x = distance (snd x) t)"
    for qs :: "(u256, 'a predicate_peer) btree"
    by simp
  ultimately show "(\<forall>e\<in>set ps'. fst e = distance (pp_key (snd e)) t) = (\<forall>e\<in>set ps. fst e = distance (pp_key (snd e)) t)"
    by (simp only:)
qed

definition same_query :: "('id, 'r) predicate_query \<Rightarrow> ('id, 'r) predicate_query \<Rightarrow> bool" where
  "same_query q q' \<longleftrightarrow> pq_target_key q' = pq_target_key q \<and> pq_config q' = pq_config q \<and>
     pq_predicate q' = pq_predicate q"

lemma pq_next_inv:
  assumes "pq_inv q"
  shows "\<exists>s q'. pq_next now q = Some (s, q') \<and> pq_inv q' \<and> same_query q q'"
proof (cases "pq_progress q = Finished")
  case False
  let ?cap = "pq_at_capacity q" and ?cfg = "pq_config q"
  have wc: "waiting_count (pq_closest_peers q) \<le> pq_num_waiting q" using assms by (simp add: pq_inv_def)
  from pq_loop_total [OF wc, of now ?cfg ?cap "Some 0"] obtain ps nw r where
    l: "pq_loop now ?cfg ?cap (Some 0) (pq_num_waiting q) (pq_closest_peers q) = Some (ps, nw, r)"
    "nw + waiting_count (pq_closest_peers q) = pq_num_waiting q + waiting_count ps"
    "list_all2 (peer_move now (peer_timeout ?cfg)) (pq_closest_peers q) ps"
    "nw \<le> (if ?cap then pq_num_waiting q else Suc (pq_num_waiting q))" by blast
  have "nw \<le> max (parallelism ?cfg) (num_results ?cfg)"
    using l(4) assms by (auto simp: pq_at_capacity_def pq_inv_def split: query_progress.splits if_splits)
  moreover have "bt_invar ps" "\<forall>e\<in>set ps. fst e = distance (pp_key (snd e)) (pq_target_key q)"
    using peer_ident_inv [OF peer_move_keys [OF l(3)]] assms unfolding pq_inv_def by blast+
  moreover have "nw = waiting_count ps" using l(2) assms by (simp add: pq_inv_def)
  ultimately have inv: "pq_inv (q\<lparr>pq_closest_peers := ps, pq_num_waiting := nw, pq_progress := g\<rparr>)" for g
    by (simp add: pq_inv_def)
  then have "pq_inv (q\<lparr>pq_closest_peers := ps, pq_num_waiting := nw\<rparr>)"
    using inv [of "pq_progress q"] by (simp add: pq_inv_def)
  with inv l(1) False show ?thesis
    by (auto simp: pq_next_def Let_def same_query_def split: option.split query_state.split)
qed (use assms in \<open>simp add: pq_next_def same_query_def\<close>)

lemma waiting_count_modify:
  assumes "bt_invar ps" "bt_get d ps = Some p"
  shows "waiting_count (bt_modify d f ps) + (if is_waiting (pp_state p) then 1 else 0) =
     waiting_count ps + (if is_waiting (pp_state (f p)) then 1 else 0)"
proof -
  obtain xs ys where "ps = xs @ (d, p) # ys" "bt_modify d f ps = xs @ (d, f p) # ys"
    using bt_get_split [OF assms] by metis
  then show ?thesis by simp
qed

lemma bt_modify_distance:
  assumes "\<And>p. pp_key (f p) = pp_key p" "\<forall>e\<in>set ps. fst e = distance (pp_key (snd e)) t"
  shows "\<forall>e\<in>set (bt_modify d f ps). fst e = distance (pp_key (snd e)) t"
  using assms by (auto simp: bt_modify_def)

lemma waiting_count_insert:
  "\<not> is_waiting (pp_state p) \<Longrightarrow> bt_get d ps = None \<Longrightarrow> waiting_count (bt_insert d p ps) = waiting_count ps"
  by (induction d p ps rule: bt_insert.induct) (auto simp: bt_get_def split: if_splits)

lemma waiting_count_or_insert:
  "\<not> is_waiting (pp_state p) \<Longrightarrow> waiting_count (bt_or_insert d p ps) = waiting_count ps"
  by (simp add: bt_or_insert_def waiting_count_insert split: option.split)

lemma pq_incorporate_inv:
  assumes "bt_invar ps" "\<forall>e\<in>set ps. fst e = distance (pp_key (snd e)) target"
  shows "bt_invar (fst (pq_incorporate to_key id_of pred target nc nr rs ps g)) \<and>
     (\<forall>e\<in>set (fst (pq_incorporate to_key id_of pred target nc nr rs ps g)).
        fst e = distance (pp_key (snd e)) target) \<and>
     waiting_count (fst (pq_incorporate to_key id_of pred target nc nr rs ps g)) = waiting_count ps"
  using assms
proof (induction rs arbitrary: ps g)
  case (Cons r rs)
  let ?k = "to_key (id_of r)"
  let ?ps = "bt_or_insert (distance target ?k) (pp_new ?k NotContacted (pred r)) ps"
  have "bt_invar ?ps" by (rule bt_or_insert_invar [OF Cons.prems(1)])
  moreover have "\<forall>e\<in>set ?ps. fst e = distance (pp_key (snd e)) target"
    using Cons.prems by (auto simp: bt_or_insert_set pp_new_def distance_commute [of target])
  moreover have "waiting_count ?ps = waiting_count ps"
    using waiting_count_or_insert [of "pp_new ?k NotContacted (pred r)"] by (simp add: pp_new_def)
  ultimately show ?case using Cons.IH [of ?ps] by (simp add: Let_def)
qed simp

lemma pq_with_config_inv: "pq_inv (pq_with_config cfg t ks P)"
proof -
  have sub: "set (bt_collect (take n xs)) \<subseteq> set xs" for n and xs :: "(u256 \<times> 'a predicate_peer) list"
    using bt_collect_set [of "take n xs"] set_take_subset [of n xs] by blast
  then have "waiting_count (pq_closest_peers (pq_with_config cfg t ks P)) = 0"
    unfolding waiting_count_0 by (force simp: pq_with_config_def pp_new_def)
  moreover have "\<forall>e\<in>set (pq_closest_peers (pq_with_config cfg t ks P)). fst e = distance (pp_key (snd e)) t"
    using sub by (force simp: pq_with_config_def pp_new_def)
  ultimately show ?thesis by (simp add: pq_inv_def bt_collect_invar) (simp add: pq_with_config_def bt_collect_invar)
qed

lemma pq_on_success_inv:
  assumes "pq_inv q"
  shows "\<exists>q'. pq_on_success to_key id_of x rs q = Some q' \<and> pq_inv q' \<and> same_query q q'"
proof -
  define d where "d = distance (to_key x) (pq_target_key q)"
  define f where "f = (\<lambda>p :: 'a predicate_peer. p\<lparr>pp_peers_returned := pp_peers_returned p + length rs, pp_state := Succeeded\<rparr>)"
  let ?ps = "pq_closest_peers q"
  define ps' g where "ps' = bt_modify d f ?ps"
    and "g = pq_incorporate to_key id_of (pq_predicate q) (pq_target_key q) (length ps')
      (num_results (pq_config q)) rs ps' False"
  have inv: "bt_invar ?ps" "\<forall>e\<in>set ?ps. fst e = distance (pp_key (snd e)) (pq_target_key q)"
    "pq_num_waiting q = waiting_count ?ps" "pq_num_waiting q \<le> max (parallelism (pq_config q)) (num_results (pq_config q))"
    using assms by (simp_all add: pq_inv_def)
  have dist: "\<forall>e\<in>set ps'. fst e = distance (pp_key (snd e)) (pq_target_key q)"
    unfolding ps'_def using inv(2) by (intro bt_modify_distance) (simp_all add: f_def)
  have inc: "bt_invar (fst g) \<and> (\<forall>e\<in>set (fst g). fst e = distance (pp_key (snd e)) (pq_target_key q)) \<and>
      waiting_count (fst g) = waiting_count ps'"
    unfolding g_def using inv(1) dist by (intro pq_incorporate_inv) (simp_all add: ps'_def)
  have fin: "pq_inv (q\<lparr>pq_closest_peers := fst g, pq_num_waiting := nw, pq_progress := h\<rparr>)"
    if "nw = waiting_count ps'" "nw \<le> pq_num_waiting q" for nw h
    using inc that inv(4) by (simp add: pq_inv_def)
  then have fin_same: "pq_inv (q\<lparr>pq_closest_peers := fst g, pq_progress := h\<rparr>)"
    if "waiting_count ps' = pq_num_waiting q" for h
    using that fin [of "pq_num_waiting q" h] by simp
  have eq: "pq_on_success to_key id_of x rs q =
     (if pq_progress q = Finished then Some q else
      case bt_get d ?ps of
        None \<Rightarrow> Some q
      | Some p \<Rightarrow>
          let finish = (\<lambda>nw. q\<lparr>pq_closest_peers := fst g, pq_num_waiting := nw,
             pq_progress := update_progress (parallelism (pq_config q)) (snd g) (pq_progress q)\<rparr>)
          in (case pp_state p of
                Waiting _ \<Rightarrow> map_option finish (checked_sub (pq_num_waiting q) 1)
              | Unresponsive \<Rightarrow> Some (finish (pq_num_waiting q))
              | _ \<Rightarrow> Some q))"
    by (simp add: pq_on_success_def Let_def d_def [symmetric] f_def [symmetric] ps'_def [symmetric]
        g_def [symmetric] case_prod_beta split: option.split peer_state.split)
  show ?thesis
  proof (cases "bt_get d ?ps")
    case (Some p)
    have "waiting_count ps' + (if is_waiting (pp_state p) then 1 else 0) = pq_num_waiting q"
      using waiting_count_modify [OF inv(1) Some, of f] inv(3) by (simp add: ps'_def f_def)
    with Some assms show ?thesis unfolding eq
      by (cases "pp_state p") (auto simp: Let_def checked_sub_def same_query_def intro!: fin fin_same)
  qed (use assms in \<open>auto simp: eq same_query_def\<close>)
qed

lemma pq_on_failure_inv:
  assumes "pq_inv q"
  shows "\<exists>q'. pq_on_failure to_key x q = Some q' \<and> pq_inv q' \<and> same_query q q'"
proof (cases "bt_get (distance (to_key x) (pq_target_key q)) (pq_closest_peers q)")
  case (Some p)
  let ?d = "distance (to_key x) (pq_target_key q)" and ?f = "\<lambda>p :: 'a predicate_peer. p\<lparr>pp_state := Failed\<rparr>"
  have "bt_invar (pq_closest_peers q)" using assms by (simp add: pq_inv_def)
  from waiting_count_modify [OF this Some, of ?f] assms
  have wc: "waiting_count (bt_modify ?d ?f (pq_closest_peers q)) + (if is_waiting (pp_state p) then 1 else 0)
      = pq_num_waiting q"
    by (simp add: pq_inv_def)
  have "\<forall>e\<in>set (bt_modify ?d ?f (pq_closest_peers q)). fst e = distance (pp_key (snd e)) (pq_target_key q)"
    using assms by (intro bt_modify_distance) (simp_all add: pq_inv_def)
  with wc Some assms show ?thesis
    by (cases "pp_state p") (auto simp: pq_on_failure_def Let_def checked_sub_def pq_inv_def same_query_def)
qed (use assms in \<open>simp add: pq_on_failure_def same_query_def\<close>)

section \<open>Sequences of operations\<close>

datatype ('id, 'r) query_op = QNext instant | QSuccess 'id "'r list" | QFailure 'id

fun pq_step ::
  "('id \<Rightarrow> 'id key) \<Rightarrow> ('r \<Rightarrow> 'id) \<Rightarrow> ('id, 'r) query_op \<Rightarrow> ('id, 'r) predicate_query
     \<Rightarrow> ('id, 'r) predicate_query option" where
  "pq_step to_key id_of (QNext now) q = map_option snd (pq_next now q)"
| "pq_step to_key id_of (QSuccess x rs) q = pq_on_success to_key id_of x rs q"
| "pq_step to_key id_of (QFailure x) q = pq_on_failure to_key x q"

fun pq_run ::
  "('id \<Rightarrow> 'id key) \<Rightarrow> ('r \<Rightarrow> 'id) \<Rightarrow> ('id, 'r) query_op list \<Rightarrow> ('id, 'r) predicate_query
     \<Rightarrow> ('id, 'r) predicate_query option" where
  "pq_run to_key id_of [] q = Some q"
| "pq_run to_key id_of (op # ops) q = do { q' \<leftarrow> pq_step to_key id_of op q; pq_run to_key id_of ops q' }"

lemma pq_step_inv:
  assumes "pq_inv q"
  shows "\<exists>q'. pq_step to_key id_of op q = Some q' \<and> pq_inv q' \<and> same_query q q'"
proof (cases op)
  case (QNext now)
  then show ?thesis using pq_next_inv [OF assms, of now] by auto
qed (simp_all add: pq_on_success_inv [OF assms] pq_on_failure_inv [OF assms])

lemma pq_run_inv: "pq_inv q \<Longrightarrow> \<exists>q'. pq_run to_key id_of ops q = Some q' \<and> pq_inv q' \<and> same_query q q'"
proof (induction ops arbitrary: q)
  case (Cons op ops)
  from pq_step_inv [OF Cons.prems, of to_key id_of op] obtain q1 where
    q1: "pq_step to_key id_of op q = Some q1" "pq_inv q1" "same_query q q1" by blast
  from Cons.IH [OF q1(2)] q1 show ?case by (auto simp: same_query_def)
qed (simp add: same_query_def)

lemma pq_into_result_eq:
  "pq_into_result q = map (\<lambda>e. preimage (pp_key (snd e))) (take (num_results (pq_config q)) (filter hit (pq_closest_peers q)))"
proof -
  have "List.map_filter (\<lambda>(d, p). if pp_state p = Succeeded then
        (if pp_predicate_match p then Some (preimage (pp_key p)) else None) else None) ps
      = map (\<lambda>e. preimage (pp_key (snd e))) (filter hit ps)" for ps :: "(u256, 'a predicate_peer) btree"
    by (induction ps) (auto simp: List.map_filter_simps hit_def)
  then show ?thesis by (simp add: pq_into_result_def take_map)
qed

text \<open>How far a peer has come: the states before an answer, and the two final ones.\<close>

fun peer_rank :: "peer_state \<Rightarrow> nat" where
  "peer_rank NotContacted = 0"
| "peer_rank (Waiting _) = 1"
| "peer_rank Unresponsive = 2"
| "peer_rank Failed = 3"
| "peer_rank Succeeded = 3"

definition peers_advance :: "(u256, 'id predicate_peer) btree \<Rightarrow> (u256, 'id predicate_peer) btree \<Rightarrow> bool" where
  "peers_advance ps ps' \<longleftrightarrow> (\<forall>e\<in>set ps. \<exists>e'\<in>set ps'. peer_ident e' = peer_ident e \<and>
     (pp_state (snd e') = pp_state (snd e) \<or> peer_rank (pp_state (snd e)) < peer_rank (pp_state (snd e'))))"

lemma peers_advance_refl: "peers_advance ps ps"
  by (auto simp: peers_advance_def)

lemma peers_advance_trans:
  assumes "peers_advance a b" "peers_advance b c"
  shows "peers_advance a c"
  unfolding peers_advance_def
proof
  fix e assume "e \<in> set a"
  with assms(1) obtain e' where e': "e' \<in> set b" "peer_ident e' = peer_ident e"
    "pp_state (snd e') = pp_state (snd e) \<or> peer_rank (pp_state (snd e)) < peer_rank (pp_state (snd e'))"
    unfolding peers_advance_def by blast
  with assms(2) obtain e'' where "e'' \<in> set c" "peer_ident e'' = peer_ident e'"
    "pp_state (snd e'') = pp_state (snd e') \<or> peer_rank (pp_state (snd e')) < peer_rank (pp_state (snd e''))"
    unfolding peers_advance_def by blast
  with e' show "\<exists>e'\<in>set c. peer_ident e' = peer_ident e \<and>
     (pp_state (snd e') = pp_state (snd e) \<or> peer_rank (pp_state (snd e)) < peer_rank (pp_state (snd e')))"
    by (intro bexI [of _ e'']) auto
qed

lemma peers_advance_move: "list_all2 (peer_move now t) ps ps' \<Longrightarrow> peers_advance ps ps'"
proof (induction rule: list_all2_induct)
  case (Cons e ps e' ps')
  then show ?case by (auto simp: peers_advance_def peer_move_def)
qed (simp add: peers_advance_def)

lemma peers_advance_modify:
  assumes "bt_invar ps" "bt_get d ps = Some p" "pp_key (f p) = pp_key p"
    "pp_predicate_match (f p) = pp_predicate_match p" "peer_rank (pp_state p) < peer_rank (pp_state (f p))"
  shows "peers_advance ps (bt_modify d f ps)"
proof -
  obtain xs ys where "ps = xs @ (d, p) # ys" "bt_modify d f ps = xs @ (d, f p) # ys"
    using bt_get_split [OF assms(1,2)] by metis
  then show ?thesis using assms(3-) by (auto simp: peers_advance_def peer_ident_def)
qed

lemma pq_incorporate_advance:
  "bt_invar ps \<Longrightarrow> peers_advance ps (fst (pq_incorporate to_key id_of pred target nc nr rs ps g))"
proof (induction rs arbitrary: ps g)
  case (Cons r rs)
  let ?k = "to_key (id_of r)"
  let ?ps = "bt_or_insert (distance target ?k) (pp_new ?k NotContacted (pred r)) ps"
  have "peers_advance ps ?ps" using Cons.prems by (auto simp: peers_advance_def bt_or_insert_set)
  moreover have "bt_invar ?ps" by (rule bt_or_insert_invar [OF Cons.prems])
  ultimately show ?case using Cons.IH [of ?ps] by (auto simp: Let_def intro: peers_advance_trans)
qed (simp add: peers_advance_refl)

lemma pq_step_advance:
  assumes "pq_inv q" "pq_step to_key id_of op q = Some q'"
  shows "peers_advance (pq_closest_peers q) (pq_closest_peers q')"
proof (cases op)
  case (QNext now)
  have wc: "waiting_count (pq_closest_peers q) \<le> pq_num_waiting q" using assms by (simp add: pq_inv_def)
  show ?thesis
    using pq_loop_total [OF wc, of now "pq_config q" "pq_at_capacity q" "Some 0"] assms(2) QNext
    by (auto simp: pq_next_def Let_def peers_advance_refl dest: peers_advance_move
        split: if_splits option.splits query_state.splits)
next
  case (QSuccess x rs)
  let ?d = "distance (to_key x) (pq_target_key q)"
  let ?f = "\<lambda>p :: 'a predicate_peer. p\<lparr>pp_peers_returned := pp_peers_returned p + length rs, pp_state := Succeeded\<rparr>"
  let ?ps = "bt_modify ?d ?f (pq_closest_peers q)"
  have inv: "bt_invar (pq_closest_peers q)" using assms by (simp add: pq_inv_def)
  then have inc: "peers_advance ?ps (fst (pq_incorporate to_key id_of (pq_predicate q) (pq_target_key q)
      (length ?ps) (num_results (pq_config q)) rs ?ps False))"
    by (intro pq_incorporate_advance) simp
  show ?thesis
  proof (cases "bt_get ?d (pq_closest_peers q)")
    case (Some p)
    have "peers_advance (pq_closest_peers q) ?ps" if "peer_rank (pp_state p) < 3"
      using that by (intro peers_advance_modify [OF inv Some]) simp_all
    from peers_advance_trans [OF this inc] assms(2) QSuccess Some show ?thesis
      by (cases "pp_state p") (auto simp: pq_on_success_def Let_def case_prod_beta peers_advance_refl split: if_splits)
  qed (use assms(2) QSuccess in \<open>auto simp: pq_on_success_def Let_def peers_advance_refl split: if_splits\<close>)
next
  case (QFailure x)
  let ?d = "distance (to_key x) (pq_target_key q)"
  have inv: "bt_invar (pq_closest_peers q)" using assms by (simp add: pq_inv_def)
  show ?thesis
  proof (cases "bt_get ?d (pq_closest_peers q)")
    case (Some p)
    have "peers_advance (pq_closest_peers q) (bt_modify ?d (\<lambda>p. p\<lparr>pp_state := Failed\<rparr>) (pq_closest_peers q))"
      if "peer_rank (pp_state p) < 3"
      using that by (intro peers_advance_modify [OF inv Some]) simp_all
    with assms(2) QFailure Some show ?thesis
      by (cases "pp_state p")
        (auto simp: pq_on_failure_def Let_def peers_advance_refl split: if_splits Option.bind_splits)
  qed (use assms(2) QFailure in \<open>auto simp: pq_on_failure_def Let_def peers_advance_refl split: if_splits\<close>)
qed

lemma pq_run_advance:
  "pq_inv q \<Longrightarrow> pq_run to_key id_of ops q = Some q' \<Longrightarrow> peers_advance (pq_closest_peers q) (pq_closest_peers q')"
proof (induction ops arbitrary: q)
  case (Cons op ops)
  from pq_step_inv [OF Cons.prems(1), of to_key id_of op] obtain q1 where
    q1: "pq_step to_key id_of op q = Some q1" "pq_inv q1" by blast
  with Cons.IH [OF q1(2)] Cons.prems(2) pq_step_advance [OF Cons.prems(1) q1(1)] show ?case
    by (auto intro: peers_advance_trans)
qed (simp add: peers_advance_refl)

lemma pq_next_unfold:
  assumes "pq_inv q" "pq_progress q \<noteq> Finished"
  obtains ps nw r where
    "pq_loop now (pq_config q) (pq_at_capacity q) (Some 0) (pq_num_waiting q) (pq_closest_peers q) = Some (ps, nw, r)"
    "waiting_count (pq_closest_peers q) \<le> pq_num_waiting q"
    "nw = waiting_count ps"
    "pq_next now q = Some (case r of Some s \<Rightarrow> s | None \<Rightarrow> if 0 < nw then QSWaiting None else QSFinished,
       q\<lparr>pq_closest_peers := ps, pq_num_waiting := nw,
         pq_progress := (if r = Some QSFinished \<or> r = None \<and> nw = 0 then Finished else pq_progress q)\<rparr>)"
proof -
  have wc: "waiting_count (pq_closest_peers q) \<le> pq_num_waiting q" using assms by (simp add: pq_inv_def)
  from pq_loop_total [OF wc, of now "pq_config q" "pq_at_capacity q" "Some 0"] obtain ps nw r where
    l: "pq_loop now (pq_config q) (pq_at_capacity q) (Some 0) (pq_num_waiting q) (pq_closest_peers q) = Some (ps, nw, r)"
    "nw + waiting_count (pq_closest_peers q) = pq_num_waiting q + waiting_count ps" by blast
  show thesis
  proof (rule that [OF l(1) wc])
    show "nw = waiting_count ps" using l(2) assms(1) by (simp add: pq_inv_def)
  qed (use l(1) assms(2) in \<open>auto simp: pq_next_def Let_def split: option.split query_state.split\<close>)
qed

section \<open>Properties\<close>

text \<open>
  C17. A predicate query never fails: from its creation, every sequence of \<open>next\<close>, \<open>on_success\<close> and
  \<open>on_failure\<close> runs without a failed assertion, \<open>num_waiting\<close> always equals the number of peers that
  are waited for and never exceeds the larger of \<open>parallelism\<close> and \<open>num_results\<close>, and the peers stay
  ordered by their distance from the target.
\<close>

theorem predicate_query_ops_safe:
  "\<exists>q. pq_run to_key id_of ops (pq_with_config cfg target known predicate) = Some q \<and> pq_inv q"
  using pq_run_inv [OF pq_with_config_inv] by blast

text \<open>
  C26. Whatever happens to a query, no peer is forgotten, and its state only moves forward from
  not contacted over waiting and unresponsive to one of the final states. In particular a peer is
  contacted at most once.
\<close>

theorem predicate_query_peers_advance:
  assumes "pq_inv q"
  shows "\<exists>q'. pq_run to_key id_of ops q = Some q' \<and> peers_advance (pq_closest_peers q) (pq_closest_peers q')"
  using pq_run_inv [OF assms, of to_key id_of ops] pq_run_advance [OF assms] by blast

text \<open>
  C18. \<open>next\<close> of an unfinished query: it contacts a peer only below capacity, and then the closest one not
  contacted before; it waits without a new peer only if all peers have been contacted and some has not
  answered; it finishes only if \<open>num_results\<close> peers with a match have answered and no closer peer with a
  match is outstanding, or if no peer is left to contact or to wait for.
\<close>

theorem predicate_query_next:
  assumes "pq_inv q" "pq_progress q \<noteq> Finished"
  shows "\<exists>s q'. pq_next now q = Some (s, q') \<and> pq_inv q' \<and>
    (case s of
       QSWaiting (Some x) \<Rightarrow> \<not> pq_at_capacity q \<and>
         (\<exists>xs d p ys. pq_closest_peers q = xs @ (d, p) # ys \<and> uncontacted xs = 0 \<and>
            pp_state p = NotContacted \<and> x = preimage (pp_key p) \<and>
            (d, p\<lparr>pp_state := Waiting (now + peer_timeout (pq_config q))\<rparr>) \<in> set (pq_closest_peers q'))
     | QSWaiting None \<Rightarrow> uncontacted (pq_closest_peers q') = 0 \<and> 0 < pq_num_waiting q'
     | QSWaitingAtCapacity \<Rightarrow> pq_at_capacity q
     | QSFinished \<Rightarrow> pq_progress q' = Finished \<and>
         ((\<exists>xs ys. pq_closest_peers q' = xs @ ys \<and> (\<forall>e\<in>set xs. resolved e) \<and>
             num_results (pq_config q) \<le> length (filter hit xs)) \<or>
          uncontacted (pq_closest_peers q') = 0 \<and> pq_num_waiting q' = 0))"
proof -
  obtain ps nw r where l:
    "pq_loop now (pq_config q) (pq_at_capacity q) (Some 0) (pq_num_waiting q) (pq_closest_peers q) = Some (ps, nw, r)"
    "waiting_count (pq_closest_peers q) \<le> pq_num_waiting q" "nw = waiting_count ps"
    "pq_next now q = Some (case r of Some s \<Rightarrow> s | None \<Rightarrow> if 0 < nw then QSWaiting None else QSFinished,
       q\<lparr>pq_closest_peers := ps, pq_num_waiting := nw,
         pq_progress := (if r = Some QSFinished \<or> r = None \<and> nw = 0 then Finished else pq_progress q)\<rparr>)"
    by (rule pq_next_unfold [OF assms])
  note ends = pq_loop_ends [OF l(2,1)]
  have inv: "pq_inv (q\<lparr>pq_closest_peers := ps, pq_num_waiting := nw,
         pq_progress := (if r = Some QSFinished \<or> r = None \<and> nw = 0 then Finished else pq_progress q)\<rparr>)"
    using pq_next_inv [OF assms(1), of now] l(4) by simp
  show ?thesis
  proof (cases r)
    case None
    with ends inv show ?thesis unfolding l(4) by auto
  next
    case (Some s)
    show ?thesis
    proof (cases s)
      case (QSWaiting x)
      note c = pq_loop_contact [OF l(2) l(1) [unfolded Some QSWaiting]]
      then obtain y where "x = Some y" by blast
      with c inv show ?thesis unfolding l(4) Some QSWaiting by auto
    qed (use ends inv Some in \<open>auto simp: l(4)\<close>)
  qed
qed

text \<open>An element that a prefix of a sorted list leaves out is greater than all of the prefix, which is then complete.\<close>

lemma take_rest_greater:
  assumes "sorted_wrt R xs"
  shows "\<forall>x\<in>set xs. x \<in> set (take n xs) \<or> length (take n xs) = n \<and> (\<forall>y\<in>set (take n xs). R y x)"
proof
  fix x
  assume "x \<in> set xs"
  then have "x \<in> set (take n xs) \<or> x \<in> set (drop n xs)" by (metis Un_iff append_take_drop_id set_append)
  moreover have "sorted_wrt R (take n xs @ drop n xs)" using assms by simp
  ultimately show "x \<in> set (take n xs) \<or> length (take n xs) = n \<and> (\<forall>y\<in>set (take n xs). R y x)"
    unfolding sorted_wrt_append by (cases "n \<le> length xs") auto
qed

text \<open>
  C25. The result of a finished query, in order of increasing distance: at most \<open>num_results\<close> peers, all
  answered and matching, and no match is left out unless there are \<open>num_results\<close> closer ones. Either there are
  exactly \<open>num_results\<close>, and every peer closer than the last of them is resolved, or no peer is left to contact
  or to wait for.
\<close>

theorem predicate_query_result:
  assumes "pq_inv q" "pq_progress q \<noteq> Finished" "pq_next now q = Some (QSFinished, q')"
  shows "\<exists>es. pq_into_result q' = map (\<lambda>e. preimage (pp_key (snd e))) es \<and>
     sorted_wrt (<) (map fst es) \<and> (\<forall>e\<in>set es. e \<in> set (pq_closest_peers q') \<and> hit e) \<and>
     length es \<le> num_results (pq_config q) \<and>
     (\<forall>e\<in>set (pq_closest_peers q'). hit e \<longrightarrow>
        e \<in> set es \<or> length es = num_results (pq_config q) \<and> (\<forall>e'\<in>set es. fst e' < fst e)) \<and>
     ((\<exists>xs ys. pq_closest_peers q' = xs @ ys \<and> (\<forall>e\<in>set xs. resolved e) \<and>
          es = take (num_results (pq_config q)) (filter hit xs) \<and> length es = num_results (pq_config q)) \<or>
      uncontacted (pq_closest_peers q') = 0 \<and> pq_num_waiting q' = 0)"
proof -
  let ?n = "num_results (pq_config q)" and ?ps = "pq_closest_peers q'"
  define es where "es = take ?n (filter hit ?ps)"
  obtain ps nw r where l:
    "pq_loop now (pq_config q) (pq_at_capacity q) (Some 0) (pq_num_waiting q) (pq_closest_peers q) = Some (ps, nw, r)"
    "waiting_count (pq_closest_peers q) \<le> pq_num_waiting q" "nw = waiting_count ps"
    "pq_next now q = Some (case r of Some s \<Rightarrow> s | None \<Rightarrow> if 0 < nw then QSWaiting None else QSFinished,
       q\<lparr>pq_closest_peers := ps, pq_num_waiting := nw,
         pq_progress := (if r = Some QSFinished \<or> r = None \<and> nw = 0 then Finished else pq_progress q)\<rparr>)"
    by (rule pq_next_unfold [OF assms(1,2)])
  from l(4) assms(3) have q': "q' = q\<lparr>pq_closest_peers := ps, pq_num_waiting := nw, pq_progress := Finished\<rparr>"
    and r: "r = Some QSFinished \<or> r = None \<and> nw = 0"
    by (auto split: option.splits if_splits)
  have "pq_inv q'" using pq_next_inv [OF assms(1), of now] assms(3) by simp
  then have "sorted_wrt (<) (map fst ?ps)" by (simp add: pq_inv_def bt_invar_def)
  then have sorted: "sorted_wrt (\<lambda>e e'. fst e < fst e') (filter hit ?ps)"
    by (simp add: sorted_wrt_map sorted_wrt_filter)
  then have "sorted_wrt (<) (map fst es)" unfolding es_def
    by (simp add: sorted_wrt_map sorted_wrt_take)
  moreover have "\<forall>e\<in>set ?ps. hit e \<longrightarrow> e \<in> set es \<or> length es = ?n \<and> (\<forall>e'\<in>set es. fst e' < fst e)"
    using take_rest_greater [OF sorted, of ?n] unfolding es_def [symmetric] set_filter by blast
  moreover have "pq_into_result q' = map (\<lambda>e. preimage (pp_key (snd e))) es"
    by (simp add: pq_into_result_eq es_def q')
  moreover have "\<forall>e\<in>set es. e \<in> set ?ps \<and> hit e" by (auto simp: es_def dest: in_set_takeD)
  moreover have "length es \<le> ?n" by (simp add: es_def)
  moreover have "(\<exists>xs ys. ?ps = xs @ ys \<and> (\<forall>e\<in>set xs. resolved e) \<and> es = take ?n (filter hit xs) \<and> length es = ?n) \<or>
      uncontacted ?ps = 0 \<and> pq_num_waiting q' = 0"
    using r
  proof
    assume "r = Some QSFinished"
    with pq_loop_ends [OF l(2,1)] obtain xs ys where x: "ps = xs @ ys" "\<forall>e\<in>set xs. resolved e"
      "?n \<le> length (filter hit xs)" by auto
    then have "es = take ?n (filter hit xs)" "length es = ?n" by (simp_all add: es_def q')
    with x show ?thesis by (auto simp: q')
  next
    assume "r = None \<and> nw = 0"
    with pq_loop_ends [OF l(2,1)] show ?thesis by (simp add: q')
  qed
  ultimately show ?thesis by blast
qed

section \<open>Witnesses\<close>

definition ex_query :: "(node_id, node_id) predicate_query" where
  "ex_query = pq_with_config \<lparr>parallelism = 3, num_results = 16, peer_timeout = 10\<rparr> (key_from_node_id 0)
     [\<lparr>pk_key = key_from_node_id 5, pk_predicate_match = True\<rparr>] (\<lambda>r. r = 6)"

definition ex_query_end :: "(node_id, node_id) predicate_query" where
  "ex_query_end = the (pq_run key_from_node_id id
     [QNext 0, QSuccess 5 [6, 7], QNext 1, QNext 1, QSuccess 6 [], QFailure 7] ex_query)"

lemma ex_query_inv: "pq_inv ex_query"
  unfolding ex_query_def by (rule pq_with_config_inv)

lemma ex_query_end_inv: "pq_inv ex_query_end"
  using pq_run_inv [OF ex_query_inv, of key_from_node_id id
      "[QNext 0, QSuccess 5 [6, 7], QNext 1, QNext 1, QSuccess 6 [], QFailure 7]"]
  by (auto simp: ex_query_end_def)

theorem predicate_query_peers_advance_witness:
  "pq_inv ex_query \<and> (\<exists>q'. pq_run key_from_node_id id [QNext 0] ex_query = Some q' \<and>
     peers_advance (pq_closest_peers ex_query) (pq_closest_peers q'))"
  using predicate_query_peers_advance [OF ex_query_inv, of key_from_node_id id "[QNext 0]"] ex_query_inv by blast

theorem predicate_query_next_witness:
  "pq_inv ex_query \<and> pq_progress ex_query \<noteq> Finished \<and>
   (\<exists>q'. pq_next 0 ex_query = Some (QSWaiting (Some 5), q') \<and> pq_inv q') \<and> \<not> pq_at_capacity ex_query"
proof -
  have "map_option fst (pq_next 0 ex_query) = Some (QSWaiting (Some 5))" "pq_progress ex_query \<noteq> Finished"
    by code_simp+
  with predicate_query_next [OF ex_query_inv, of 0] ex_query_inv show ?thesis by auto
qed

theorem predicate_query_result_witness:
  "pq_inv ex_query_end \<and> (\<exists>q' (es :: (u256, node_id predicate_peer) btree). pq_next 2 ex_query_end = Some (QSFinished, q') \<and>
     pq_into_result q' = map (\<lambda>e. preimage (pp_key (snd e))) es \<and> sorted_wrt (<) (map fst es) \<and>
     (\<forall>e\<in>set (pq_closest_peers q'). hit e \<longrightarrow> e \<in> set es \<or> length es = num_results (pq_config ex_query_end)))"
proof -
  have "map_option fst (pq_next 2 ex_query_end) = Some QSFinished" "pq_progress ex_query_end \<noteq> Finished"
    by code_simp+
  then obtain q' where q': "pq_next 2 ex_query_end = Some (QSFinished, q')" "pq_progress ex_query_end \<noteq> Finished" by auto
  from predicate_query_result [OF ex_query_end_inv q'(2,1)] obtain es :: "(u256, node_id predicate_peer) btree" where
    "pq_into_result q' = map (\<lambda>e. preimage (pp_key (snd e))) es" "sorted_wrt (<) (map fst es)"
    "\<forall>e\<in>set (pq_closest_peers q'). hit e \<longrightarrow> e \<in> set es \<or> length es = num_results (pq_config ex_query_end)" by blast
  with q'(1) ex_query_end_inv show ?thesis by blast
qed

end
