(* ===== verification/Disc_Find_Query.thy ===== *)
theory Disc_Find_Query
  imports Disc_Predicate_Query
begin

text \<open>
  \<open>src/query_pool/peers/closest.rs\<close>: the iterative lookup of the peers closest to a target. The model
  follows the code of this file; that it behaves like a predicate query whose predicate holds for every
  peer is then a theorem (\<open>to_predicate\<close> is the simulation), from which the invariants follow.
\<close>

section \<open>Data and operations\<close>

record 'id query_peer =
  qp_key :: "'id key"
  qp_peers_returned :: nat
  qp_state :: peer_state

record 'id find_node_query =
  fq_target_key :: "'id key"
  fq_progress :: query_progress
  fq_closest_peers :: "(u256, 'id query_peer) btree"
  fq_num_waiting :: nat
  fq_config :: query_config

definition qp_new :: "'id key \<Rightarrow> peer_state \<Rightarrow> 'id query_peer" where
  "qp_new key state = \<lparr>qp_key = key, qp_peers_returned = 0, qp_state = state\<rparr>"

definition fq_with_config :: "query_config \<Rightarrow> 'id key \<Rightarrow> 'id key list \<Rightarrow> 'id find_node_query" where
  "fq_with_config config target_key known_closest_peers =
     \<lparr>fq_target_key = target_key, fq_progress = Iterating 0,
      fq_closest_peers = bt_collect (take (num_results config)
        (map (\<lambda>key. (distance key target_key, qp_new key NotContacted)) known_closest_peers)),
      fq_num_waiting = 0, fq_config = config\<rparr>"

fun fq_incorporate ::
  "('id \<Rightarrow> 'id key) \<Rightarrow> 'id key \<Rightarrow> nat \<Rightarrow> nat \<Rightarrow> 'id list \<Rightarrow> (u256, 'id query_peer) btree \<Rightarrow> bool
     \<Rightarrow> (u256, 'id query_peer) btree \<times> bool" where
  "fq_incorporate to_key target num_closest num_res [] peers progress = (peers, progress)"
| "fq_incorporate to_key target num_closest num_res (x # xs) peers progress =
     (let key = to_key x;
          d = distance target key;
          peers' = bt_or_insert d (qp_new key NotContacted) peers
      in fq_incorporate to_key target num_closest num_res xs peers'
           (map_option fst (vec_get 0 peers') = Some d \<or> num_closest < num_res))"

definition fq_on_success ::
  "('id \<Rightarrow> 'id key) \<Rightarrow> 'id \<Rightarrow> 'id list \<Rightarrow> 'id find_node_query \<Rightarrow> 'id find_node_query option" where
  "fq_on_success to_key node_id closer_peers q =
     (if fq_progress q = Finished then Some q
      else
        let d = distance (to_key node_id) (fq_target_key q);
            mark = bt_modify d (\<lambda>p. p\<lparr>qp_peers_returned := qp_peers_returned p + length closer_peers,
                                      qp_state := Succeeded\<rparr>) (fq_closest_peers q);
            finish = (\<lambda>nw.
              let num_closest = length mark;
                  (peers, progress) = fq_incorporate to_key (fq_target_key q)
                     num_closest (num_results (fq_config q)) closer_peers mark False
              in q\<lparr>fq_closest_peers := peers, fq_num_waiting := nw,
                   fq_progress := update_progress (parallelism (fq_config q)) progress (fq_progress q)\<rparr>)
        in case bt_get d (fq_closest_peers q) of
             None \<Rightarrow> Some q
           | Some p \<Rightarrow>
               (case qp_state p of
                  Waiting _ \<Rightarrow> map_option finish (checked_sub (fq_num_waiting q) 1)
                | Unresponsive \<Rightarrow> Some (finish (fq_num_waiting q))
                | NotContacted \<Rightarrow> Some q
                | Failed \<Rightarrow> Some q
                | Succeeded \<Rightarrow> Some q))"

definition fq_on_failure ::
  "('id \<Rightarrow> 'id key) \<Rightarrow> 'id \<Rightarrow> 'id find_node_query \<Rightarrow> 'id find_node_query option" where
  "fq_on_failure to_key peer q =
     (if fq_progress q = Finished then Some q
      else
        let d = distance (to_key peer) (fq_target_key q);
            peers = bt_modify d (\<lambda>p. p\<lparr>qp_state := Failed\<rparr>) (fq_closest_peers q)
        in case bt_get d (fq_closest_peers q) of
             None \<Rightarrow> Some q
           | Some p \<Rightarrow>
               (case qp_state p of
                  Waiting _ \<Rightarrow> do {
                    nw \<leftarrow> checked_sub (fq_num_waiting q) 1;
                    Some (q\<lparr>fq_num_waiting := nw, fq_closest_peers := peers\<rparr>)
                  }
                | Unresponsive \<Rightarrow> Some (q\<lparr>fq_closest_peers := peers\<rparr>)
                | _ \<Rightarrow> Some q))"

definition fq_at_capacity :: "'id find_node_query \<Rightarrow> bool" where
  "fq_at_capacity q =
     (case fq_progress q of
        Stalled \<Rightarrow> num_results (fq_config q) \<le> fq_num_waiting q
      | Iterating _ \<Rightarrow> parallelism (fq_config q) \<le> fq_num_waiting q
      | Finished \<Rightarrow> True)"

definition fq_visit ::
  "instant \<Rightarrow> query_config \<Rightarrow> bool \<Rightarrow> nat option \<Rightarrow> nat \<Rightarrow> 'id query_peer
     \<Rightarrow> ('id query_peer, 'id) visited option" where
  "fq_visit now cfg at_capacity counter nw p =
     (case qp_state p of
        NotContacted \<Rightarrow>
          if \<not> at_capacity then
            Some (Return (p\<lparr>qp_state := Waiting (now + peer_timeout cfg)\<rparr>) (nw + 1)
                    (QSWaiting (Some (preimage (qp_key p)))))
          else Some (Return p nw QSWaitingAtCapacity)
      | Waiting timeout \<Rightarrow>
          if timeout \<le> now then do {
            nw' \<leftarrow> checked_sub nw 1;
            Some (Continue (p\<lparr>qp_state := Unresponsive\<rparr>) counter nw')
          }
          else if at_capacity then Some (Return p nw QSWaitingAtCapacity)
          else Some (Continue p None nw)
      | Succeeded \<Rightarrow>
          (case counter of
             Some cnt \<Rightarrow>
               if num_results cfg \<le> cnt + 1 then Some (Return p nw QSFinished)
               else Some (Continue p (Some (cnt + 1)) nw)
           | None \<Rightarrow> Some (Continue p counter nw))
      | Failed \<Rightarrow> Some (Continue p counter nw)
      | Unresponsive \<Rightarrow> Some (Continue p counter nw))"

fun fq_loop ::
  "instant \<Rightarrow> query_config \<Rightarrow> bool \<Rightarrow> nat option \<Rightarrow> nat \<Rightarrow> (u256, 'id query_peer) btree
     \<Rightarrow> ((u256, 'id query_peer) btree \<times> nat \<times> 'id query_state option) option" where
  "fq_loop now cfg at_capacity counter nw [] = Some ([], nw, None)"
| "fq_loop now cfg at_capacity counter nw ((d, p) # ps) = do {
     v \<leftarrow> fq_visit now cfg at_capacity counter nw p;
     case v of
       Return p' nw' r \<Rightarrow> Some ((d, p') # ps, nw', Some r)
     | Continue p' counter' nw' \<Rightarrow> do {
         (ps', nw'', r) \<leftarrow> fq_loop now cfg at_capacity counter' nw' ps;
         Some ((d, p') # ps', nw'', r)
       }
   }"

definition fq_next ::
  "instant \<Rightarrow> 'id find_node_query \<Rightarrow> ('id query_state \<times> 'id find_node_query) option" where
  "fq_next now q =
     (if fq_progress q = Finished then Some (QSFinished, q)
      else do {
        (peers, nw, r) \<leftarrow>
          fq_loop now (fq_config q) (fq_at_capacity q) (Some 0) (fq_num_waiting q) (fq_closest_peers q);
        let q' = q\<lparr>fq_closest_peers := peers, fq_num_waiting := nw\<rparr>;
        case r of
          Some QSFinished \<Rightarrow> Some (QSFinished, q'\<lparr>fq_progress := Finished\<rparr>)
        | Some s \<Rightarrow> Some (s, q')
        | None \<Rightarrow>
            if 0 < nw then Some (QSWaiting None, q')
            else Some (QSFinished, q'\<lparr>fq_progress := Finished\<rparr>)
      })"

definition fq_into_result :: "'id find_node_query \<Rightarrow> 'id list" where
  "fq_into_result q =
     take (num_results (fq_config q))
       (List.map_filter
         (\<lambda>(d, p). if qp_state p = Succeeded then Some (preimage (qp_key p)) else None)
         (fq_closest_peers q))"

section \<open>The simulation by a predicate query\<close>

definition to_pp :: "'id query_peer \<Rightarrow> 'id predicate_peer" where
  "to_pp p = \<lparr>pp_key = qp_key p, pp_peers_returned = qp_peers_returned p, pp_predicate_match = True,
              pp_state = qp_state p\<rparr>"

definition to_pps :: "(u256, 'id query_peer) btree \<Rightarrow> (u256, 'id predicate_peer) btree" where
  "to_pps ps = map (\<lambda>(d, p). (d, to_pp p)) ps"

definition to_predicate :: "'id find_node_query \<Rightarrow> ('id, 'id) predicate_query" where
  "to_predicate q =
     \<lparr>pq_target_key = fq_target_key q, pq_progress = fq_progress q,
      pq_closest_peers = to_pps (fq_closest_peers q), pq_num_waiting = fq_num_waiting q,
      pq_predicate = (\<lambda>_. True), pq_config = fq_config q\<rparr>"

fun to_pv :: "('id query_peer, 'id) visited \<Rightarrow> ('id predicate_peer, 'id) visited" where
  "to_pv (Return p nw r) = Return (to_pp p) nw r"
| "to_pv (Continue p c nw) = Continue (to_pp p) c nw"

lemma to_pp_simps [simp]:
  "pp_key (to_pp p) = qp_key p" "pp_state (to_pp p) = qp_state p" "pp_predicate_match (to_pp p)"
  "pp_peers_returned (to_pp p) = qp_peers_returned p"
  "to_pp (p\<lparr>qp_state := s\<rparr>) = (to_pp p)\<lparr>pp_state := s\<rparr>"
  "to_pp (p\<lparr>qp_peers_returned := n, qp_state := s\<rparr>) = (to_pp p)\<lparr>pp_peers_returned := n, pp_state := s\<rparr>"
  "to_pp (qp_new k s) = pp_new k s True"
  by (simp_all add: to_pp_def qp_new_def pp_new_def)

lemma to_pps_simps [simp]:
  "to_pps [] = []" "to_pps ((d, p) # ps) = (d, to_pp p) # to_pps ps" "length (to_pps ps) = length ps"
  "map fst (to_pps ps) = map fst ps"
  by (simp_all add: to_pps_def case_prod_beta comp_def)

lemma bt_get_to_pps: "bt_get d (to_pps ps) = map_option to_pp (bt_get d ps)"
  by (induction ps) (auto simp: bt_get_def to_pps_def)

lemma bt_insert_to_pps: "bt_insert d (to_pp p) (to_pps ps) = to_pps (bt_insert d p ps)"
  by (induction d p ps rule: bt_insert.induct) auto

lemma bt_or_insert_to_pps: "bt_or_insert d (to_pp p) (to_pps ps) = to_pps (bt_or_insert d p ps)"
  by (auto simp: bt_or_insert_def bt_get_to_pps bt_insert_to_pps split: option.split)

lemma bt_modify_to_pps:
  "(\<And>p. to_pp (f p) = g (to_pp p)) \<Longrightarrow> bt_modify d g (to_pps ps) = to_pps (bt_modify d f ps)"
  by (induction ps) (auto simp: bt_modify_def to_pps_def)

lemma bt_collect_to_pps: "bt_collect (to_pps ps) = to_pps (bt_collect ps)"
proof -
  have "fold (\<lambda>(k, v). bt_insert k v) (to_pps ps) (to_pps m) = to_pps (fold (\<lambda>(k, v). bt_insert k v) ps m)" for m
    by (induction ps arbitrary: m) (auto simp: bt_insert_to_pps)
  from this [of "[]"] show ?thesis by (simp add: bt_collect_def)
qed

lemma fst_vec_get_to_pps: "map_option fst (vec_get 0 (to_pps ps)) = map_option fst (vec_get 0 ps)"
  by (cases ps) (auto simp: vec_get_def to_pps_def)

lemma pq_incorporate_to_pps:
  "pq_incorporate to_key (\<lambda>x. x) (\<lambda>_. True) target nc nr xs (to_pps ps) g =
     map_prod to_pps (\<lambda>x. x) (fq_incorporate to_key target nc nr xs ps g)"
proof (induction xs arbitrary: ps g)
  case (Cons x xs)
  have ins: "bt_or_insert d (pp_new k NotContacted True) (to_pps ps) = to_pps (bt_or_insert d (qp_new k NotContacted) ps)"
    for d and k :: "'a key"
    using bt_or_insert_to_pps [of d "qp_new k NotContacted" ps] by simp
  show ?case
    by (simp only: pq_incorporate.simps fq_incorporate.simps Let_def ins Cons.IH fst_vec_get_to_pps)
qed simp

lemma pq_visit_to_pp:
  "pq_visit now cfg cap c nw (to_pp p) = map_option to_pv (fq_visit now cfg cap c nw p)"
  by (cases "qp_state p"; cases c) (auto simp: pq_visit_def fq_visit_def split: Option.bind_split)

lemma pq_loop_to_pps:
  "pq_loop now cfg cap c nw (to_pps ps) = map_option (map_prod to_pps id) (fq_loop now cfg cap c nw ps)"
proof (induction ps arbitrary: c nw)
  case (Cons e ps)
  obtain d p where e: "e = (d, p)" by (cases e)
  show ?case
  proof (cases "fq_visit now cfg cap c nw p")
    case (Some v)
    then show ?thesis
      by (cases v) (auto simp: e pq_visit_to_pp Cons.IH split: Option.bind_split)
  qed (simp add: e pq_visit_to_pp)
qed simp

lemma to_predicate_simps [simp]:
  "pq_progress (to_predicate q) = fq_progress q" "pq_config (to_predicate q) = fq_config q"
  "pq_num_waiting (to_predicate q) = fq_num_waiting q" "pq_target_key (to_predicate q) = fq_target_key q"
  "pq_closest_peers (to_predicate q) = to_pps (fq_closest_peers q)" "pq_predicate (to_predicate q) = (\<lambda>_. True)"
  "pq_at_capacity (to_predicate q) = fq_at_capacity q"
  by (simp_all add: to_predicate_def pq_at_capacity_def fq_at_capacity_def split: query_progress.split)

lemma to_predicate_update:
  "to_predicate (q\<lparr>fq_closest_peers := ps, fq_num_waiting := n\<rparr>) =
     (to_predicate q)\<lparr>pq_closest_peers := to_pps ps, pq_num_waiting := n\<rparr>"
  "to_predicate (q\<lparr>fq_num_waiting := n, fq_closest_peers := ps\<rparr>) =
     (to_predicate q)\<lparr>pq_num_waiting := n, pq_closest_peers := to_pps ps\<rparr>"
  "to_predicate (q\<lparr>fq_closest_peers := ps\<rparr>) = (to_predicate q)\<lparr>pq_closest_peers := to_pps ps\<rparr>"
  "to_predicate (q\<lparr>fq_closest_peers := ps, fq_num_waiting := n, fq_progress := g\<rparr>) =
     (to_predicate q)\<lparr>pq_closest_peers := to_pps ps, pq_num_waiting := n, pq_progress := g\<rparr>"
  by (simp_all add: to_predicate_def)

lemma fq_next_simulation:
  "map_option (map_prod id to_predicate) (fq_next now q) = pq_next now (to_predicate q)"
  by (auto simp: fq_next_def pq_next_def pq_loop_to_pps to_predicate_update Let_def
      split: Option.bind_split option.split query_state.split)

lemma fq_on_success_simulation:
  "map_option to_predicate (fq_on_success to_key x xs q) = pq_on_success to_key (\<lambda>x. x) x xs (to_predicate q)"
proof -
  let ?d = "distance (to_key x) (fq_target_key q)"
  have mark: "bt_modify ?d (\<lambda>p. p\<lparr>pp_peers_returned := pp_peers_returned p + length xs, pp_state := Succeeded\<rparr>)
      (to_pps (fq_closest_peers q)) =
    to_pps (bt_modify ?d (\<lambda>p. p\<lparr>qp_peers_returned := qp_peers_returned p + length xs, qp_state := Succeeded\<rparr>)
      (fq_closest_peers q))"
    by (rule bt_modify_to_pps) simp
  show ?thesis
    unfolding fq_on_success_def pq_on_success_def to_predicate_simps Let_def mark pq_incorporate_to_pps
      bt_get_to_pps to_pps_simps
    by (auto simp: to_predicate_update case_prod_beta option.map_comp comp_def split: option.split peer_state.split)
qed

lemma fq_into_result_simulation: "fq_into_result q = pq_into_result (to_predicate q)"
proof -
  have "List.map_filter (\<lambda>(d, p). if qp_state p = Succeeded then Some (preimage (qp_key p)) else None) ps =
      List.map_filter (\<lambda>(d, p). if pp_state p = Succeeded then
        (if pp_predicate_match p then Some (preimage (pp_key p)) else None) else None) (to_pps ps)" for ps :: "(u256, 'a query_peer) btree"
    by (induction ps) (auto simp: List.map_filter_simps)
  then show ?thesis by (simp add: fq_into_result_def pq_into_result_def)
qed

lemma fq_with_config_simulation:
  "to_predicate (fq_with_config cfg t ks) =
     pq_with_config cfg t (map (\<lambda>k. \<lparr>pk_key = k, pk_predicate_match = True\<rparr>) ks) (\<lambda>_. True)"
proof -
  have "map (\<lambda>k. (distance k t, pp_new k NotContacted True)) ks = to_pps (map (\<lambda>k. (distance k t, qp_new k NotContacted)) ks)"
    by (simp add: to_pps_def)
  then have "bt_collect (take n (map (\<lambda>k. (distance k t, pp_new k NotContacted True)) ks)) =
      to_pps (bt_collect (take n (map (\<lambda>k. (distance k t, qp_new k NotContacted)) ks)))" for n
    by (simp add: bt_collect_to_pps [symmetric]) (simp add: to_pps_def take_map)
  then show ?thesis
    by (simp add: fq_with_config_def pq_with_config_def to_predicate_def comp_def)
qed

text \<open>\<open>on_failure\<close> differs from the predicate query's for an unresponsive peer only.\<close>

lemma fq_on_failure_inv:
  assumes "pq_inv (to_predicate q)"
  shows "\<exists>q'. fq_on_failure to_key x q = Some q' \<and> pq_inv (to_predicate q')"
proof (cases "bt_get (distance (to_key x) (fq_target_key q)) (fq_closest_peers q)")
  case (Some p)
  let ?d = "distance (to_key x) (fq_target_key q)"
  let ?ps = "to_pps (fq_closest_peers q)" and ?f = "\<lambda>p :: 'a predicate_peer. p\<lparr>pp_state := Failed\<rparr>"
  have inv: "bt_invar ?ps" "\<forall>e\<in>set ?ps. fst e = distance (pp_key (snd e)) (fq_target_key q)"
    "fq_num_waiting q = waiting_count ?ps"
    "fq_num_waiting q \<le> max (parallelism (fq_config q)) (num_results (fq_config q))"
    using assms by (simp_all add: pq_inv_def)
  have get: "bt_get ?d ?ps = Some (to_pp p)" using Some by (simp add: bt_get_to_pps)
  have mod: "to_pps (bt_modify ?d (\<lambda>p. p\<lparr>qp_state := Failed\<rparr>) (fq_closest_peers q)) = bt_modify ?d ?f ?ps"
    by (rule bt_modify_to_pps [symmetric]) simp
  have wc: "waiting_count (bt_modify ?d ?f ?ps) + (if is_waiting (qp_state p) then 1 else 0) = fq_num_waiting q"
    using waiting_count_modify [OF inv(1) get, of ?f] inv(3) by simp
  have "\<forall>e\<in>set (bt_modify ?d ?f ?ps). fst e = distance (pp_key (snd e)) (fq_target_key q)"
    using inv(2) by (intro bt_modify_distance) simp_all
  with wc Some assms inv show ?thesis
    by (cases "qp_state p")
      (auto simp: fq_on_failure_def Let_def checked_sub_def pq_inv_def to_predicate_update mod)
qed (use assms in \<open>simp add: fq_on_failure_def\<close>)

fun fq_step :: "('id \<Rightarrow> 'id key) \<Rightarrow> ('id, 'id) query_op \<Rightarrow> 'id find_node_query \<Rightarrow> 'id find_node_query option" where
  "fq_step to_key (QNext now) q = map_option snd (fq_next now q)"
| "fq_step to_key (QSuccess x xs) q = fq_on_success to_key x xs q"
| "fq_step to_key (QFailure x) q = fq_on_failure to_key x q"

fun fq_run :: "('id \<Rightarrow> 'id key) \<Rightarrow> ('id, 'id) query_op list \<Rightarrow> 'id find_node_query \<Rightarrow> 'id find_node_query option" where
  "fq_run to_key [] q = Some q"
| "fq_run to_key (op # ops) q = do { q' \<leftarrow> fq_step to_key op q; fq_run to_key ops q' }"

lemma fq_step_inv:
  assumes "pq_inv (to_predicate q)"
  shows "\<exists>q'. fq_step to_key op q = Some q' \<and> pq_inv (to_predicate q')"
proof (cases op)
  case (QNext now)
  with pq_next_inv [OF assms, of now] show ?thesis
    by (auto simp: fq_next_simulation [symmetric])
next
  case (QSuccess x xs)
  with pq_on_success_inv [OF assms, of to_key "\<lambda>x. x" x xs] show ?thesis
    by (auto simp: fq_on_success_simulation [symmetric])
qed (simp add: fq_on_failure_inv [OF assms])

lemma fq_run_inv: "pq_inv (to_predicate q) \<Longrightarrow> \<exists>q'. fq_run to_key ops q = Some q' \<and> pq_inv (to_predicate q')"
proof (induction ops arbitrary: q)
  case (Cons op ops)
  then show ?case using fq_step_inv [OF Cons.prems, of to_key op] by auto
qed simp

section \<open>Properties\<close>

text \<open>
  C19. A \<open>FindNodeQuery\<close> is a \<open>PredicateQuery\<close> whose predicate always holds: creation, \<open>next\<close>, \<open>on_success\<close>
  and \<open>into_result\<close> of the two correspond step by step.
\<close>

theorem find_node_query_simulation:
  "to_predicate (fq_with_config cfg t ks) =
     pq_with_config cfg t (map (\<lambda>k. \<lparr>pk_key = k, pk_predicate_match = True\<rparr>) ks) (\<lambda>_. True) \<and>
   map_option (map_prod id to_predicate) (fq_next now q) = pq_next now (to_predicate q) \<and>
   map_option to_predicate (fq_on_success to_key x xs q) = pq_on_success to_key (\<lambda>x. x) x xs (to_predicate q) \<and>
   fq_into_result q = pq_into_result (to_predicate q)"
  by (intro conjI fq_with_config_simulation fq_next_simulation fq_on_success_simulation fq_into_result_simulation)

text \<open>
  A \<open>FindNodeQuery\<close> never fails: from its creation, every sequence of \<open>next\<close>, \<open>on_success\<close> and \<open>on_failure\<close>
  runs without a failed assertion, with \<open>num_waiting\<close> exact and bounded and the peers ordered by distance.
\<close>

lemma find_node_query_ops_safe:
  "\<exists>q. fq_run to_key ops (fq_with_config cfg target known) = Some q \<and> pq_inv (to_predicate q)"
  by (rule fq_run_inv) (simp add: fq_with_config_simulation pq_with_config_inv)

end
