(* ===== verification/Disc_Query_Pool.thy ===== *)
theory Disc_Query_Pool
  imports Disc_Find_Query
begin

text \<open>
  \<open>src/query_pool.rs\<close>: the pool of running queries. The pool is a hash map from query ids; the order in
  which \<open>poll\<close> iterates over it is unspecified, so \<open>poll\<close> takes the order as an argument, a list that
  enumerates the ids of the pool. \<open>QueryId\<close> is a 64-bit \<open>usize\<close>.
\<close>

section \<open>Data and operations\<close>

datatype ('id, 'r) query_peer_iter = FindNode "'id find_node_query" | Predicate "('id, 'r) predicate_query"

record ('t, 'id, 'r) query =
  q_id :: u64
  q_peer_iter :: "('id, 'r) query_peer_iter"
  q_started :: "instant option"
  q_target :: 't

record ('t, 'id, 'r) query_pool =
  qpool_next_id :: u64
  qpool_timeout :: duration
  qpool_queries :: "u64 \<rightharpoonup> ('t, 'id, 'r) query"

datatype ('t, 'id, 'r) query_pool_state =
    PoolIdle
  | PoolWaiting "(u64 \<times> 'id) option"
  | PoolFinished "('t, 'id, 'r) query"
  | PoolTimeout "('t, 'id, 'r) query"

definition qpool_new :: "duration \<Rightarrow> ('t, 'id, 'r) query_pool" where
  "qpool_new query_timeout =
     \<lparr>qpool_next_id = 0, qpool_timeout = query_timeout, qpool_queries = Map.empty\<rparr>"

definition query_new :: "u64 \<Rightarrow> ('id, 'r) query_peer_iter \<Rightarrow> 't \<Rightarrow> ('t, 'id, 'r) query" where
  "query_new qid peer_iter target =
     \<lparr>q_id = qid, q_peer_iter = peer_iter, q_started = None, q_target = target\<rparr>"

definition qpool_add ::
  "('id, 'r) query_peer_iter \<Rightarrow> 't \<Rightarrow> ('t, 'id, 'r) query_pool \<Rightarrow> u64 \<times> ('t, 'id, 'r) query_pool" where
  "qpool_add peer_iter target pool =
     (let qid = qpool_next_id pool
      in (qid, pool\<lparr>qpool_next_id := qpool_next_id pool + 1,
                    qpool_queries := (qpool_queries pool)(qid \<mapsto> query_new qid peer_iter target)\<rparr>))"

text \<open>\<open>target_key\<close> is the method \<open>key\<close> of the trait \<open>TargetKey\<close>.\<close>

definition qpool_add_findnode_query ::
  "('t \<Rightarrow> 'id key) \<Rightarrow> query_config \<Rightarrow> 't \<Rightarrow> 'id key list \<Rightarrow> ('t, 'id, 'r) query_pool
     \<Rightarrow> u64 \<times> ('t, 'id, 'r) query_pool" where
  "qpool_add_findnode_query target_key config target peers pool =
     qpool_add (FindNode (fq_with_config config (target_key target) peers)) target pool"

definition qpool_add_predicate_query ::
  "('t \<Rightarrow> 'id key) \<Rightarrow> query_config \<Rightarrow> 't \<Rightarrow> 'id predicate_key list \<Rightarrow> ('r \<Rightarrow> bool)
     \<Rightarrow> ('t, 'id, 'r) query_pool \<Rightarrow> u64 \<times> ('t, 'id, 'r) query_pool" where
  "qpool_add_predicate_query target_key config target peers predicate pool =
     qpool_add (Predicate (pq_with_config config (target_key target) peers predicate)) target pool"

definition qpool_get :: "u64 \<Rightarrow> ('t, 'id, 'r) query_pool \<Rightarrow> ('t, 'id, 'r) query option" where
  "qpool_get qid pool = qpool_queries pool qid"

definition query_on_failure ::
  "('id \<Rightarrow> 'id key) \<Rightarrow> 'id \<Rightarrow> ('t, 'id, 'r) query \<Rightarrow> ('t, 'id, 'r) query option" where
  "query_on_failure to_key peer q =
     (case q_peer_iter q of
        FindNode it \<Rightarrow> map_option (\<lambda>it. q\<lparr>q_peer_iter := FindNode it\<rparr>) (fq_on_failure to_key peer it)
      | Predicate it \<Rightarrow> map_option (\<lambda>it. q\<lparr>q_peer_iter := Predicate it\<rparr>) (pq_on_failure to_key peer it))"

definition query_on_success ::
  "('id \<Rightarrow> 'id key) \<Rightarrow> ('r \<Rightarrow> 'id) \<Rightarrow> 'id \<Rightarrow> 'r list \<Rightarrow> ('t, 'id, 'r) query \<Rightarrow> ('t, 'id, 'r) query option" where
  "query_on_success to_key id_of peer new_peers q =
     (case q_peer_iter q of
        FindNode it \<Rightarrow>
          map_option (\<lambda>it. q\<lparr>q_peer_iter := FindNode it\<rparr>) (fq_on_success to_key peer (map id_of new_peers) it)
      | Predicate it \<Rightarrow>
          map_option (\<lambda>it. q\<lparr>q_peer_iter := Predicate it\<rparr>) (pq_on_success to_key id_of peer new_peers it))"

definition query_next ::
  "instant \<Rightarrow> ('t, 'id, 'r) query \<Rightarrow> ('id query_state \<times> ('t, 'id, 'r) query) option" where
  "query_next now q =
     (case q_peer_iter q of
        FindNode it \<Rightarrow> map_option (map_prod (\<lambda>s. s) (\<lambda>it. q\<lparr>q_peer_iter := FindNode it\<rparr>)) (fq_next now it)
      | Predicate it \<Rightarrow> map_option (map_prod (\<lambda>s. s) (\<lambda>it. q\<lparr>q_peer_iter := Predicate it\<rparr>)) (pq_next now it))"

definition query_into_result :: "('t, 'id, 'r) query \<Rightarrow> 't \<times> 'id list" where
  "query_into_result q =
     (q_target q, case q_peer_iter q of FindNode it \<Rightarrow> fq_into_result it | Predicate it \<Rightarrow> pq_into_result it)"

text \<open>How the loop of \<open>poll\<close> ends: the query it stopped at, or at the end of the map.\<close>

datatype 'id poll_stop = StopFinished u64 | StopWaiting u64 'id | StopTimeout u64

fun poll_loop ::
  "instant \<Rightarrow> duration \<Rightarrow> u64 list \<Rightarrow> (u64 \<rightharpoonup> ('t, 'id, 'r) query)
     \<Rightarrow> ((u64 \<rightharpoonup> ('t, 'id, 'r) query) \<times> 'id poll_stop option) option" where
  "poll_loop now query_timeout [] qs = Some (qs, None)"
| "poll_loop now query_timeout (qid # order) qs = do {
     q \<leftarrow> qs qid;
     let q1 = q\<lparr>q_started := (case q_started q of Some s \<Rightarrow> Some s | None \<Rightarrow> Some now)\<rparr>;
     (s, q2) \<leftarrow> query_next now q1;
     let qs' = qs(qid \<mapsto> q2);
     case s of
       QSFinished \<Rightarrow> Some (qs', Some (StopFinished qid))
     | QSWaiting (Some peer) \<Rightarrow> Some (qs', Some (StopWaiting qid peer))
     | _ \<Rightarrow>
         let elapsed = now - (case q_started q2 of Some s \<Rightarrow> s | None \<Rightarrow> now)
         in if query_timeout \<le> elapsed then Some (qs', Some (StopTimeout qid))
            else poll_loop now query_timeout order qs'
   }"

definition qpool_poll ::
  "instant \<Rightarrow> u64 list \<Rightarrow> ('t, 'id, 'r) query_pool
     \<Rightarrow> (('t, 'id, 'r) query_pool_state \<times> ('t, 'id, 'r) query_pool) option" where
  "qpool_poll now order pool = do {
     (qs, stop) \<leftarrow> poll_loop now (qpool_timeout pool) order (qpool_queries pool);
     let pool' = pool\<lparr>qpool_queries := qs\<rparr>;
     case stop of
       Some (StopWaiting qid peer) \<Rightarrow> do {
         _ \<leftarrow> qs qid;
         Some (PoolWaiting (Some (qid, peer)), pool')
       }
     | Some (StopFinished qid) \<Rightarrow> do {
         q \<leftarrow> qs qid;
         Some (PoolFinished q, pool'\<lparr>qpool_queries := qs(qid := None)\<rparr>)
       }
     | Some (StopTimeout qid) \<Rightarrow> do {
         q \<leftarrow> qs qid;
         Some (PoolTimeout q, pool'\<lparr>qpool_queries := qs(qid := None)\<rparr>)
       }
     | None \<Rightarrow> Some (if order = [] then PoolIdle else PoolWaiting None, pool')
   }"

section \<open>The pool keeps its queries well formed\<close>

definition iter_inv :: "('id, 'r) query_peer_iter \<Rightarrow> bool" where
  "iter_inv it = (case it of FindNode q \<Rightarrow> pq_inv (to_predicate q) | Predicate q \<Rightarrow> pq_inv q)"

definition qpool_inv :: "('t, 'id, 'r) query_pool \<Rightarrow> bool" where
  "qpool_inv pool \<longleftrightarrow> (\<forall>qid q. qpool_queries pool qid = Some q \<longrightarrow> q_id q = qid \<and> iter_inv (q_peer_iter q))"

lemma query_next_inv:
  assumes "iter_inv (q_peer_iter q)"
  shows "\<exists>s q'. query_next now q = Some (s, q') \<and> iter_inv (q_peer_iter q') \<and> q_id q' = q_id q \<and>
     q_started q' = q_started q \<and> q_target q' = q_target q"
proof (cases "q_peer_iter q")
  case (FindNode it)
  with assms pq_next_inv [of "to_predicate it" now] show ?thesis
    by (auto simp: iter_inv_def query_next_def fq_next_simulation [symmetric])
next
  case (Predicate it)
  with assms pq_next_inv [of it now] show ?thesis
    by (auto simp: iter_inv_def query_next_def)
qed

lemma query_on_success_inv:
  assumes "iter_inv (q_peer_iter q)"
  shows "\<exists>q'. query_on_success to_key id_of x rs q = Some q' \<and> iter_inv (q_peer_iter q') \<and> q_id q' = q_id q"
proof (cases "q_peer_iter q")
  case (FindNode it)
  with assms fq_step_inv [of it to_key "QSuccess x (map id_of rs)"] show ?thesis
    by (auto simp: iter_inv_def query_on_success_def)
next
  case (Predicate it)
  with assms pq_on_success_inv [of it to_key id_of x rs] show ?thesis
    by (auto simp: iter_inv_def query_on_success_def)
qed

lemma query_on_failure_inv:
  assumes "iter_inv (q_peer_iter q)"
  shows "\<exists>q'. query_on_failure to_key x q = Some q' \<and> iter_inv (q_peer_iter q') \<and> q_id q' = q_id q"
proof (cases "q_peer_iter q")
  case (FindNode it)
  with assms fq_on_failure_inv [of it to_key x] show ?thesis
    by (auto simp: iter_inv_def query_on_failure_def)
next
  case (Predicate it)
  with assms pq_on_failure_inv [of it to_key x] show ?thesis
    by (auto simp: iter_inv_def query_on_failure_def)
qed

lemma qpool_new_inv: "qpool_inv (qpool_new t)"
  by (simp add: qpool_inv_def qpool_new_def)

lemma qpool_add_inv: "qpool_inv pool \<Longrightarrow> iter_inv it \<Longrightarrow> qpool_inv (snd (qpool_add it t pool))"
  by (auto simp: qpool_inv_def qpool_add_def Let_def query_new_def)

lemma qpool_add_queries_inv:
  assumes "qpool_inv pool"
  shows "qpool_inv (snd (qpool_add_findnode_query target_key cfg t ks pool))"
    and "qpool_inv (snd (qpool_add_predicate_query target_key cfg t ps P pool))"
  unfolding qpool_add_findnode_query_def qpool_add_predicate_query_def
  by (rule qpool_add_inv [OF assms], simp add: iter_inv_def fq_with_config_simulation pq_with_config_inv)+

definition iter_finished :: "('id, 'r) query_peer_iter \<Rightarrow> bool" where
  "iter_finished it = (case it of FindNode q \<Rightarrow> fq_progress q = Finished | Predicate q \<Rightarrow> pq_progress q = Finished)"

lemma query_next_finished: "query_next now q = Some (QSFinished, q') \<Longrightarrow> iter_finished (q_peer_iter q')"
  by (auto simp: query_next_def iter_finished_def fq_next_def pq_next_def Let_def
      split: query_peer_iter.splits if_splits Option.bind_splits option.splits query_state.splits)

text \<open>What the loop reports about the query it stops at.\<close>

fun stop_ok :: "instant \<Rightarrow> duration \<Rightarrow> (u64 \<rightharpoonup> ('t, 'id, 'r) query) \<Rightarrow> 'id poll_stop option \<Rightarrow> bool" where
  "stop_ok now t qs None = True"
| "stop_ok now t qs (Some (StopFinished qid)) =
     (case qs qid of Some q \<Rightarrow> iter_finished (q_peer_iter q) | None \<Rightarrow> False)"
| "stop_ok now t qs (Some (StopWaiting qid peer)) = (qs qid \<noteq> None)"
| "stop_ok now t qs (Some (StopTimeout qid)) =
     (case qs qid of Some q \<Rightarrow> (\<exists>s. q_started q = Some s \<and> t \<le> now - s) | None \<Rightarrow> False)"

definition queries_inv :: "(u64 \<rightharpoonup> ('t, 'id, 'r) query) \<Rightarrow> bool" where
  "queries_inv qs \<longleftrightarrow> (\<forall>qid q. qs qid = Some q \<longrightarrow> q_id q = qid \<and> iter_inv (q_peer_iter q))"

lemma poll_loop_inv:
  "queries_inv qs \<Longrightarrow> set order \<subseteq> dom qs \<Longrightarrow>
   \<exists>qs' stop. poll_loop now t order qs = Some (qs', stop) \<and> queries_inv qs' \<and> dom qs' = dom qs \<and> stop_ok now t qs' stop"
proof (induction order arbitrary: qs)
  case (Cons qid order)
  then obtain q where q: "qs qid = Some q" "q_id q = qid" "iter_inv (q_peer_iter q)"
    by (auto simp: queries_inv_def)
  let ?q1 = "q\<lparr>q_started := (case q_started q of Some s \<Rightarrow> Some s | None \<Rightarrow> Some now)\<rparr>"
  from query_next_inv [of ?q1 now] q(3) obtain s q2 where
    n: "query_next now ?q1 = Some (s, q2)" "iter_inv (q_peer_iter q2)" "q_id q2 = qid"
      "q_started q2 = q_started ?q1" using q(2) by auto
  let ?qs = "qs(qid \<mapsto> q2)"
  obtain st where st: "q_started q2 = Some st" using n(4) by (cases "q_started q") auto
  have inv: "queries_inv ?qs" and dom: "dom ?qs = dom qs" "set order \<subseteq> dom ?qs"
    using Cons.prems q(1) n(2,3) by (auto simp: queries_inv_def)
  note IH = Cons.IH [OF inv dom(2)]
  show ?case
  proof (cases "(\<exists>p. s = QSWaiting (Some p)) \<or> s = QSFinished")
    case True
    with q(1) n(1) inv dom(1) query_next_finished [of now ?q1 q2] show ?thesis by auto
  next
    case False
    then have eq: "poll_loop now t (qid # order) qs =
       (if t \<le> now - st then Some (?qs, Some (StopTimeout qid)) else poll_loop now t order ?qs)"
      using q(1) n(1) st by (auto simp: Let_def split: query_state.splits option.splits)
    show ?thesis
    proof (cases "t \<le> now - st")
      case True
      then show ?thesis unfolding eq using inv dom(1) st by simp
    next
      case False
      with IH show ?thesis unfolding eq dom(1) by presburger
    qed
  qed
qed auto

lemma qpool_poll_spec:
  assumes "qpool_inv pool" "set order = dom (qpool_queries pool)"
  shows "\<exists>s pool'. qpool_poll now order pool = Some (s, pool') \<and> qpool_inv pool' \<and>
    (case s of
       PoolIdle \<Rightarrow> dom (qpool_queries pool) = {} \<and> dom (qpool_queries pool') = {}
     | PoolWaiting None \<Rightarrow> dom (qpool_queries pool') = dom (qpool_queries pool) \<and> dom (qpool_queries pool) \<noteq> {}
     | PoolWaiting (Some (qid, peer)) \<Rightarrow>
         qid \<in> dom (qpool_queries pool) \<and> dom (qpool_queries pool') = dom (qpool_queries pool)
     | PoolFinished q \<Rightarrow> iter_finished (q_peer_iter q) \<and> q_id q \<in> dom (qpool_queries pool) \<and>
         dom (qpool_queries pool') = dom (qpool_queries pool) - {q_id q}
     | PoolTimeout q \<Rightarrow> (\<exists>s. q_started q = Some s \<and> qpool_timeout pool \<le> now - s) \<and>
         q_id q \<in> dom (qpool_queries pool) \<and>
         dom (qpool_queries pool') = dom (qpool_queries pool) - {q_id q})"
proof -
  from assms(1) have "queries_inv (qpool_queries pool)" by (simp add: queries_inv_def qpool_inv_def)
  from poll_loop_inv [OF this, of order now "qpool_timeout pool"] assms(2) obtain qs stop where
    l: "poll_loop now (qpool_timeout pool) order (qpool_queries pool) = Some (qs, stop)" "queries_inv qs"
      "dom qs = dom (qpool_queries pool)" "stop_ok now (qpool_timeout pool) qs stop" by auto
  have inv: "qpool_inv (pool\<lparr>qpool_queries := qs\<rparr>)" "qpool_inv (pool\<lparr>qpool_queries := qs(qid := None)\<rparr>)" for qid
    using l(2) by (auto simp: queries_inv_def qpool_inv_def)
  show ?thesis
  proof (cases stop)
    case None
    with l inv assms(2) [symmetric] show ?thesis by (auto simp: qpool_poll_def)
  next
    case (Some st)
    with l(4) obtain qid q where q: "qs qid = Some q"
      "st = StopFinished qid \<or> st = StopTimeout qid \<or> (\<exists>p. st = StopWaiting qid p)"
      by (cases st) (auto split: option.splits)
    with l(2,3) have "q_id q = qid" "qid \<in> dom (qpool_queries pool)" by (auto simp: queries_inv_def)
    with q l inv Some show ?thesis by (auto simp: qpool_poll_def)
  qed
qed

section \<open>Properties\<close>

text \<open>
  C20. \<open>poll\<close> never panics and keeps the queries of the pool well formed. It reports idle only for an empty
  pool; a query it reports as finished has finished, and one it reports as timed out has run for at
  least the timeout; exactly these two kinds of query leave the pool.
\<close>

theorem pool_poll_correct:
  assumes "qpool_inv pool" "set order = dom (qpool_queries pool)"
  shows "\<exists>s pool'. qpool_poll now order pool = Some (s, pool') \<and> qpool_inv pool' \<and>
    (case s of
       PoolIdle \<Rightarrow> dom (qpool_queries pool) = {} \<and> dom (qpool_queries pool') = {}
     | PoolWaiting None \<Rightarrow> dom (qpool_queries pool') = dom (qpool_queries pool) \<and> dom (qpool_queries pool) \<noteq> {}
     | PoolWaiting (Some (qid, peer)) \<Rightarrow>
         qid \<in> dom (qpool_queries pool) \<and> dom (qpool_queries pool') = dom (qpool_queries pool)
     | PoolFinished q \<Rightarrow> iter_finished (q_peer_iter q) \<and> q_id q \<in> dom (qpool_queries pool) \<and>
         dom (qpool_queries pool') = dom (qpool_queries pool) - {q_id q}
     | PoolTimeout q \<Rightarrow> (\<exists>s. q_started q = Some s \<and> qpool_timeout pool \<le> now - s) \<and>
         q_id q \<in> dom (qpool_queries pool) \<and>
         dom (qpool_queries pool') = dom (qpool_queries pool) - {q_id q})"
  by (rule qpool_poll_spec [OF assms])

section \<open>Witnesses\<close>

definition ex_pool :: "(node_id, node_id, node_id) query_pool" where
  "ex_pool = snd (qpool_add_findnode_query key_from_node_id \<lparr>parallelism = 3, num_results = 16, peer_timeout = 10\<rparr>
     3 [key_from_node_id 5] (qpool_new 60))"

lemma ex_pool_inv: "qpool_inv ex_pool"
  unfolding ex_pool_def by (rule qpool_add_queries_inv(1) [OF qpool_new_inv])

theorem pool_poll_correct_witness:
  "qpool_inv ex_pool \<and> (\<exists>pool'. qpool_poll 7 [0] ex_pool = Some (PoolWaiting (Some (0, 5)), pool') \<and>
     dom (qpool_queries pool') = dom (qpool_queries ex_pool))"
proof -
  have r: "map_option fst (qpool_poll 7 [0] ex_pool) = Some (PoolWaiting (Some (0, 5)))"
    by code_simp
  have "set [0] = dom (qpool_queries ex_pool)"
    by (auto simp: ex_pool_def qpool_add_findnode_query_def qpool_add_def Let_def qpool_new_def)
  from pool_poll_correct [OF ex_pool_inv this, of 7] r ex_pool_inv show ?thesis by auto
qed

end
