(* ===== verification/Disc_Lru_Time_Cache.thy ===== *)
theory Disc_Lru_Time_Cache
  imports Disc_Prelude
begin

text \<open>
  \<open>src/lru_time_cache.rs\<close>: a cache with a capacity and a time to live. It is built on the
  \<open>LinkedHashMap\<close> of the \<open>hashlink\<close> crate, whose operations are the record \<open>lhm\<close>, an argument of every
  cache operation; \<open>lhm_laws\<close> states what the crate documents about them, by the list of entries in the
  order of the linked list. \<open>now\<close> is the instant an operation reads.
\<close>

section \<open>The linked hash map\<close>

record ('m, 'k, 'e) lhm =
  lhm_new :: 'm
  lhm_insert :: "'k \<Rightarrow> 'e \<Rightarrow> 'm \<Rightarrow> 'm"
  lhm_pop_front :: "'m \<Rightarrow> 'm"
  lhm_remove :: "'k \<Rightarrow> 'm \<Rightarrow> 'e option \<times> 'm"
  lhm_get :: "'k \<Rightarrow> 'm \<Rightarrow> 'e option"
  lhm_len :: "'m \<Rightarrow> nat"
  lhm_iter :: "'m \<Rightarrow> ('k \<times> 'e) list"
  lhm_to_back :: "'k \<Rightarrow> ('e \<Rightarrow> 'e) \<Rightarrow> 'm \<Rightarrow> 'm"

definition without :: "'k \<Rightarrow> ('k \<times> 'e) list \<Rightarrow> ('k \<times> 'e) list" where
  "without k es = filter (\<lambda>e. fst e \<noteq> k) es"

text \<open>
  \<open>insert\<close> puts the entry at the back and replaces an earlier one; \<open>to_back\<close> is the write to an occupied
  raw entry followed by \<open>to_back\<close>.
\<close>

definition lhm_laws :: "('m, 'k, 'e) lhm \<Rightarrow> bool" where
  "lhm_laws L \<longleftrightarrow>
     lhm_iter L (lhm_new L) = [] \<and>
     (\<forall>m. distinct (map fst (lhm_iter L m))) \<and>
     (\<forall>k e m. lhm_iter L (lhm_insert L k e m) = without k (lhm_iter L m) @ [(k, e)]) \<and>
     (\<forall>m. lhm_iter L (lhm_pop_front L m) = tl (lhm_iter L m)) \<and>
     (\<forall>k m. fst (lhm_remove L k m) = map_of (lhm_iter L m) k \<and>
        lhm_iter L (snd (lhm_remove L k m)) = without k (lhm_iter L m)) \<and>
     (\<forall>k m. lhm_get L k m = map_of (lhm_iter L m) k) \<and>
     (\<forall>m. lhm_len L m = length (lhm_iter L m)) \<and>
     (\<forall>k f e m. map_of (lhm_iter L m) k = Some e \<longrightarrow>
        lhm_iter L (lhm_to_back L k f m) = without k (lhm_iter L m) @ [(k, f e)])"

section \<open>The cache\<close>

record ('m, 'k, 'v) lru_time_cache =
  lru_map :: 'm
  lru_ttl :: duration
  lru_capacity :: nat

definition USIZE_MAX :: nat where
  "USIZE_MAX = 2 ^ 64 - 1"

definition lru_new ::
  "('m, 'k, 'v \<times> instant) lhm \<Rightarrow> duration \<Rightarrow> nat option \<Rightarrow> ('m, 'k, 'v) lru_time_cache" where
  "lru_new L ttl capacity =
     \<lparr>lru_map = lhm_new L, lru_ttl = ttl,
      lru_capacity = (case capacity of Some cap \<Rightarrow> cap | None \<Rightarrow> USIZE_MAX)\<rparr>"

definition lru_insert ::
  "('m, 'k, 'v \<times> instant) lhm \<Rightarrow> instant \<Rightarrow> 'k \<Rightarrow> 'v \<Rightarrow> ('m, 'k, 'v) lru_time_cache
     \<Rightarrow> ('m, 'k, 'v) lru_time_cache" where
  "lru_insert L now k v c =
     (let m = lhm_insert L k (v, now) (lru_map c)
      in c\<lparr>lru_map := (if lru_capacity c < lhm_len L m then lhm_pop_front L m else m)\<rparr>)"

text \<open>The first loop collects the keys up to the first entry that has not expired.\<close>

fun expired_keys :: "duration \<Rightarrow> instant \<Rightarrow> ('k \<times> 'v \<times> instant) list \<Rightarrow> 'k list" where
  "expired_keys ttl now [] = []"
| "expired_keys ttl now ((k, v, t) # es) = (if now \<le> t + ttl then [] else k # expired_keys ttl now es)"

definition remove_expired_values ::
  "('m, 'k, 'v \<times> instant) lhm \<Rightarrow> instant \<Rightarrow> ('m, 'k, 'v) lru_time_cache \<Rightarrow> ('m, 'k, 'v) lru_time_cache" where
  "remove_expired_values L now c =
     c\<lparr>lru_map := fold (\<lambda>k m. snd (lhm_remove L k m))
                    (expired_keys (lru_ttl c) now (lhm_iter L (lru_map c))) (lru_map c)\<rparr>"

text \<open>\<open>get_mut\<close> returns a reference; \<open>lru_modify\<close> is \<open>get_mut\<close> followed by a write through it.\<close>

definition lru_get_mut ::
  "('m, 'k, 'v \<times> instant) lhm \<Rightarrow> instant \<Rightarrow> 'k \<Rightarrow> ('m, 'k, 'v) lru_time_cache
     \<Rightarrow> 'v option \<times> ('m, 'k, 'v) lru_time_cache" where
  "lru_get_mut L now k c =
     (let c1 = remove_expired_values L now c
      in case lhm_get L k (lru_map c1) of
           Some (v, t) \<Rightarrow> (Some v, c1\<lparr>lru_map := lhm_to_back L k (\<lambda>(v, _). (v, now)) (lru_map c1)\<rparr>)
         | None \<Rightarrow> (None, c1))"

definition lru_modify ::
  "('m, 'k, 'v \<times> instant) lhm \<Rightarrow> instant \<Rightarrow> 'k \<Rightarrow> ('v \<Rightarrow> 'v) \<Rightarrow> ('m, 'k, 'v) lru_time_cache
     \<Rightarrow> ('m, 'k, 'v) lru_time_cache" where
  "lru_modify L now k f c =
     (let c1 = remove_expired_values L now c
      in case lhm_get L k (lru_map c1) of
           Some (v, t) \<Rightarrow> c1\<lparr>lru_map := lhm_to_back L k (\<lambda>(v, _). (f v, now)) (lru_map c1)\<rparr>
         | None \<Rightarrow> c1)"

definition lru_get ::
  "('m, 'k, 'v \<times> instant) lhm \<Rightarrow> instant \<Rightarrow> 'k \<Rightarrow> ('m, 'k, 'v) lru_time_cache
     \<Rightarrow> 'v option \<times> ('m, 'k, 'v) lru_time_cache" where
  "lru_get L now k c = lru_get_mut L now k c"

definition lru_peek ::
  "('m, 'k, 'v \<times> instant) lhm \<Rightarrow> instant \<Rightarrow> 'k \<Rightarrow> ('m, 'k, 'v) lru_time_cache \<Rightarrow> 'v option" where
  "lru_peek L now k c =
     (case lhm_get L k (lru_map c) of
        Some (v, t) \<Rightarrow> if now \<le> t + lru_ttl c then Some v else None
      | None \<Rightarrow> None)"

definition lru_len ::
  "('m, 'k, 'v \<times> instant) lhm \<Rightarrow> instant \<Rightarrow> ('m, 'k, 'v) lru_time_cache \<Rightarrow> nat \<times> ('m, 'k, 'v) lru_time_cache" where
  "lru_len L now c = (let c1 = remove_expired_values L now c in (lhm_len L (lru_map c1), c1))"

definition lru_remove ::
  "('m, 'k, 'v \<times> instant) lhm \<Rightarrow> 'k \<Rightarrow> ('m, 'k, 'v) lru_time_cache
     \<Rightarrow> 'v option \<times> ('m, 'k, 'v) lru_time_cache" where
  "lru_remove L k c =
     (case lhm_remove L k (lru_map c) of (r, m) \<Rightarrow> (map_option fst r, c\<lparr>lru_map := m\<rparr>))"

section \<open>The entries in the order of their time\<close>

definition lru_entries :: "('m, 'k, 'v \<times> instant) lhm \<Rightarrow> ('m, 'k, 'v) lru_time_cache \<Rightarrow> ('k \<times> 'v \<times> instant) list" where
  "lru_entries L c = lhm_iter L (lru_map c)"

text \<open>
  The invariant at an instant: the entries are ordered by their time, none of which is in the future, no
  key occurs twice, and the capacity is respected.
\<close>

definition lru_inv :: "('m, 'k, 'v \<times> instant) lhm \<Rightarrow> instant \<Rightarrow> ('m, 'k, 'v) lru_time_cache \<Rightarrow> bool" where
  "lru_inv L now c \<longleftrightarrow>
     sorted (map (\<lambda>e. snd (snd e)) (lru_entries L c)) \<and>
     (\<forall>e\<in>set (lru_entries L c). snd (snd e) \<le> now) \<and>
     distinct (map fst (lru_entries L c)) \<and>
     length (lru_entries L c) \<le> lru_capacity c"

definition fresh :: "duration \<Rightarrow> instant \<Rightarrow> 'k \<times> 'v \<times> instant \<Rightarrow> bool" where
  "fresh ttl now e \<longleftrightarrow> now \<le> snd (snd e) + ttl"

lemma lhm_lawsD:
  assumes "lhm_laws L"
  shows "lhm_iter L (lhm_new L) = []" "distinct (map fst (lhm_iter L m))"
    "lhm_iter L (lhm_insert L k e m) = without k (lhm_iter L m) @ [(k, e)]"
    "lhm_iter L (lhm_pop_front L m) = tl (lhm_iter L m)"
    "fst (lhm_remove L k m) = map_of (lhm_iter L m) k"
    "lhm_iter L (snd (lhm_remove L k m)) = without k (lhm_iter L m)"
    "lhm_get L k m = map_of (lhm_iter L m) k" "lhm_len L m = length (lhm_iter L m)"
    "map_of (lhm_iter L m) k = Some e \<Longrightarrow> lhm_iter L (lhm_to_back L k f m) = without k (lhm_iter L m) @ [(k, f e)]"
  using assms by (simp_all add: lhm_laws_def)

lemma sorted_fresh_split:
  assumes "sorted (map (\<lambda>e. snd (snd e)) es)"
  shows "expired_keys ttl now es = map fst (filter (\<lambda>e. \<not> fresh ttl now e) es)"
  using assms
proof (induction es)
  case (Cons e es)
  obtain k v t where e: "e = (k, v, t)" by (cases e) auto
  show ?case
  proof (cases "now \<le> t + ttl")
    case True
    with Cons.prems have "\<forall>e\<in>set es. fresh ttl now e" by (force simp: e fresh_def)
    with True show ?thesis by (simp add: e fresh_def filter_empty_conv)
  next
    case False
    with Cons show ?thesis by (simp add: e fresh_def)
  qed
qed simp

lemma fold_remove:
  assumes "lhm_laws L"
  shows "lhm_iter L (fold (\<lambda>k m. snd (lhm_remove L k m)) ks m) = filter (\<lambda>e. fst e \<notin> set ks) (lhm_iter L m)"
  by (induction ks arbitrary: m) (auto simp: lhm_lawsD(6) [OF assms] without_def intro!: filter_cong)

lemma remove_expired_entries:
  assumes "lhm_laws L" "lru_inv L now' c"
  shows "lru_entries L (remove_expired_values L now c) = filter (fresh (lru_ttl c) now) (lru_entries L c)"
proof -
  let ?es = "lru_entries L c"
  have s: "sorted (map (\<lambda>e. snd (snd e)) ?es)" and d: "distinct (map fst ?es)"
    using assms(2) by (auto simp: lru_inv_def)
  have "fst e \<notin> set (expired_keys (lru_ttl c) now ?es) \<longleftrightarrow> fresh (lru_ttl c) now e" if "e \<in> set ?es" for e
    using that d unfolding sorted_fresh_split [OF s] by (auto simp: distinct_map dest: inj_onD)
  then show ?thesis
    unfolding lru_entries_def remove_expired_values_def
    by (simp add: fold_remove [OF assms(1)] cong: filter_cong)
qed

lemma remove_expired_simps [simp]:
  "lru_ttl (remove_expired_values L now c) = lru_ttl c"
  "lru_capacity (remove_expired_values L now c) = lru_capacity c"
  by (simp_all add: remove_expired_values_def)

lemma lru_inv_filter:
  assumes "lru_inv L now c" "now \<le> now'" "lru_entries L c' = filter P (lru_entries L c)"
    "lru_capacity c' = lru_capacity c"
  shows "lru_inv L now' c'"
  using assms
  by (auto simp: lru_inv_def sorted_filter distinct_map_filter intro: order_trans [OF length_filter_le])

text \<open>Moving or adding an entry with the current time at the back.\<close>

lemma lru_inv_back:
  assumes "lru_inv L now c" "now \<le> now'" "lru_entries L c' = without k (lru_entries L c) @ [(k, v, now')]"
    "length (lru_entries L c') \<le> lru_capacity c'"
  shows "lru_inv L now' c'"
  using assms
  by (auto simp: lru_inv_def without_def sorted_append sorted_filter distinct_map_filter)

lemma lru_insert_entries:
  assumes "lhm_laws L"
  shows "lru_entries L (lru_insert L now k v c) =
    (let es = without k (lru_entries L c) @ [(k, v, now)]
     in if lru_capacity c < length es then tl es else es)"
  by (simp add: lru_insert_def lru_entries_def Let_def lhm_lawsD [OF assms])

lemma length_without_le: "length (without k es) \<le> length es"
  by (simp add: without_def)

lemma lru_insert_inv:
  assumes "lhm_laws L" "lru_inv L now c" "now \<le> now'"
  shows "lru_inv L now' (lru_insert L now' k v c)"
proof -
  let ?es = "without k (lru_entries L c) @ [(k, v, now')]"
  have cap: "lru_capacity (lru_insert L now' k v c) = lru_capacity c" by (simp add: lru_insert_def Let_def)
  have len: "length ?es \<le> Suc (lru_capacity c)"
    using assms(2) length_without_le [of k "lru_entries L c"] by (simp add: lru_inv_def)
  have s: "sorted (map (\<lambda>e. snd (snd e)) ?es)" "\<forall>e\<in>set ?es. snd (snd e) \<le> now'" "distinct (map fst ?es)"
    using assms(2,3) by (auto simp: lru_inv_def without_def sorted_append sorted_filter distinct_map_filter)
  have "set (tl ?es) \<subseteq> set ?es" by (metis list.sel(2) list.set_sel(2) subsetI)
  with s have t: "sorted (map (\<lambda>e. snd (snd e)) (tl ?es))" "distinct (map fst (tl ?es))" "\<forall>e\<in>set (tl ?es). snd (snd e) \<le> now'"
    by (simp_all only: map_tl sorted_tl distinct_tl, blast)
  show ?thesis
  proof (cases "lru_capacity c < length ?es")
    case True
    then show ?thesis using t len by (simp add: lru_inv_def lru_insert_entries [OF assms(1)] cap Let_def)
  next
    case False
    then show ?thesis using s by (simp add: lru_inv_def lru_insert_entries [OF assms(1)] cap Let_def)
  qed
qed

lemma lru_get_mut_eq:
  fixes now :: instant
  assumes "lhm_laws L" "lru_inv L now0 c"
  defines "es \<equiv> filter (fresh (lru_ttl c) now) (lru_entries L c)"
  shows "fst (lru_get_mut L now k c) = map_option fst (map_of es k)"
    and "lru_entries L (snd (lru_get_mut L now k c)) =
      (case map_of es k of Some (v, t) \<Rightarrow> without k es @ [(k, v, now)] | None \<Rightarrow> es)"
  using remove_expired_entries [OF assms(1,2), of now] lhm_lawsD(9) [OF assms(1)]
  by (auto simp: lru_get_mut_def Let_def lhm_lawsD(7) [OF assms(1)] es_def lru_entries_def split: option.split)

lemma lru_modify_entries:
  fixes now :: instant
  assumes "lhm_laws L" "lru_inv L now0 c"
  defines "es \<equiv> filter (fresh (lru_ttl c) now) (lru_entries L c)"
  shows "lru_entries L (lru_modify L now k f c) =
      (case map_of es k of Some (v, t) \<Rightarrow> without k es @ [(k, f v, now)] | None \<Rightarrow> es)"
  using remove_expired_entries [OF assms(1,2), of now] lhm_lawsD(9) [OF assms(1)]
  by (auto simp: lru_modify_def Let_def lhm_lawsD(7) [OF assms(1)] es_def lru_entries_def split: option.split)

lemma length_without_mem: "map_of es k = Some e \<Longrightarrow> Suc (length (without k es)) \<le> length es"
proof (induction es)
  case (Cons x es)
  then show ?case using length_without_le [of k es]
    by (cases "fst x = k") (auto simp: without_def split: if_splits)
qed simp

lemma lru_touch_inv:
  assumes "lhm_laws L" "lru_inv L now0 c" "now0 \<le> now" "lru_capacity c' = lru_capacity c"
    "lru_entries L c' = (let es = filter (fresh (lru_ttl c) now) (lru_entries L c)
       in case map_of es k of Some (v, t) \<Rightarrow> without k es @ [(k, f v, now)] | None \<Rightarrow> es)"
  shows "lru_inv L now c'"
proof -
  let ?c1 = "remove_expired_values L now c"
  let ?es = "filter (fresh (lru_ttl c) now) (lru_entries L c)"
  have e1: "lru_entries L ?c1 = ?es" by (rule remove_expired_entries [OF assms(1,2)])
  have inv1: "lru_inv L now ?c1" by (rule lru_inv_filter [OF assms(2,3) e1]) simp
  show ?thesis
  proof (cases "map_of ?es k")
    case None
    with assms(4,5) show ?thesis by (intro lru_inv_filter [OF assms(2,3)]) simp_all
  next
    case (Some e)
    then have "lru_entries L c' = without k (lru_entries L ?c1) @ [(k, f (fst e), now)]"
      using assms(5) e1 by (cases e) simp
    moreover have "length (lru_entries L c') \<le> lru_capacity c'"
      using calculation length_without_mem [OF Some] inv1 assms(4) by (simp add: e1 lru_inv_def)
    ultimately show ?thesis by (intro lru_inv_back [OF inv1]) simp_all
  qed
qed

lemma lru_get_mut_inv:
  assumes "lhm_laws L" "lru_inv L now0 c" "now0 \<le> now"
  shows "lru_inv L now (snd (lru_get_mut L now k c))"
proof (rule lru_touch_inv [OF assms, of _ k "\<lambda>v. v"])
  show "lru_capacity (snd (lru_get_mut L now k c)) = lru_capacity c"
    by (simp add: lru_get_mut_def Let_def split: option.split)
qed (simp add: lru_get_mut_eq(2) [OF assms(1,2)] Let_def)

lemma lru_modify_inv:
  assumes "lhm_laws L" "lru_inv L now0 c" "now0 \<le> now"
  shows "lru_inv L now (lru_modify L now k f c)"
proof (rule lru_touch_inv [OF assms, of _ k f])
  show "lru_capacity (lru_modify L now k f c) = lru_capacity c"
    by (simp add: lru_modify_def Let_def split: option.split)
qed (simp add: lru_modify_entries [OF assms(1,2)] Let_def)

lemma lru_remove_inv:
  assumes "lhm_laws L" "lru_inv L now0 c" "now0 \<le> now"
  shows "lru_inv L now (snd (lru_remove L k c))"
  by (rule lru_inv_filter [OF assms(2,3), of _ "\<lambda>e. fst e \<noteq> k"])
    (auto simp: lru_remove_def lru_entries_def case_prod_beta lhm_lawsD(6) [OF assms(1)] without_def)

lemma lru_len_inv:
  assumes "lhm_laws L" "lru_inv L now0 c" "now0 \<le> now"
  shows "lru_inv L now (snd (lru_len L now c))"
proof -
  have "lru_inv L now (remove_expired_values L now c)"
    by (rule lru_inv_filter [OF assms(2,3) remove_expired_entries [OF assms(1,2)]]) simp
  then show ?thesis by (simp add: lru_len_def Let_def)
qed

lemma lru_new_inv: "lhm_laws L \<Longrightarrow> lru_inv L now (lru_new L ttl capacity)"
  by (simp add: lru_inv_def lru_entries_def lru_new_def lhm_lawsD)

section \<open>Runs\<close>

datatype ('k, 'v) lru_op =
    LruInsert 'k 'v
  | LruGet 'k
  | LruModify 'k "'v \<Rightarrow> 'v"
  | LruRemove 'k
  | LruLen

fun lru_step ::
  "('m, 'k, 'v \<times> instant) lhm \<Rightarrow> instant \<times> ('k, 'v) lru_op \<Rightarrow> ('m, 'k, 'v) lru_time_cache
     \<Rightarrow> ('m, 'k, 'v) lru_time_cache" where
  "lru_step L (now, LruInsert k v) c = lru_insert L now k v c"
| "lru_step L (now, LruGet k) c = snd (lru_get L now k c)"
| "lru_step L (now, LruModify k f) c = lru_modify L now k f c"
| "lru_step L (now, LruRemove k) c = snd (lru_remove L k c)"
| "lru_step L (now, LruLen) c = snd (lru_len L now c)"

lemma lru_step_inv:
  assumes "lhm_laws L" "lru_inv L now0 c" "now0 \<le> fst x"
  shows "lru_inv L (fst x) (lru_step L x c)"
  using assms
  by (cases "(L, x, c)" rule: lru_step.cases)
    (auto simp: lru_get_def intro: lru_insert_inv lru_get_mut_inv lru_modify_inv lru_remove_inv lru_len_inv)

lemma lru_run_inv_from:
  assumes "lhm_laws L" "lru_inv L now0 c" "sorted (now0 # map fst xs)"
  shows "lru_inv L (last (now0 # map fst xs)) (fold (lru_step L) xs c)"
  using assms(2,3)
proof (induction xs arbitrary: c now0)
  case (Cons x xs)
  from lru_step_inv [OF assms(1) Cons.prems(1), of x] Cons.prems(2)
  have "lru_inv L (fst x) (lru_step L x c)" by simp
  from Cons.IH [OF this] Cons.prems(2) show ?case by simp
qed simp

text \<open>
  C36. A new cache, used by any sequence of operations whose instants do not decrease, keeps its entries
  ordered from the least to the most recently used, stores no key twice and never holds more entries than
  its capacity.
\<close>

theorem lru_ops_inv:
  assumes "lhm_laws L" "sorted (map fst xs)"
  shows "lru_inv L (last (0 # map fst xs)) (fold (lru_step L) xs (lru_new L ttl capacity))"
  using assms by (intro lru_run_inv_from lru_new_inv) (auto)

lemma map_of_filter_fresh:
  assumes "distinct (map fst es)"
  shows "map_of (filter (fresh ttl now) es) k =
    (case map_of es k of Some (v, t) \<Rightarrow> if now \<le> t + ttl then Some (v, t) else None | None \<Rightarrow> None)"
  using assms
proof (induction es)
  case (Cons e es)
  obtain k' v t where e: "e = (k', v, t)" by (cases e) auto
  have f: "fresh ttl now e \<longleftrightarrow> now \<le> t + ttl" by (simp add: e fresh_def)
  have "map_of (filter (fresh ttl now) es) k' = None" using Cons.prems by (auto simp: e map_of_eq_None_iff)
  with Cons f show ?case by (cases "k = k'") (auto simp: e)
qed simp

text \<open>
  \<open>get\<close>, \<open>peek\<close> and \<open>len\<close> answer by the entries that have not expired: \<open>get\<close> and \<open>peek\<close> return the
  value stored for the key when its time plus the time to live has not passed and nothing otherwise, and
  \<open>len\<close> counts such entries.
\<close>

lemma lru_lookup_fresh:
  assumes "lhm_laws L" "lru_inv L now0 c" "now0 \<le> now"
  shows "fst (lru_get L now k c) = lru_peek L now k c \<and>
     lru_peek L now k c = (case map_of (lru_entries L c) k of
        Some (v, t) \<Rightarrow> if now \<le> t + lru_ttl c then Some v else None | None \<Rightarrow> None) \<and>
     fst (lru_len L now c) = length (filter (fresh (lru_ttl c) now) (lru_entries L c))"
proof (intro conjI)
  have d: "distinct (map fst (lru_entries L c))" using assms(2) by (simp add: lru_inv_def)
  show peek: "lru_peek L now k c = (case map_of (lru_entries L c) k of
      Some (v, t) \<Rightarrow> if now \<le> t + lru_ttl c then Some v else None | None \<Rightarrow> None)"
    by (simp add: lru_peek_def lru_entries_def lhm_lawsD [OF assms(1)])
  show "fst (lru_get L now k c) = lru_peek L now k c"
    unfolding peek by (auto simp: lru_get_def lru_get_mut_eq(1) [OF assms(1,2)] map_of_filter_fresh [OF d] split: option.split)
  show "fst (lru_len L now c) = length (filter (fresh (lru_ttl c) now) (lru_entries L c))"
    using remove_expired_entries [OF assms(1,2), of now]
    by (simp add: lru_len_def Let_def lru_entries_def lhm_lawsD(8) [OF assms(1)])
qed

lemma map_of_without: "map_of (without k es) k' = (if k' = k then None else map_of es k')"
  by (induction es) (auto simp: without_def)

lemma map_of_tl:
  "distinct (map fst es) \<Longrightarrow> es \<noteq> [] \<Longrightarrow> map_of (tl es) k = (if k = fst (hd es) then None else map_of es k)"
  by (cases es) (auto simp: map_of_eq_None_iff)

text \<open>
  An insertion stores the value with the current time and leaves every other key as it was, except
  that a full cache that does not hold the key loses the entry that was used least recently. The value is
  found until the time to live has passed.
\<close>

lemma lru_insert_spec:
  fixes k :: 'k
  assumes "lhm_laws L" "lru_inv L now0 c" "now0 \<le> now" "0 < lru_capacity c"
  shows "map_of (lru_entries L (lru_insert L now k v c)) =
       (map_of (lru_entries L c) |`
          (- (if length (lru_entries L c) = lru_capacity c \<and> k \<notin> fst ` set (lru_entries L c)
              then {fst (hd (lru_entries L c))} else {})))(k \<mapsto> (v, now)) \<and>
     lru_peek L now' k (lru_insert L now k v c) = (if now' \<le> now + lru_ttl c then Some v else None)"
proof -
  define es where "es = lru_entries L c"
  define evicted where "evicted = (if length es = lru_capacity c \<and> k \<notin> fst ` set es then {fst (hd es)} else {})"
  let ?es = "without k es @ [(k, v, now)]"
  have d: "distinct (map fst es)" and len: "length es \<le> lru_capacity c"
    using assms(2) by (auto simp: lru_inv_def es_def)
  have d': "distinct (map fst ?es)" using d by (auto simp: without_def distinct_map_filter)
  have m: "map_of ?es = (map_of es)(k \<mapsto> (v, now))"
    by (auto simp: fun_eq_iff map_of_without map_add_def split: option.split)
  have full: "lru_capacity c < length ?es \<longleftrightarrow> length es = lru_capacity c \<and> k \<notin> fst ` set es"
  proof (cases "k \<in> fst ` set es")
    case True
    then obtain e where "map_of es k = Some e" by (metis map_of_eq_None_iff option.exhaust)
    from length_without_mem [OF this] len True show ?thesis by auto
  next
    case False
    then have "without k es = es" by (auto simp: without_def filter_id_conv)
    with False len show ?thesis by auto
  qed
  have ins: "lru_entries L (lru_insert L now k v c) = (if lru_capacity c < length ?es then tl ?es else ?es)"
    by (simp add: lru_insert_entries [OF assms(1)] es_def Let_def)
  have "map_of (lru_entries L (lru_insert L now k v c)) = (map_of es |` (- evicted))(k \<mapsto> (v, now))"
  proof (cases "lru_capacity c < length ?es")
    case True
    with full assms(4) have *: "es \<noteq> []" "k \<notin> fst ` set es" by auto
    then have w: "without k es = es" by (auto simp: without_def filter_id_conv)
    from * have h: "hd ?es = hd es" "fst (hd es) \<noteq> k" by (auto simp: w)
    have e: "evicted = {fst (hd es)}" using True full unfolding evicted_def by metis
    have "lru_entries L (lru_insert L now k v c) = tl ?es" using True unfolding ins by (rule if_P)
    with h show ?thesis
      by (simp only: e) (auto simp: fun_eq_iff m map_of_tl [OF d'] restrict_map_def simp del: map_of_append)
  next
    case False
    have e: "evicted = {}" using False full unfolding evicted_def by metis
    have "lru_entries L (lru_insert L now k v c) = ?es" using False unfolding ins by (rule if_not_P)
    then show ?thesis by (simp only: e m Compl_empty_eq) (simp add: restrict_map_def)
  qed
  moreover have "lru_peek L now' k (lru_insert L now k v c) = (if now' \<le> now + lru_ttl c then Some v else None)"
    using calculation by (simp add: lru_peek_def lhm_lawsD(7) [OF assms(1)] lru_entries_def lru_insert_def Let_def)
  ultimately show ?thesis unfolding evicted_def es_def by (rule conjI)
qed

section \<open>Witnesses\<close>

text \<open>The linked hash map as a list of entries, of which only the first for each key counts.\<close>

fun dedup :: "('k \<times> 'e) list \<Rightarrow> ('k \<times> 'e) list" where
  "dedup [] = []"
| "dedup (e # es) = e # without (fst e) (dedup es)"

lemma set_dedup: "set (dedup es) \<subseteq> set es"
  by (induction es) (auto simp: without_def)

lemma distinct_dedup: "distinct (map fst (dedup es))"
  by (induction es) (auto simp: without_def distinct_map_filter)

lemma dedup_id: "distinct (map fst es) \<Longrightarrow> dedup es = es"
  by (induction es) (auto simp: without_def filter_id_conv image_iff)

definition list_lhm :: "(('k \<times> 'e) list, 'k, 'e) lhm" where
  "list_lhm = \<lparr>lhm_new = [],
     lhm_insert = (\<lambda>k e m. without k (dedup m) @ [(k, e)]),
     lhm_pop_front = (\<lambda>m. tl (dedup m)),
     lhm_remove = (\<lambda>k m. (map_of (dedup m) k, without k (dedup m))),
     lhm_get = (\<lambda>k m. map_of (dedup m) k),
     lhm_len = (\<lambda>m. length (dedup m)),
     lhm_iter = dedup,
     lhm_to_back = (\<lambda>k f m. case map_of (dedup m) k of
        Some e \<Rightarrow> without k (dedup m) @ [(k, f e)] | None \<Rightarrow> dedup m)\<rparr>"

lemma list_lhm_laws: "lhm_laws (list_lhm :: (('k \<times> 'e) list, 'k, 'e) lhm)"
proof -
  have d: "distinct (map fst (without k (dedup m)))" for k :: 'k and m :: "('k \<times> 'e) list"
    using distinct_dedup [of m] by (simp add: without_def distinct_map_filter)
  have "distinct (map fst (without k (dedup m) @ [(k, e)]))" for k :: 'k and e :: 'e and m
    using d [of k m] by (auto simp: without_def)
  moreover have "dedup (tl (dedup m)) = tl (dedup m)" for m :: "('k \<times> 'e) list"
    using distinct_dedup [of m] by (intro dedup_id) (simp only: map_tl distinct_tl)
  ultimately show ?thesis
    using d distinct_dedup by (auto simp: lhm_laws_def list_lhm_def dedup_id)
qed

definition ex_cache :: "((nat \<times> nat \<times> instant) list, nat, nat) lru_time_cache" where
  "ex_cache = \<lparr>lru_map = [(1, 10, 3), (2, 20, 5)], lru_ttl = 4, lru_capacity = 2\<rparr>"

lemma ex_cache_inv: "lru_inv list_lhm 5 ex_cache"
  by (simp add: lru_inv_def lru_entries_def list_lhm_def ex_cache_def without_def)

theorem lru_ops_inv_witness:
  "lru_inv list_lhm 9
     (fold (lru_step list_lhm) [(1, LruInsert (1::nat) (10::nat)), (2, LruInsert 2 20), (9, LruGet 2)]
        (lru_new list_lhm 4 (Some 1)))"
  using lru_ops_inv [OF list_lhm_laws, of "[(1, LruInsert (1::nat) (10::nat)), (2, LruInsert 2 20), (9, LruGet 2)]"
      4 "Some 1"] by simp

end
