(* ===== verification/Disc_Packet.thy ===== *)
theory Disc_Packet
  imports Disc_Net
begin

text \<open>
  \<open>src/packet/mod.rs\<close>: the packets on the wire. Fixed-size byte arrays (node ids, nonces, the
  initialisation vector, the protocol identity) are words of their size, read big-endian; a slice
  operation that is out of range and a failed \<open>expect\<close> are \<open>None\<close>.

  Code of other crates is a parameter. \<open>ctr key iv i\<close> is byte \<open>i\<close> of the key stream of AES-128 in counter
  mode: \<open>apply_keystream\<close> combines the data with successive bytes of it, and a cipher object remembers its
  position. \<open>enr_codec\<close> holds \<open>NodeId::parse\<close> and the RLP encoding and decoding of a node record of the
  \<open>enr\<close> crate. Random values are arguments of the constructors.
\<close>

unbundle bit_operations_syntax

section \<open>Definitions\<close>

type_synonym message_nonce = "96 word"
type_synonym id_nonce = "128 word"
type_synonym keystream = "byte list \<Rightarrow> byte list \<Rightarrow> nat \<Rightarrow> byte"

definition IV_LENGTH :: nat where
  "IV_LENGTH = 16"

definition STATIC_HEADER_LENGTH :: nat where
  "STATIC_HEADER_LENGTH = 23"

definition MESSAGE_NONCE_LENGTH :: nat where
  "MESSAGE_NONCE_LENGTH = 12"

definition ID_NONCE_LENGTH :: nat where
  "ID_NONCE_LENGTH = 16"

definition MAX_PACKET_SIZE :: nat where
  "MAX_PACKET_SIZE = 1280"

definition MIN_PACKET_SIZE :: nat where
  "MIN_PACKET_SIZE = IV_LENGTH + STATIC_HEADER_LENGTH + 24"

record protocol_identity =
  PROTOCOL_ID_BYTES :: "48 word"
  PROTOCOL_VERSION_BYTES :: u16

definition DefaultProtocolId :: protocol_identity where
  "DefaultProtocolId = \<lparr>PROTOCOL_ID_BYTES = 0x646973637635, PROTOCOL_VERSION_BYTES = 1\<rparr>"

record ('enr, 'e) enr_codec =
  parse_node_id :: "byte list \<Rightarrow> node_id option"
  rlp_encode_enr :: "'enr \<Rightarrow> byte list"
  rlp_decode_enr :: "byte list \<Rightarrow> 'e + 'enr"

definition enr_codec_laws :: "('enr, 'e) enr_codec \<Rightarrow> bool" where
  "enr_codec_laws E \<longleftrightarrow>
     (\<forall>bs. length bs = 32 \<longrightarrow> parse_node_id E bs = Some (bytes_word bs)) \<and>
     (\<forall>r. rlp_encode_enr E r \<noteq> [] \<and> rlp_decode_enr E (rlp_encode_enr E r) = Inr r)"

definition id_raw :: "node_id \<Rightarrow> byte list" where
  "id_raw i = word_bytes 32 i"

datatype challenge_data = ChallengeData "byte list"

definition challenge_data_try_from :: "byte list \<Rightarrow> unit + challenge_data" where
  "challenge_data_try_from data = (if length data \<noteq> 63 then Inl () else Inr (ChallengeData data))"

datatype 'enr packet_kind =
    Message node_id
  | WhoAreYou id_nonce u64
  | Handshake node_id "byte list" "byte list" "'enr option"

record 'enr packet_header =
  message_nonce :: message_nonce
  header_kind :: "'enr packet_kind"

record 'enr packet =
  packet_iv :: u128
  packet_header :: "'enr packet_header"
  packet_message :: "byte list"

datatype 'e packet_error =
    UnknownPacket | TooLarge | TooSmall | InvalidNodeId | HeaderLengthInvalid nat
  | HeaderDecryptionFailed | InvalidAuthDataSize | InvalidVersion u16 | InvalidEnr 'e

fun kind_byte :: "'enr packet_kind \<Rightarrow> byte" where
  "kind_byte (Message _) = 0"
| "kind_byte (WhoAreYou _ _) = 1"
| "kind_byte (Handshake _ _ _ _) = 2"

fun kind_encode :: "('enr, 'e) enr_codec \<Rightarrow> 'enr packet_kind \<Rightarrow> byte list" where
  "kind_encode E (Message src_id) = id_raw src_id"
| "kind_encode E (WhoAreYou id_nonce enr_seq) = word_bytes 16 id_nonce @ word_bytes 8 enr_seq"
| "kind_encode E (Handshake src_id id_nonce_sig ephem_pubkey enr_record) =
     id_raw src_id @ [word_of_nat (length id_nonce_sig)] @ [word_of_nat (length ephem_pubkey)] @
     id_nonce_sig @ ephem_pubkey @
     (case map_option (rlp_encode_enr E) enr_record of Some node_record \<Rightarrow> node_record | None \<Rightarrow> [])"

fun kind_is_whoareyou :: "'enr packet_kind \<Rightarrow> bool" where
  "kind_is_whoareyou (WhoAreYou _ _) = True"
| "kind_is_whoareyou _ = False"

definition kind_decode ::
  "('enr, 'e) enr_codec \<Rightarrow> byte \<Rightarrow> byte list \<Rightarrow> ('e packet_error + 'enr packet_kind) option" where
  "kind_decode E kind auth_data =
     (if kind = 0 then
        if length auth_data \<noteq> 32 then Some (Inl InvalidAuthDataSize)
        else case parse_node_id E auth_data of
               None \<Rightarrow> Some (Inl InvalidNodeId)
             | Some src_id \<Rightarrow> Some (Inr (Message src_id))
      else if kind = 1 then
        if length auth_data \<noteq> 24 then Some (Inl InvalidAuthDataSize)
        else do {
          id_nonce \<leftarrow> Option.bind (slice_to ID_NONCE_LENGTH auth_data) (to_array 16);
          enr_seq \<leftarrow> Option.bind (slice_from ID_NONCE_LENGTH auth_data) (to_array 8);
          Some (Inr (WhoAreYou (bytes_word id_nonce) (bytes_word enr_seq)))
        }
      else if kind = 2 then
        if length auth_data < 34 then Some (Inl InvalidAuthDataSize)
        else do {
          id_bytes \<leftarrow> slice_to 32 auth_data;
          case parse_node_id E id_bytes of
            None \<Rightarrow> Some (Inl InvalidNodeId)
          | Some src_id \<Rightarrow> do {
              sig_byte \<leftarrow> vec_get 32 auth_data;
              key_byte \<leftarrow> vec_get 33 auth_data;
              let sig_size = unat sig_byte;
              let eph_key_size = unat key_byte;
              let total_size = sig_size + eph_key_size;
              if length auth_data < 34 + total_size then Some (Inl InvalidAuthDataSize)
              else do {
                remaining_data \<leftarrow> slice_from 34 auth_data;
                id_nonce_sig \<leftarrow> slice_range 0 sig_size remaining_data;
                ephem_pubkey \<leftarrow> slice_range sig_size total_size remaining_data;
                if total_size < length remaining_data then do {
                  record_bytes \<leftarrow> slice_from total_size remaining_data;
                  case rlp_decode_enr E record_bytes of
                    Inl e \<Rightarrow> Some (Inl (InvalidEnr e))
                  | Inr r \<Rightarrow> Some (Inr (Handshake src_id id_nonce_sig ephem_pubkey (Some r)))
                }
                else Some (Inr (Handshake src_id id_nonce_sig ephem_pubkey None))
              }
            }
        }
      else Some (Inl UnknownPacket))"

definition header_encode ::
  "('enr, 'e) enr_codec \<Rightarrow> protocol_identity \<Rightarrow> 'enr packet_header \<Rightarrow> byte list" where
  "header_encode E P h =
     (let auth_data = kind_encode E (header_kind h)
      in word_bytes 6 (PROTOCOL_ID_BYTES P) @ word_bytes 2 (PROTOCOL_VERSION_BYTES P) @
         [kind_byte (header_kind h)] @ word_bytes 12 (message_nonce h) @
         be_bytes 2 (length auth_data) @ auth_data)"

definition new_message :: "u128 \<Rightarrow> node_id \<Rightarrow> message_nonce \<Rightarrow> byte list \<Rightarrow> 'enr packet" where
  "new_message iv src_id nonce ciphertext =
     \<lparr>packet_iv = iv, packet_header = \<lparr>message_nonce = nonce, header_kind = Message src_id\<rparr>,
      packet_message = ciphertext\<rparr>"

definition new_whoareyou :: "u128 \<Rightarrow> message_nonce \<Rightarrow> id_nonce \<Rightarrow> u64 \<Rightarrow> 'enr packet" where
  "new_whoareyou iv request_nonce id_nonce enr_seq =
     \<lparr>packet_iv = iv, packet_header = \<lparr>message_nonce = request_nonce, header_kind = WhoAreYou id_nonce enr_seq\<rparr>,
      packet_message = []\<rparr>"

definition new_authheader ::
  "u128 \<Rightarrow> node_id \<Rightarrow> message_nonce \<Rightarrow> byte list \<Rightarrow> byte list \<Rightarrow> 'enr option \<Rightarrow> 'enr packet" where
  "new_authheader iv src_id nonce id_nonce_sig ephem_pubkey enr_record =
     \<lparr>packet_iv = iv,
      packet_header = \<lparr>message_nonce = nonce, header_kind = Handshake src_id id_nonce_sig ephem_pubkey enr_record\<rparr>,
      packet_message = []\<rparr>"

text \<open>The generator may fail to fill the 44 bytes.\<close>

definition new_random ::
  "byte list option \<Rightarrow> message_nonce \<Rightarrow> u128 \<Rightarrow> node_id \<Rightarrow> string + 'enr packet" where
  "new_random filled nonce iv src_id =
     (case filled of
        None \<Rightarrow> Inl ''PRNG failed''
      | Some ciphertext \<Rightarrow> Inr (new_message iv src_id nonce ciphertext))"

definition is_whoareyou :: "'enr packet \<Rightarrow> bool" where
  "is_whoareyou p =
     (case header_kind (packet_header p) of WhoAreYou _ _ \<Rightarrow> True | Message _ \<Rightarrow> False | Handshake _ _ _ _ \<Rightarrow> False)"

definition packet_src_id :: "'enr packet \<Rightarrow> node_id option" where
  "packet_src_id p =
     (case header_kind (packet_header p) of
        Message src_id \<Rightarrow> Some src_id | WhoAreYou _ _ \<Rightarrow> None | Handshake src_id _ _ _ \<Rightarrow> Some src_id)"

definition authenticated_data ::
  "('enr, 'e) enr_codec \<Rightarrow> protocol_identity \<Rightarrow> 'enr packet \<Rightarrow> byte list" where
  "authenticated_data E P p = word_bytes 16 (packet_iv p) @ header_encode E P (packet_header p)"

definition apply_keystream :: "keystream \<Rightarrow> byte list \<Rightarrow> byte list \<Rightarrow> nat \<Rightarrow> byte list \<Rightarrow> byte list" where
  "apply_keystream ctr key iv pos bs = map2 (\<lambda>i b. b XOR ctr key iv (pos + i)) [0..<length bs] bs"

definition encrypt_header ::
  "keystream \<Rightarrow> ('enr, 'e) enr_codec \<Rightarrow> protocol_identity \<Rightarrow> node_id \<Rightarrow> 'enr packet \<Rightarrow> byte list" where
  "encrypt_header ctr E P dst_id p =
     (let header_bytes = header_encode E P (packet_header p);
          key = take 16 (id_raw dst_id);
          iv = word_bytes 16 (packet_iv p)
      in apply_keystream ctr key iv 0 header_bytes)"

definition packet_encode ::
  "keystream \<Rightarrow> ('enr, 'e) enr_codec \<Rightarrow> protocol_identity \<Rightarrow> node_id \<Rightarrow> 'enr packet \<Rightarrow> byte list" where
  "packet_encode ctr E P dst_id p =
     word_bytes 16 (packet_iv p) @ encrypt_header ctr E P dst_id p @ packet_message p"

definition packet_decode ::
  "keystream \<Rightarrow> ('enr, 'e) enr_codec \<Rightarrow> protocol_identity \<Rightarrow> node_id \<Rightarrow> byte list
     \<Rightarrow> ('e packet_error + 'enr packet \<times> byte list) option" where
  "packet_decode ctr E P src_id data =
     (if MAX_PACKET_SIZE < length data then Some (Inl TooLarge)
      else if length data < MIN_PACKET_SIZE then Some (Inl TooSmall)
      else do {
        iv \<leftarrow> slice_to IV_LENGTH data;
        let key = take 16 (id_raw src_id);
        masked \<leftarrow> slice_range IV_LENGTH (IV_LENGTH + STATIC_HEADER_LENGTH) data;
        let static_header = apply_keystream ctr key iv 0 masked;
        if length static_header \<noteq> STATIC_HEADER_LENGTH
        then Some (Inl (HeaderLengthInvalid (length static_header)))
        else do {
          id_bytes \<leftarrow> slice_to 6 static_header;
          if id_bytes \<noteq> word_bytes 6 (PROTOCOL_ID_BYTES P) then Some (Inl HeaderDecryptionFailed)
          else do {
            version_bytes \<leftarrow> slice_range 6 8 static_header;
            if version_bytes \<noteq> word_bytes 2 (PROTOCOL_VERSION_BYTES P)
            then do {
              version \<leftarrow> to_array 2 version_bytes;
              Some (Inl (InvalidVersion (bytes_word version)))
            }
            else do {
              flag \<leftarrow> vec_get 8 static_header;
              nonce \<leftarrow> Option.bind (slice_range 9 (9 + MESSAGE_NONCE_LENGTH) static_header) (to_array 12);
              size_bytes \<leftarrow> Option.bind (slice_from (STATIC_HEADER_LENGTH - 2) static_header) (to_array 2);
              let auth_data_size = be_val size_bytes;
              remaining_data \<leftarrow> slice_from (IV_LENGTH + STATIC_HEADER_LENGTH) data;
              if length remaining_data < auth_data_size then Some (Inl InvalidAuthDataSize)
              else do {
                masked \<leftarrow> slice_range (IV_LENGTH + STATIC_HEADER_LENGTH)
                            (IV_LENGTH + STATIC_HEADER_LENGTH + auth_data_size) data;
                let auth_data = apply_keystream ctr key iv STATIC_HEADER_LENGTH masked;
                kind \<leftarrow> kind_decode E flag auth_data;
                case kind of
                  Inl e \<Rightarrow> Some (Inl e)
                | Inr kind \<Rightarrow> do {
                    message \<leftarrow> slice_from (IV_LENGTH + STATIC_HEADER_LENGTH + auth_data_size) data;
                    if message \<noteq> [] \<and> kind_is_whoareyou kind then Some (Inl UnknownPacket)
                    else do {
                      iv_array \<leftarrow> to_array 16 iv;
                      Some (Inr (\<lparr>packet_iv = bytes_word iv_array,
                                  packet_header = \<lparr>message_nonce = bytes_word nonce, header_kind = kind\<rparr>,
                                  packet_message = message\<rparr>,
                                 iv @ static_header @ auth_data))
                    }
                  }
              }
            }
          }
        }
      })"


section \<open>The key stream\<close>

lemma length_apply_keystream [simp]: "length (apply_keystream ctr key iv pos bs) = length bs"
  by (simp add: apply_keystream_def)

lemma apply_keystream_nth:
  "i < length bs \<Longrightarrow> apply_keystream ctr key iv pos bs ! i = bs ! i XOR ctr key iv (pos + i)"
  by (simp add: apply_keystream_def)

lemma apply_keystream_append:
  "apply_keystream ctr key iv pos (xs @ ys) =
     apply_keystream ctr key iv pos xs @ apply_keystream ctr key iv (pos + length xs) ys"
  by (rule nth_equalityI) (auto simp: apply_keystream_nth nth_append add.assoc)

lemma apply_keystream_twice [simp]: "apply_keystream ctr key iv pos (apply_keystream ctr key iv pos bs) = bs"
  by (rule nth_equalityI) (simp_all add: apply_keystream_nth xor.assoc)

lemma apply_keystream_take:
  "apply_keystream ctr key iv pos (take n bs) = take n (apply_keystream ctr key iv pos bs)"
  by (rule nth_equalityI) (simp_all add: apply_keystream_nth)

section \<open>Authentication data\<close>

lemmas packet_lengths =
  IV_LENGTH_def STATIC_HEADER_LENGTH_def MESSAGE_NONCE_LENGTH_def ID_NONCE_LENGTH_def MAX_PACKET_SIZE_def
  MIN_PACKET_SIZE_def

lemma length_id_raw [simp]: "length (id_raw i) = 32"
  by (simp add: id_raw_def)

lemma kind_decode_total: "\<exists>r. kind_decode E kind auth_data = Some r"
proof (cases "kind = 2 \<and> 34 \<le> length auth_data")
  case True
  then show ?thesis
    by (cases "parse_node_id E (take 32 auth_data)")
      (auto simp: kind_decode_def Let_def split: sum.split)
next
  case False
  then show ?thesis by (auto simp: kind_decode_def packet_lengths split: option.split)
qed

text \<open>The sizes of a handshake are sent in one byte each.\<close>

fun kind_fits :: "'enr packet_kind \<Rightarrow> bool" where
  "kind_fits (Handshake _ id_nonce_sig ephem_pubkey _) \<longleftrightarrow> length id_nonce_sig < 256 \<and> length ephem_pubkey < 256"
| "kind_fits _ = True"

lemma unat_length_byte [simp]: "n < 256 \<Longrightarrow> unat (word_of_nat n :: byte) = n"
  by (simp add: unat_of_nat take_bit_nat_eq_self_iff)

lemma kind_roundtrip:
  assumes "enr_codec_laws E" "kind_fits k"
  shows "kind_decode E (kind_byte k) (kind_encode E k) = Some (Inr k)"
proof (cases k)
  case (Message src_id)
  then show ?thesis using assms(1)
    by (simp add: kind_decode_def enr_codec_laws_def id_raw_def bytes_word_bytes)
next
  case (WhoAreYou id_nonce enr_seq)
  then show ?thesis by (simp add: kind_decode_def packet_lengths bytes_word_bytes)
next
  case (Handshake src_id sig key r)
  then show ?thesis using assms
    by (cases r)
      (simp_all add: kind_decode_def enr_codec_laws_def id_raw_def bytes_word_bytes nth_append)
qed


fun carries_enr :: "'enr packet_kind \<Rightarrow> bool" where
  "carries_enr (Handshake _ _ _ (Some _)) = True"
| "carries_enr _ = False"

lemma word_bytes_of: "length bs = n \<Longrightarrow> LENGTH('a::len) = 8 * n \<Longrightarrow> word_bytes n (bytes_word bs :: 'a word) = bs"
  using word_bytes_word [where 'a = 'a, of bs] by simp

lemma handshake_canonical:
  assumes "34 + (unat s + unat e) = length (bs :: byte list)" "s = bs ! 32" "e = bs ! 33"
  shows "take 32 bs @ s # e # take (unat s) (drop 34 bs) @ take (unat e) (drop (unat s) (drop 34 bs)) = bs"
proof -
  have "drop 32 bs = s # e # drop 34 bs"
    using assms by (simp add: Cons_nth_drop_Suc [symmetric] numeral_eq_Suc)
  moreover have "drop 34 bs = take (unat s) (drop 34 bs) @ take (unat e) (drop (unat s) (drop 34 bs))"
    using assms(1) by (metis (no_types, opaque_lifting) append_take_drop_id diff_add_inverse drop_drop length_drop take_all_iff order_refl)
  ultimately show ?thesis by (metis append_take_drop_id)
qed

lemma kind_canonical:
  assumes "enr_codec_laws E" "kind_decode E kind ad = Some (Inr k)" "\<not> carries_enr k"
  shows "kind_byte k = kind \<and> kind_encode E k = ad"
proof -
  have p: "length bs = 32 \<Longrightarrow> parse_node_id E bs = Some (bytes_word bs)" for bs
    using assms(1) by (simp add: enr_codec_laws_def)
  consider "kind = 0" | "kind = 1" | "kind = 2"
    using assms(2) by (auto simp: kind_decode_def split: if_splits)
  then show ?thesis
  proof cases
    case 1
    then show ?thesis using assms(2)
      by (auto simp: kind_decode_def p id_raw_def word_bytes_of split: if_splits)
  next
    case 2
    then show ?thesis using assms(2)
      by (auto simp: kind_decode_def packet_lengths word_bytes_of split: if_splits)
  next
    case 3
    then have len: "34 + (unat (ad ! 32) + unat (ad ! 33)) = length ad"
      and k: "k = Handshake (bytes_word (take 32 ad)) (take (unat (ad ! 32)) (drop 34 ad))
                (take (unat (ad ! 33)) (drop (unat (ad ! 32)) (drop 34 ad))) None"
      using assms(2,3) by (auto simp: kind_decode_def p Let_def split: if_splits sum.splits)
    define sig where "sig = take (unat (ad ! 32)) (drop 34 ad)"
    define key where "key = take (unat (ad ! 33)) (drop (unat (ad ! 32)) (drop 34 ad))"
    have "length sig = unat (ad ! 32)" "length key = unat (ad ! 33)"
      using len by (simp_all add: sig_def key_def)
    then show ?thesis
      using 3 len handshake_canonical [OF len refl refl] unfolding k sig_def [symmetric] key_def [symmetric]
      by (simp add: id_raw_def word_bytes_of)
  qed
qed

section \<open>Packets\<close>

text \<open>Decoding a packet of an admissible size, without the panics.\<close>

lemma packet_decode_eq:
  fixes src_id :: node_id and ctr :: keystream
  assumes "63 \<le> length data" "length data \<le> 1280"
  defines "iv \<equiv> take 16 data" and "key \<equiv> take 16 (id_raw src_id)"
  defines "sh \<equiv> apply_keystream ctr key iv 0 (take 23 (drop 16 data))"
  defines "n \<equiv> be_val (drop 21 sh)"
  defines "ad \<equiv> apply_keystream ctr key iv 23 (take n (drop 39 data))"
  shows "packet_decode ctr E P src_id data =
    (if take 6 sh \<noteq> word_bytes 6 (PROTOCOL_ID_BYTES P) then Some (Inl HeaderDecryptionFailed)
     else if take 2 (drop 6 sh) \<noteq> word_bytes 2 (PROTOCOL_VERSION_BYTES P)
     then Some (Inl (InvalidVersion (bytes_word (take 2 (drop 6 sh)))))
     else if length data - 39 < n then Some (Inl InvalidAuthDataSize)
     else case kind_decode E (sh ! 8) ad of
       None \<Rightarrow> None
     | Some (Inl e) \<Rightarrow> Some (Inl e)
     | Some (Inr kind) \<Rightarrow>
         if drop (39 + n) data \<noteq> [] \<and> kind_is_whoareyou kind then Some (Inl UnknownPacket)
         else Some (Inr (\<lparr>packet_iv = bytes_word iv,
                packet_header = \<lparr>message_nonce = bytes_word (take 12 (drop 9 sh)), header_kind = kind\<rparr>,
                packet_message = drop (39 + n) data\<rparr>, iv @ sh @ ad)))"
proof -
  have len: "length sh = 23" using assms(1) by (simp add: sh_def)
  have ok: "length data \<le> MAX_PACKET_SIZE" "MIN_PACKET_SIZE \<le> length data"
    using assms(1,2) by (simp_all add: packet_lengths)
  have s: "slice_to IV_LENGTH data = Some iv"
    "slice_range IV_LENGTH (IV_LENGTH + STATIC_HEADER_LENGTH) data = Some (take 23 (drop 16 data))"
    "slice_from (IV_LENGTH + STATIC_HEADER_LENGTH) data = Some (drop 39 data)"
    using assms(1) by (simp_all add: iv_def packet_lengths)
  have t: "slice_to 6 sh = Some (take 6 sh)" "slice_range 6 8 sh = Some (take 2 (drop 6 sh))" "vec_get 8 sh = Some (sh ! 8)"
    "Option.bind (slice_range 9 (9 + MESSAGE_NONCE_LENGTH) sh) (to_array 12) = Some (take 12 (drop 9 sh))"
    "Option.bind (slice_from (STATIC_HEADER_LENGTH - 2) sh) (to_array 2) = Some (drop 21 sh)"
    "to_array 2 (take 2 (drop 6 sh)) = Some (take 2 (drop 6 sh))"
    by (simp_all add: len packet_lengths)
  have u: "to_array 16 iv = Some iv" using assms(1) by (simp add: iv_def)
  have v: "slice_range (IV_LENGTH + STATIC_HEADER_LENGTH) (IV_LENGTH + STATIC_HEADER_LENGTH + n) data = Some (take n (drop 39 data))"
    "slice_from (IV_LENGTH + STATIC_HEADER_LENGTH + n) data = Some (drop (39 + n) data)" if "\<not> length data - 39 < n"
    using that assms(1) by (simp_all add: packet_lengths)
  have w: "apply_keystream ctr key iv STATIC_HEADER_LENGTH (take n (drop 39 data)) = ad"
    by (simp only: ad_def STATIC_HEADER_LENGTH_def)
  show ?thesis
  proof (cases "length data - 39 < n")
    case True
    show ?thesis using ok True
      unfolding packet_decode_def Let_def s bind.bind_lunit key_def [symmetric] sh_def [symmetric] t n_def [symmetric]
      by (simp add: len STATIC_HEADER_LENGTH_def)
  next
    case False
    show ?thesis using ok False
      unfolding packet_decode_def Let_def s bind.bind_lunit key_def [symmetric] sh_def [symmetric] t n_def [symmetric] v [OF False]
        bind.bind_lunit w
      by (simp add: len STATIC_HEADER_LENGTH_def u split: option.split sum.split)
  qed
qed


lemma decode_total: "\<exists>r. packet_decode ctr E P src_id data = Some r"
proof (cases "63 \<le> length data \<and> length data \<le> 1280")
  case True
  obtain r where "kind_decode E (apply_keystream ctr (take 16 (id_raw src_id)) (take 16 data) 0 (take 23 (drop 16 data)) ! 8)
     (apply_keystream ctr (take 16 (id_raw src_id)) (take 16 data) 23
       (take (be_val (drop 21 (apply_keystream ctr (take 16 (id_raw src_id)) (take 16 data) 0 (take 23 (drop 16 data)))))
         (drop 39 data))) = Some r"
    using kind_decode_total by blast
  with True show ?thesis by (subst packet_decode_eq) (auto split: sum.split)
next
  case False
  then show ?thesis by (auto simp: packet_decode_def packet_lengths)
qed

definition static_header :: "('enr, 'e) enr_codec \<Rightarrow> protocol_identity \<Rightarrow> 'enr packet_header \<Rightarrow> byte list" where
  "static_header E P h =
     word_bytes 6 (PROTOCOL_ID_BYTES P) @ word_bytes 2 (PROTOCOL_VERSION_BYTES P) @
     [kind_byte (header_kind h)] @ word_bytes 12 (message_nonce h) @ be_bytes 2 (length (kind_encode E (header_kind h)))"

lemma header_encode_split: "header_encode E P h = static_header E P h @ kind_encode E (header_kind h)"
  by (simp add: header_encode_def static_header_def Let_def)

lemma length_static_header [simp]: "length (static_header E P h) = 23"
  by (simp add: static_header_def)

lemma static_header_parts:
  "take 6 (static_header E P h) = word_bytes 6 (PROTOCOL_ID_BYTES P)"
  "take 2 (drop 6 (static_header E P h)) = word_bytes 2 (PROTOCOL_VERSION_BYTES P)"
  "static_header E P h ! 8 = kind_byte (header_kind h)"
  "take 12 (drop 9 (static_header E P h)) = word_bytes 12 (message_nonce h)"
  "drop 21 (static_header E P h) = be_bytes 2 (length (kind_encode E (header_kind h)))"
  by (simp_all add: static_header_def nth_append)

text \<open>A packet that can be sent: the sizes fit their fields and the packet its limits.\<close>

definition packet_fits :: "('enr, 'e) enr_codec \<Rightarrow> 'enr packet \<Rightarrow> bool" where
  "packet_fits E p \<longleftrightarrow> kind_fits (header_kind (packet_header p)) \<and>
     (kind_is_whoareyou (header_kind (packet_header p)) \<longrightarrow> packet_message p = []) \<and>
     24 \<le> length (kind_encode E (header_kind (packet_header p))) + length (packet_message p) \<and>
     length (kind_encode E (header_kind (packet_header p))) + length (packet_message p) \<le> 1241"

lemma decode_encode:
  assumes "enr_codec_laws E" "packet_fits E p"
  shows "packet_decode ctr E P dst_id (packet_encode ctr E P dst_id p) = Some (Inr (p, authenticated_data E P p))"
proof -
  define h where "h = packet_header p"
  define S where "S = static_header E P h"
  define A where "A = kind_encode E (header_kind h)"
  define iv where "iv = word_bytes 16 (packet_iv p)"
  define key where "key = take 16 (id_raw dst_id)"
  define data where "data = packet_encode ctr E P dst_id p"
  have data: "data = iv @ apply_keystream ctr key iv 0 S @ apply_keystream ctr key iv 23 A @ packet_message p"
    by (simp add: data_def packet_encode_def encrypt_header_def header_encode_split apply_keystream_append Let_def
        h_def S_def A_def iv_def key_def)
  have len: "length S = 23" "length iv = 16" "length A \<le> 1241" "63 \<le> length data" "length data \<le> 1280"
    using assms(2) by (simp_all add: data S_def iv_def A_def packet_fits_def h_def [symmetric])
  have parts: "take 16 data = iv" "take 23 (drop 16 data) = apply_keystream ctr key iv 0 S"
    "take (length A) (drop 39 data) = apply_keystream ctr key iv 23 A" "drop (39 + length A) data = packet_message p"
    "\<not> length data - 39 < length A"
    using len by (simp_all add: data)
  have n: "be_val (be_bytes 2 (length A)) = length A" using len(3) by simp
  have k: "kind_decode E (kind_byte (header_kind h)) A = Some (Inr (header_kind h))"
    using assms by (simp add: A_def kind_roundtrip packet_fits_def h_def)
  have w: "\<not> (packet_message p \<noteq> [] \<and> kind_is_whoareyou (header_kind h))"
    using assms(2) by (auto simp: packet_fits_def h_def)
  note sp = static_header_parts [of E P h, folded S_def A_def]
  show ?thesis
    unfolding data_def [symmetric]
    by (subst packet_decode_eq [OF len(4,5)])
      (use w in \<open>simp add: parts key_def [symmetric] sp n k bytes_word_bytes iv_def [symmetric]
         authenticated_data_def header_encode_split h_def [symmetric] S_def [symmetric] A_def [symmetric]
         bytes_word_bytes [where 'a = 128 and n = 16 and w = "packet_iv p", folded iv_def]\<close>)
qed

text \<open>
  C28. Round trip: a packet whose sizes fit the wire format, encoded for a destination, is decoded by that
  destination to the same packet, together with the data its sender authenticates.
\<close>

theorem packet_roundtrip:
  assumes "enr_codec_laws E" "packet_fits E p"
  shows "packet_decode ctr E P dst_id (packet_encode ctr E P dst_id p) = Some (Inr (p, authenticated_data E P p))"
  using assms by (rule decode_encode)


lemma slices_append: "i \<le> j \<Longrightarrow> take i xs @ take (j - i) (drop i xs) = take j xs"
  by (metis le_add_diff_inverse take_add)

lemma static_header_join:
  assumes "length sh = 23" "take 6 sh = a" "take 2 (drop 6 sh) = b"
  shows "sh = a @ b @ [sh ! 8] @ take 12 (drop 9 sh) @ drop 21 sh"
proof -
  have "drop 8 sh = sh ! 8 # drop 9 sh" using assms(1) by (simp add: Cons_nth_drop_Suc [symmetric])
  moreover have "sh = take 6 sh @ take 2 (drop 6 sh) @ drop 8 sh"
    using append_take_drop_id [of 6 sh] append_take_drop_id [of 2 "drop 6 sh"] by simp
  moreover have "drop 9 sh = take 12 (drop 9 sh) @ drop 21 sh"
    using append_take_drop_id [of 12 "drop 9 sh"] by simp
  ultimately show ?thesis using assms(2,3) by simp
qed

text \<open>
  Only encodings are accepted: if decoding yields a packet that carries no node record, the bytes
  received are exactly the encoding of that packet for this node, the authenticated data are those of the
  packet, and the bytes number between 63 and 1280.
\<close>

lemma packet_decode_canonical:
  assumes "enr_codec_laws E" "packet_decode ctr E P src_id data = Some (Inr (p, ad))"
    "\<not> carries_enr (header_kind (packet_header p))"
  shows "packet_encode ctr E P src_id p = data \<and> ad = authenticated_data E P p \<and>
    63 \<le> length data \<and> length data \<le> 1280"
proof -
  have len: "63 \<le> length data" "length data \<le> 1280"
    using assms(2) by (auto simp: packet_decode_def packet_lengths split: if_splits)
  define iv where "iv = take 16 data"
  define key where "key = take 16 (id_raw src_id)"
  define sh where "sh = apply_keystream ctr key iv 0 (take 23 (drop 16 data))"
  define n where "n = be_val (drop 21 sh)"
  define A where "A = apply_keystream ctr key iv 23 (take n (drop 39 data))"
  note eq = assms(2) [unfolded packet_decode_eq [OF len], folded iv_def key_def, folded sh_def, folded n_def, folded A_def]
  have id: "take 6 sh = word_bytes 6 (PROTOCOL_ID_BYTES P)" "take 2 (drop 6 sh) = word_bytes 2 (PROTOCOL_VERSION_BYTES P)"
    and n: "n \<le> length data - 39" using eq by (auto split: if_splits)
  from eq id n obtain k where k: "kind_decode E (sh ! 8) A = Some (Inr k)"
    and p: "p = \<lparr>packet_iv = bytes_word iv, packet_header = \<lparr>message_nonce = bytes_word (take 12 (drop 9 sh)), header_kind = k\<rparr>,
      packet_message = drop (39 + n) data\<rparr>" and ad: "ad = iv @ sh @ A"
    by (auto split: option.splits sum.splits if_splits)
  have kc: "kind_byte k = sh ! 8" "kind_encode E k = A" using kind_canonical [OF assms(1) k] assms(3) by (auto simp: p)
  have lens: "length iv = 16" "length sh = 23" "length A = n" using len n by (simp_all add: iv_def sh_def A_def)
  have "be_bytes 2 n = drop 21 sh" using be_bytes_be_val [of "drop 21 sh"] lens by (simp add: n_def)
  then have hdr: "header_encode E P (packet_header p) = sh @ A"
    using static_header_join [OF lens(2) id] lens
    by (simp add: header_encode_split static_header_def p kc word_bytes_of)
  have ivb: "word_bytes 16 (packet_iv p) = iv" using lens by (simp add: p word_bytes_of)
  have "packet_encode ctr E P src_id p = iv @ apply_keystream ctr key iv 0 sh @ apply_keystream ctr key iv 23 A @ drop (39 + n) data"
    using lens by (simp add: packet_encode_def encrypt_header_def Let_def hdr ivb key_def [symmetric] apply_keystream_append)
      (simp add: p)
  also have "\<dots> = take 16 data @ take 23 (drop 16 data) @ take n (drop 39 data) @ drop (39 + n) data"
    by (simp add: sh_def A_def iv_def)
  also have "\<dots> = data"
    using slices_append [of 16 39 data] slices_append [of 39 "39 + n" data] by (simp add: append_assoc [symmetric] del: append_assoc)
  finally show ?thesis using len by (simp add: ad authenticated_data_def hdr ivb)
qed

lemma whoareyou_challenge_data:
  "length (authenticated_data E P (new_whoareyou iv nonce id_nonce enr_seq)) = 63"
  by (simp add: authenticated_data_def header_encode_split new_whoareyou_def)

section \<open>Witnesses\<close>

text \<open>Records that are their own bytes, after a marker, and a key stream of position and initialisation vector.\<close>

definition ex_codec :: "(byte list, unit) enr_codec" where
  "ex_codec = \<lparr>parse_node_id = (\<lambda>bs. if length bs = 32 then Some (bytes_word bs) else None),
     rlp_encode_enr = (\<lambda>r. 0xc0 # r),
     rlp_decode_enr = (\<lambda>bs. case bs of [] \<Rightarrow> Inl () | b # r \<Rightarrow> if b = 0xc0 then Inr r else Inl ())\<rparr>"

lemma ex_codec_laws: "enr_codec_laws ex_codec"
  by (simp add: enr_codec_laws_def ex_codec_def)

definition ex_ctr :: keystream where
  "ex_ctr key iv i = iv ! (i mod 16) + word_of_nat (7 * i) + key ! 0"

definition ex_packet :: "byte list packet" where
  "ex_packet = new_authheader 0x0102 77 5 [1, 2, 3] [4, 5] (Some [9, 8])"

definition ex_plain :: "byte list packet" where
  "ex_plain = new_message 3 77 5 [1, 2, 3]"

theorem packet_roundtrip_witness:
  "enr_codec_laws ex_codec \<and> packet_fits ex_codec ex_packet \<and>
   packet_decode ex_ctr ex_codec DefaultProtocolId 42 (packet_encode ex_ctr ex_codec DefaultProtocolId 42 ex_packet) =
     Some (Inr (ex_packet, authenticated_data ex_codec DefaultProtocolId ex_packet))"
proof -
  have "packet_fits ex_codec ex_packet"
    by (simp add: packet_fits_def ex_packet_def new_authheader_def ex_codec_def)
  with packet_roundtrip [OF ex_codec_laws this, of ex_ctr DefaultProtocolId 42] ex_codec_laws show ?thesis by blast
qed

end
