(* ===== verification/Disc_Rpc.thy ===== *)
theory Disc_Rpc
  imports Disc_Net
begin

text \<open>
  \<open>src/rpc.rs\<close>: requests and responses and their encoding. The RLP encoder and decoder are the \<open>rlp\<close>
  crate's: the record \<open>rlp\<close> holds the operations the source calls. \<open>rlp_out\<close> is the output of an
  \<open>RlpStream\<close> to which a list of the given fields has been written, the other fields read an encoded list.
  \<open>rlp_laws\<close> states what the crate documents: reading a written list gives back what was written, and
  encodings have at least one byte for the header and one for each field. Node records are a type of their own.
\<close>

section \<open>Messages\<close>

datatype request_id = RequestId "byte list"

datatype request_body =
    Ping u64
  | FindNode "u64 list"
  | TalkReq "byte list" "byte list"

datatype 'enr response_body =
    Pong u64 ip_addr u16
  | Nodes u64 "'enr list"
  | TalkResp "byte list"

record request =
  req_id :: request_id
  req_body :: request_body

record 'enr response =
  resp_id :: request_id
  resp_body :: "'enr response_body"

datatype 'enr rpc_message = Request request | Response "'enr response"

datatype decoder_error =
    RlpIsTooShort | RlpIncorrectListLen | RlpInconsistentLengthAndData | Custom string | RlpOther nat

section \<open>The RLP crate\<close>

datatype 'enr rlp_field = FBytes "byte list" | FUint u64 | FUints "u64 list" | FEnrs "'enr list"

record 'enr rlp =
  rlp_out :: "'enr rlp_field list \<Rightarrow> byte list"
  rlp_item_count :: "byte list \<Rightarrow> decoder_error + nat"
  rlp_payload_info :: "byte list \<Rightarrow> decoder_error + nat \<times> nat"
  rlp_val_at_bytes :: "byte list \<Rightarrow> nat \<Rightarrow> decoder_error + byte list"
  rlp_val_at_u64 :: "byte list \<Rightarrow> nat \<Rightarrow> decoder_error + u64"
  rlp_val_at_u16 :: "byte list \<Rightarrow> nat \<Rightarrow> decoder_error + u16"
  rlp_list_at_u64 :: "byte list \<Rightarrow> nat \<Rightarrow> decoder_error + u64 list"
  rlp_at :: "byte list \<Rightarrow> nat \<Rightarrow> decoder_error + byte list"
  rlp_is_empty :: "byte list \<Rightarrow> bool"
  rlp_as_enr_list :: "byte list \<Rightarrow> decoder_error + 'enr list"

definition rlp_laws :: "'enr rlp \<Rightarrow> bool" where
  "rlp_laws R \<longleftrightarrow> (\<forall>fs. let bs = rlp_out R fs in
     length fs < length bs \<and>
     rlp_item_count R bs = Inr (length fs) \<and>
     (\<exists>h v. rlp_payload_info R bs = Inr (h, v) \<and> h + v = length bs) \<and>
     (\<forall>i<length fs.
        (\<forall>b. fs ! i = FBytes b \<longrightarrow> rlp_val_at_bytes R bs i = Inr b) \<and>
        (\<forall>n. fs ! i = FUint n \<longrightarrow> rlp_val_at_u64 R bs i = Inr n) \<and>
        (\<forall>n. fs ! i = FUint (ucast n) \<longrightarrow> rlp_val_at_u16 R bs i = Inr n) \<and>
        (\<forall>ns. fs ! i = FUints ns \<longrightarrow> rlp_list_at_u64 R bs i = Inr ns) \<and>
        (\<forall>es. fs ! i = FEnrs es \<longrightarrow> (\<exists>sub. rlp_at R bs i = Inr sub \<and> rlp_is_empty R sub = (es = []) \<and>
           (es \<noteq> [] \<longrightarrow> rlp_as_enr_list R sub = Inr es)))))"

section \<open>Encoding\<close>

fun request_msg_type :: "request_body \<Rightarrow> byte" where
  "request_msg_type (Ping _) = 1"
| "request_msg_type (FindNode _) = 3"
| "request_msg_type (TalkReq _ _) = 5"

fun response_msg_type :: "'enr response_body \<Rightarrow> byte" where
  "response_msg_type (Pong _ _ _) = 2"
| "response_msg_type (Nodes _ _) = 4"
| "response_msg_type (TalkResp _) = 6"

definition match_request :: "'enr response \<Rightarrow> request_body \<Rightarrow> bool" where
  "match_request r req =
     (case resp_body r of
        Pong _ _ _ \<Rightarrow> (case req of Ping _ \<Rightarrow> True | _ \<Rightarrow> False)
      | Nodes _ _ \<Rightarrow> (case req of FindNode _ \<Rightarrow> True | _ \<Rightarrow> False)
      | TalkResp _ \<Rightarrow> (case req of TalkReq _ _ \<Rightarrow> True | _ \<Rightarrow> False))"

fun as_bytes :: "request_id \<Rightarrow> byte list" where
  "as_bytes (RequestId b) = b"

fun ip_octets :: "ip_addr \<Rightarrow> byte list" where
  "ip_octets (V4 a) = v4_octets a"
| "ip_octets (V6 a) = v6_octets a"

definition request_encode :: "'enr rlp \<Rightarrow> request \<Rightarrow> byte list" where
  "request_encode R r =
     [request_msg_type (req_body r)] @
     (case req_body r of
        Ping enr_seq \<Rightarrow> rlp_out R [FBytes (as_bytes (req_id r)), FUint enr_seq]
      | FindNode distances \<Rightarrow> rlp_out R [FBytes (as_bytes (req_id r)), FUints distances]
      | TalkReq protocol request \<Rightarrow> rlp_out R [FBytes (as_bytes (req_id r)), FBytes protocol, FBytes request])"

definition response_encode :: "'enr rlp \<Rightarrow> 'enr response \<Rightarrow> byte list" where
  "response_encode R r =
     [response_msg_type (resp_body r)] @
     (case resp_body r of
        Pong enr_seq ip port \<Rightarrow>
          rlp_out R [FBytes (as_bytes (resp_id r)), FUint enr_seq, FBytes (ip_octets ip), FUint (ucast port)]
      | Nodes total_n nodes \<Rightarrow> rlp_out R [FBytes (as_bytes (resp_id r)), FUint total_n, FEnrs nodes]
      | TalkResp response \<Rightarrow> rlp_out R [FBytes (as_bytes (resp_id r)), FBytes response])"

fun rpc_encode :: "'enr rlp \<Rightarrow> 'enr rpc_message \<Rightarrow> byte list" where
  "rpc_encode R (Request r) = request_encode R r"
| "rpc_encode R (Response r) = response_encode R r"

section \<open>Decoding\<close>

text \<open>The operator \<open>?\<close>.\<close>

fun and_then :: "'e + 'a \<Rightarrow> ('a \<Rightarrow> 'e + 'b) \<Rightarrow> 'e + 'b" where
  "and_then (Inl e) f = Inl e"
| "and_then (Inr x) f = f x"

definition request_id_decode :: "byte list \<Rightarrow> decoder_error + request_id" where
  "request_id_decode data = (if 8 < length data then Inl (Custom ''Invalid ID length'') else Inr (RequestId data))"

definition decode_ip :: "byte list \<Rightarrow> decoder_error + ip_addr" where
  "decode_ip ip_bytes =
     (if length ip_bytes = 4 then
        (case v4_of_octets ip_bytes of Some ip \<Rightarrow> Inr (V4 ip) | None \<Rightarrow> Inl RlpIncorrectListLen)
      else if length ip_bytes = 16 then
        let ipv6 = v6_of_octets ip_bytes
        in if v6_is_loopback ipv6 then Inr (V6 ipv6)
           else (case v6_to_ipv4 ipv6 of Some ipv4 \<Rightarrow> Inr (V4 ipv4) | None \<Rightarrow> Inr (V6 ipv6))
      else Inl RlpIncorrectListLen)"

definition decode_body :: "'enr rlp \<Rightarrow> byte \<Rightarrow> nat \<Rightarrow> request_id \<Rightarrow> byte list \<Rightarrow> decoder_error + 'enr rpc_message" where
  "decode_body R msg_type list_len rid data =
     (if msg_type = 1 then
        if list_len \<noteq> 2 then Inl RlpIncorrectListLen
        else and_then (rlp_val_at_u64 R data 1) (\<lambda>enr_seq.
          Inr (Request \<lparr>req_id = rid, req_body = Ping enr_seq\<rparr>))
      else if msg_type = 2 then
        if list_len \<noteq> 4 then Inl RlpIncorrectListLen
        else and_then (rlp_val_at_bytes R data 2) (\<lambda>ip_bytes.
          and_then (decode_ip ip_bytes) (\<lambda>ip.
          and_then (rlp_val_at_u16 R data 3) (\<lambda>raw_port.
          if raw_port \<noteq> 0 then
            and_then (rlp_val_at_u64 R data 1) (\<lambda>enr_seq.
              Inr (Response \<lparr>resp_id = rid, resp_body = Pong enr_seq ip raw_port\<rparr>))
          else Inl (Custom ''PONG response port number invalid''))))
      else if msg_type = 3 then
        if list_len \<noteq> 2 then Inl RlpIncorrectListLen
        else and_then (rlp_list_at_u64 R data 1) (\<lambda>distances.
          if (\<exists>d\<in>set distances. 256 < d) then Inl (Custom ''FINDNODE request distance invalid'')
          else Inr (Request \<lparr>req_id = rid, req_body = FindNode distances\<rparr>))
      else if msg_type = 4 then
        if list_len \<noteq> 3 then Inl RlpIncorrectListLen
        else and_then (rlp_at R data 2) (\<lambda>enr_list_rlp.
          and_then (if rlp_is_empty R enr_list_rlp then Inr [] else rlp_as_enr_list R enr_list_rlp) (\<lambda>nodes.
          and_then (rlp_val_at_u64 R data 1) (\<lambda>total_n.
            Inr (Response \<lparr>resp_id = rid, resp_body = Nodes total_n nodes\<rparr>))))
      else if msg_type = 5 then
        if list_len \<noteq> 3 then Inl RlpIncorrectListLen
        else and_then (rlp_val_at_bytes R data 1) (\<lambda>protocol.
          and_then (rlp_val_at_bytes R data 2) (\<lambda>request.
            Inr (Request \<lparr>req_id = rid, req_body = TalkReq protocol request\<rparr>)))
      else if msg_type = 6 then
        if list_len \<noteq> 2 then Inl RlpIncorrectListLen
        else and_then (rlp_val_at_bytes R data 1) (\<lambda>response.
          Inr (Response \<lparr>resp_id = rid, resp_body = TalkResp response\<rparr>))
      else Inl (Custom ''Unknown RPC message type''))"

definition rpc_decode :: "'enr rlp \<Rightarrow> byte list \<Rightarrow> decoder_error + 'enr rpc_message" where
  "rpc_decode R data =
     (if length data < 3 then Inl RlpIsTooShort
      else
        let msg_type = hd data; data = tl data
        in and_then (and_then (rlp_item_count R data)
                      (\<lambda>size. if size < 2 then Inl RlpIncorrectListLen else Inr size)) (\<lambda>list_len.
           and_then (rlp_payload_info R data) (\<lambda>(header_len, value_len).
           if length data \<noteq> header_len + value_len then Inl RlpInconsistentLengthAndData
           else
             and_then (and_then (rlp_val_at_bytes R data 0) request_id_decode) (\<lambda>rid.
               decode_body R msg_type list_len rid data))))"

section \<open>Round trip\<close>

text \<open>The address a \<open>PONG\<close> carries after decoding: a mapped or compatible address becomes an IPv4 address.\<close>

fun normal_ip :: "ip_addr \<Rightarrow> ip_addr" where
  "normal_ip (V4 a) = V4 a"
| "normal_ip (V6 a) = (if v6_is_loopback a then V6 a else case v6_to_ipv4 a of Some b \<Rightarrow> V4 b | None \<Rightarrow> V6 a)"

fun normal_message :: "'enr rpc_message \<Rightarrow> 'enr rpc_message" where
  "normal_message (Request r) = Request r"
| "normal_message (Response r) =
     Response (case resp_body r of Pong s ip p \<Rightarrow> r\<lparr>resp_body := Pong s (normal_ip ip) p\<rparr> | _ \<Rightarrow> r)"

text \<open>What a peer accepts.\<close>

fun message_ok :: "'enr rpc_message \<Rightarrow> bool" where
  "message_ok (Request r) \<longleftrightarrow> length (as_bytes (req_id r)) \<le> 8 \<and>
     (case req_body r of FindNode ds \<Rightarrow> \<forall>d\<in>set ds. d \<le> 256 | _ \<Rightarrow> True)"
| "message_ok (Response r) \<longleftrightarrow> length (as_bytes (resp_id r)) \<le> 8 \<and>
     (case resp_body r of Pong s ip port \<Rightarrow> port \<noteq> 0 | _ \<Rightarrow> True)"

lemma rlp_lawsD:
  assumes "rlp_laws R"
  shows "length fs < length (rlp_out R fs)" "rlp_item_count R (rlp_out R fs) = Inr (length fs)"
    "\<exists>h v. rlp_payload_info R (rlp_out R fs) = Inr (h, v) \<and> h + v = length (rlp_out R fs)"
    "i < length fs \<Longrightarrow> fs ! i = FBytes b \<Longrightarrow> rlp_val_at_bytes R (rlp_out R fs) i = Inr b"
    "i < length fs \<Longrightarrow> fs ! i = FUint n \<Longrightarrow> rlp_val_at_u64 R (rlp_out R fs) i = Inr n"
    "i < length fs \<Longrightarrow> fs ! i = FUint (ucast m) \<Longrightarrow> rlp_val_at_u16 R (rlp_out R fs) i = Inr m"
    "i < length fs \<Longrightarrow> fs ! i = FUints ns \<Longrightarrow> rlp_list_at_u64 R (rlp_out R fs) i = Inr ns"
    "i < length fs \<Longrightarrow> fs ! i = FEnrs es \<Longrightarrow> \<exists>sub. rlp_at R (rlp_out R fs) i = Inr sub \<and>
       rlp_is_empty R sub = (es = []) \<and> (es \<noteq> [] \<longrightarrow> rlp_as_enr_list R sub = Inr es)"
  using assms by (auto simp: rlp_laws_def Let_def)

lemma rpc_decode_fields:
  assumes "rlp_laws R" "fs = FBytes b # gs" "gs \<noteq> []"
  shows "rpc_decode R (t # rlp_out R fs) =
    (if 8 < length b then Inl (Custom ''Invalid ID length'') else decode_body R t (length fs) (RequestId b) (rlp_out R fs))"
proof -
  note laws = rlp_lawsD [OF assms(1), where fs = fs]
  obtain h v where p: "rlp_payload_info R (rlp_out R fs) = Inr (h, v)" "h + v = length (rlp_out R fs)"
    using laws(3) by blast
  have "2 \<le> length fs" using assms(2,3) by (cases gs) auto
  moreover have "rlp_val_at_bytes R (rlp_out R fs) 0 = Inr b" using laws(4) [where i = 0 and b = b] by (simp add: assms(2))
  ultimately show ?thesis using laws(1,2) p
    by (simp add: rpc_decode_def Let_def request_id_decode_def)
qed

lemma decode_ip_octets: "decode_ip (ip_octets ip) = Inr (normal_ip ip)"
  by (cases ip) (simp_all add: decode_ip_def Let_def split: option.split)

lemma rpc_decode_encode:
  assumes "rlp_laws R" "message_ok m"
  shows "rpc_decode R (rpc_encode R m) = Inr (normal_message m)"
proof (cases m)
  case (Request r)
  obtain b body where r: "r = \<lparr>req_id = RequestId b, req_body = body\<rparr>"
    by (metis (full_types) old.unit.exhaust request.surjective request_id.exhaust)
  show ?thesis
    using assms(2) unfolding Request r
    by (cases body)
      (auto simp: request_encode_def rpc_decode_fields [OF assms(1) refl] decode_body_def rlp_lawsD [OF assms(1)]
        linorder_not_less)
next
  case (Response r)
  obtain b body where r: "r = \<lparr>resp_id = RequestId b, resp_body = body\<rparr>"
    by (metis (full_types) old.unit.exhaust response.surjective request_id.exhaust)
  show ?thesis
  proof (cases body)
    case (Nodes n es)
    obtain sub where "rlp_at R (rlp_out R [FBytes b, FUint n, FEnrs es]) 2 = Inr sub"
      "rlp_is_empty R sub = (es = [])" "es \<noteq> [] \<longrightarrow> rlp_as_enr_list R sub = Inr es"
      using rlp_lawsD(8) [OF assms(1), where i = 2 and fs = "[FBytes b, FUint n, FEnrs es]"] by auto
    then show ?thesis using assms(2) unfolding Response r Nodes
      by (auto simp: response_encode_def rpc_decode_fields [OF assms(1) refl] decode_body_def rlp_lawsD [OF assms(1)])
  qed (use assms(2) in \<open>auto simp: Response r response_encode_def rpc_decode_fields [OF assms(1) refl] decode_body_def
        rlp_lawsD [OF assms(1)] decode_ip_octets\<close>)
qed


lemma rpc_encode_rejected:
  assumes "rlp_laws R" "\<not> message_ok m"
  shows "\<exists>e. rpc_decode R (rpc_encode R m) = Inl (Custom e)"
proof (cases m)
  case (Request r)
  obtain b body where r: "r = \<lparr>req_id = RequestId b, req_body = body\<rparr>"
    by (metis (full_types) old.unit.exhaust request.surjective request_id.exhaust)
  show ?thesis
    using assms(2) unfolding Request r
    by (cases body)
      (auto simp: request_encode_def rpc_decode_fields [OF assms(1) refl] decode_body_def rlp_lawsD [OF assms(1)]
        linorder_not_less)
next
  case (Response r)
  obtain b body where r: "r = \<lparr>resp_id = RequestId b, resp_body = body\<rparr>"
    by (metis (full_types) old.unit.exhaust response.surjective request_id.exhaust)
  show ?thesis
    using assms(2) unfolding Response r
    by (cases body)
      (auto simp: response_encode_def rpc_decode_fields [OF assms(1) refl] decode_body_def rlp_lawsD [OF assms(1)]
        rlp_lawsD(6) [OF assms(1), where m = 0] decode_ip_octets)
qed

text \<open>
  C35. Round trip of messages: an encoded message whose request id has at most eight bytes, whose distances
  are at most 256 and whose port is not zero is decoded to the same message, with an IPv4 address that was
  written as an IPv6 address turned back; every other encoded message is refused.
\<close>

theorem rpc_roundtrip:
  assumes "rlp_laws R"
  shows "if message_ok m then rpc_decode R (rpc_encode R m) = Inr (normal_message m)
    else \<exists>e. rpc_decode R (rpc_encode R m) = Inl (Custom e)"
  using rpc_decode_encode [OF assms] rpc_encode_rejected [OF assms] by simp

lemma and_then_Inr: "and_then x f = Inr y \<longleftrightarrow> (\<exists>z. x = Inr z \<and> f z = Inr y)"
  by (cases x) auto

lemma decode_ip_normal: "decode_ip bs = Inr ip \<Longrightarrow> normal_ip ip = ip"
  by (auto simp: decode_ip_def Let_def split: if_splits option.splits)

lemma decode_body_ok:
  "decode_body R t n (RequestId b) data = Inr m \<Longrightarrow> length b \<le> 8 \<Longrightarrow> message_ok m \<and> normal_message m = m"
  by (auto simp: decode_body_def and_then_Inr linorder_not_less dest: decode_ip_normal split: if_splits)

text \<open>
  Whatever bytes arrive and however the RLP decoder answers, a decoded message has a request id of at
  most eight bytes, asks for no distance above 256, carries no port zero and no mapped IPv4 address.
\<close>

lemma rpc_decode_sound:
  assumes "rpc_decode R data = Inr m"
  shows "message_ok m \<and> normal_message m = m"
  using assms
  by (auto simp: rpc_decode_def Let_def and_then_Inr request_id_decode_def intro!: decode_body_ok split: if_splits)

lemma match_request_type: "match_request r req \<longleftrightarrow> response_msg_type (resp_body r) = request_msg_type req + 1"
  by (cases "resp_body r"; cases req) (simp_all add: match_request_def)

section \<open>Witnesses\<close>

text \<open>
  A simple self-delimiting encoding that satisfies the laws, with byte strings for node records: \<open>1\<close> before
  every element and \<open>0\<close> at the end.
\<close>

fun enc_bytes :: "byte list \<Rightarrow> byte list" where
  "enc_bytes [] = [0]"
| "enc_bytes (b # bs) = 1 # b # enc_bytes bs"

fun dec_bytes :: "byte list \<Rightarrow> (byte list \<times> byte list) option" where
  "dec_bytes (t # b # r) = (if t = 1 then map_option (map_prod (Cons b) (\<lambda>x. x)) (dec_bytes r) else Some ([], b # r))"
| "dec_bytes [t] = Some ([], [])"
| "dec_bytes [] = None"

lemma dec_enc_bytes [simp]: "dec_bytes (enc_bytes bs @ r) = Some (bs, r)"
  by (induction bs) (auto intro: list.exhaust [of r])

fun enc_list :: "byte list list \<Rightarrow> byte list" where
  "enc_list [] = [0]"
| "enc_list (x # xs) = 1 # enc_bytes x @ enc_list xs"

fun dec_list :: "nat \<Rightarrow> byte list \<Rightarrow> (byte list list \<times> byte list) option" where
  "dec_list (Suc n) (t # r) =
     (if t = 1 then Option.bind (dec_bytes r) (\<lambda>(x, r). map_option (map_prod (Cons x) (\<lambda>x. x)) (dec_list n r))
      else Some ([], r))"
| "dec_list _ _ = None"

lemma dec_enc_list [simp]: "length xs < n \<Longrightarrow> dec_list n (enc_list xs @ r) = Some (xs, r)"
proof (induction xs arbitrary: n)
  case Nil
  then show ?case by (cases n) auto
next
  case (Cons x xs)
  then show ?case by (cases n) auto
qed

lemma length_enc_list: "length xs < length (enc_list xs)"
  by (induction xs) auto

fun enc_field :: "byte list rlp_field \<Rightarrow> byte list" where
  "enc_field (FBytes b) = enc_list [b]"
| "enc_field (FUint n) = enc_list [word_bytes 8 n]"
| "enc_field (FUints ns) = enc_list (map (word_bytes 8) ns)"
| "enc_field (FEnrs es) = enc_list es"

definition dec_field :: "byte list \<Rightarrow> byte list list" where
  "dec_field bs = (case dec_list (length bs) bs of Some (xs, _) \<Rightarrow> xs | None \<Rightarrow> [])"

lemma dec_field_enc [simp]: "dec_field (enc_list xs) = xs"
  using dec_enc_list [of xs "length (enc_list xs)" "[]"] by (simp add: dec_field_def length_enc_list)

definition item :: "byte list \<Rightarrow> nat \<Rightarrow> byte list" where
  "item bs i = (if i < length (dec_field bs) then dec_field bs ! i else [])"

definition ex_rlp :: "byte list rlp" where
  "ex_rlp = \<lparr>rlp_out = (\<lambda>fs. enc_list (map enc_field fs)),
     rlp_item_count = (\<lambda>bs. Inr (length (dec_field bs))),
     rlp_payload_info = (\<lambda>bs. Inr (0, length bs)),
     rlp_val_at_bytes = (\<lambda>bs i. case dec_field (item bs i) of [b] \<Rightarrow> Inr b | _ \<Rightarrow> Inl (RlpOther 0)),
     rlp_val_at_u64 = (\<lambda>bs i. case dec_field (item bs i) of [b] \<Rightarrow> Inr (bytes_word b) | _ \<Rightarrow> Inl (RlpOther 0)),
     rlp_val_at_u16 = (\<lambda>bs i. case dec_field (item bs i) of [b] \<Rightarrow> Inr (bytes_word b) | _ \<Rightarrow> Inl (RlpOther 0)),
     rlp_list_at_u64 = (\<lambda>bs i. Inr (map bytes_word (dec_field (item bs i)))),
     rlp_at = (\<lambda>bs i. Inr (item bs i)),
     rlp_is_empty = (\<lambda>bs. dec_field bs = []),
     rlp_as_enr_list = (\<lambda>bs. Inr (dec_field bs))\<rparr>"

lemma bytes_word_ucast: "bytes_word (word_bytes 8 (ucast (n :: u16) :: u64)) = n"
proof -
  have "unat (ucast n :: u64) = unat n" by (simp add: unsigned_ucast_eq take_bit_nat_eq_self_iff order_less_trans [OF unsigned_less])
  moreover have "unat n < 2 ^ 16" using unsigned_less [of n] by simp
  ultimately show ?thesis by (simp add: bytes_word_def word_bytes_def be_val_be_bytes)
qed

lemma ex_rlp_laws: "rlp_laws ex_rlp"
proof -
  have i: "item (enc_list (map enc_field fs)) i = enc_field (fs ! i)" if "i < length fs" for fs i
    using that by (simp add: item_def)
  have "map (bytes_word \<circ> word_bytes 8) ns = (ns :: u64 list)" for ns
    by (rule map_idI) (simp add: bytes_word_bytes)
  then show ?thesis
    using length_enc_list [of "map enc_field _"]
    by (auto simp: rlp_laws_def ex_rlp_def Let_def i bytes_word_bytes bytes_word_ucast simp del: enc_list.simps)
qed

definition ex_message :: "byte list rpc_message" where
  "ex_message = Request \<lparr>req_id = RequestId [1, 2], req_body = FindNode [255, 256]\<rparr>"

lemma ex_message_ok: "message_ok ex_message"
  by (simp add: ex_message_def)

theorem rpc_roundtrip_witness:
  "rlp_laws ex_rlp \<and> rpc_decode ex_rlp (rpc_encode ex_rlp ex_message) = Inr ex_message"
  using rpc_roundtrip [OF ex_rlp_laws, of ex_message] ex_rlp_laws ex_message_ok
  by (simp add: ex_message_def)

end
