(* ===== verification/Disc_Node_Info.thy ===== *)
theory Disc_Node_Info
  imports Disc_Net
begin

text \<open>
  \<open>src/ipmode.rs\<close>, \<open>src/node_info.rs\<close> and \<open>src/permit_ban.rs\<close>: how a node is addressed, and the list of
  permitted and banned nodes. Node records and public keys are types of the \<open>enr\<close> crate; the record
  \<open>enr_ops\<close> holds the accessors the sources use. Contacts made from multiaddresses (a feature on
  \<open>libp2p\<close>) are in \<open>Disc_Multiaddr\<close>.
\<close>

section \<open>Node records\<close>

record ('enr, 'pk) enr_ops =
  enr_node_id :: "'enr \<Rightarrow> node_id"
  enr_seq :: "'enr \<Rightarrow> u64"
  enr_udp4_socket :: "'enr \<Rightarrow> (ipv4 \<times> u16) option"
  enr_udp6_socket :: "'enr \<Rightarrow> (ipv6 \<times> u16 \<times> u32 \<times> u32) option"
  enr_public_key :: "'enr \<Rightarrow> 'pk"
  pk_node_id :: "'pk \<Rightarrow> node_id"

text \<open>The node id of a record is the one of its public key.\<close>

definition enr_ops_laws :: "('enr, 'pk) enr_ops \<Rightarrow> bool" where
  "enr_ops_laws N \<longleftrightarrow> (\<forall>e. enr_node_id N e = pk_node_id N (enr_public_key N e))"

section \<open>Address families\<close>

datatype ip_mode = Ip4 | Ip6 | DualStack

fun is_ipv4 :: "ip_mode \<Rightarrow> bool" where
  "is_ipv4 Ip4 = True"
| "is_ipv4 _ = False"

definition to_ipv4_mapped :: "ipv6 \<Rightarrow> ipv4 option" where
  "to_ipv4_mapped ip =
     (case v6_octets ip of
        [o0, o1, o2, o3, o4, o5, o6, o7, o8, o9, oa, ob, a, b, c, d] \<Rightarrow>
          if [o0, o1, o2, o3, o4, o5, o6, o7, o8, o9] = replicate 10 0 \<and> oa = 255 \<and> ob = 255
          then Some (a, b, c, d) else None
      | _ \<Rightarrow> None)"

definition canonical_ipv6_enr_addr :: "('enr, 'pk) enr_ops \<Rightarrow> 'enr \<Rightarrow> (ipv6 \<times> u16 \<times> u32 \<times> u32) option" where
  "canonical_ipv6_enr_addr N enr =
     Option.bind (enr_udp6_socket N enr)
       (\<lambda>socket_addr. if to_ipv4_mapped (fst socket_addr) \<noteq> None then None else Some socket_addr)"

definition v4_socket :: "ipv4 \<times> u16 \<Rightarrow> socket_addr" where
  "v4_socket s = (case s of (a, p) \<Rightarrow> SocketV4 a p)"

definition v6_socket :: "ipv6 \<times> u16 \<times> u32 \<times> u32 \<Rightarrow> socket_addr" where
  "v6_socket s = (case s of (a, p, f, i) \<Rightarrow> SocketV6 a p f i)"

fun get_contactable_addr :: "('enr, 'pk) enr_ops \<Rightarrow> ip_mode \<Rightarrow> 'enr \<Rightarrow> socket_addr option" where
  "get_contactable_addr N Ip4 enr = map_option v4_socket (enr_udp4_socket N enr)"
| "get_contactable_addr N Ip6 enr = map_option v6_socket (canonical_ipv6_enr_addr N enr)"
| "get_contactable_addr N DualStack enr =
     (case map_option v6_socket (canonical_ipv6_enr_addr N enr) of
        Some a \<Rightarrow> Some a
      | None \<Rightarrow> map_option v4_socket (enr_udp4_socket N enr))"

section \<open>Contacts\<close>

record node_address =
  na_socket_addr :: socket_addr
  na_node_id :: node_id

record ('enr, 'pk) node_contact =
  nc_public_key :: 'pk
  nc_socket_addr :: socket_addr
  nc_enr :: "'enr option"

definition nc_node_id :: "('enr, 'pk) enr_ops \<Rightarrow> ('enr, 'pk) node_contact \<Rightarrow> node_id" where
  "nc_node_id N c = pk_node_id N (nc_public_key c)"

definition nc_seq_no :: "('enr, 'pk) enr_ops \<Rightarrow> ('enr, 'pk) node_contact \<Rightarrow> u64 option" where
  "nc_seq_no N c = map_option (enr_seq N) (nc_enr c)"

definition nc_node_address :: "('enr, 'pk) enr_ops \<Rightarrow> ('enr, 'pk) node_contact \<Rightarrow> node_address" where
  "nc_node_address N c = \<lparr>na_socket_addr = nc_socket_addr c, na_node_id = nc_node_id N c\<rparr>"

definition to_address_and_enr ::
  "('enr, 'pk) enr_ops \<Rightarrow> ('enr, 'pk) node_contact \<Rightarrow> node_address \<times> 'enr option" where
  "to_address_and_enr N c =
     (\<lparr>na_socket_addr = nc_socket_addr c, na_node_id = pk_node_id N (nc_public_key c)\<rparr>, nc_enr c)"

text \<open>The error \<open>NonContactable\<close> holds the record.\<close>

definition try_from_enr :: "('enr, 'pk) enr_ops \<Rightarrow> 'enr \<Rightarrow> ip_mode \<Rightarrow> 'enr + ('enr, 'pk) node_contact" where
  "try_from_enr N enr ip_mode =
     (case get_contactable_addr N ip_mode enr of
        None \<Rightarrow> Inl enr
      | Some socket_addr \<Rightarrow>
          Inr \<lparr>nc_public_key = enr_public_key N enr, nc_socket_addr = socket_addr, nc_enr = Some enr\<rparr>)"

section \<open>Permitted and banned nodes\<close>

record permit_ban_list =
  permit_ips :: "ip_addr set"
  ban_ips :: "ip_addr \<rightharpoonup> instant option"
  permit_nodes :: "node_id set"
  ban_nodes :: "node_id \<rightharpoonup> instant option"

definition pb_ban :: "node_address \<Rightarrow> instant option \<Rightarrow> permit_ban_list \<Rightarrow> permit_ban_list" where
  "pb_ban node_address time_to_unban l =
     l\<lparr>ban_ips := (ban_ips l)(sa_ip (na_socket_addr node_address) \<mapsto> time_to_unban),
       ban_nodes := (ban_nodes l)(na_node_id node_address \<mapsto> time_to_unban)\<rparr>"

section \<open>Contactable addresses\<close>

lemma try_from_enr_address:
  assumes "enr_ops_laws N" "try_from_enr N enr mode = Inr c"
  shows "na_node_id (nc_node_address N c) = enr_node_id N enr \<and> nc_enr c = Some enr \<and>
    get_contactable_addr N mode enr = Some (na_socket_addr (nc_node_address N c))"
  using assms
  by (auto simp: try_from_enr_def nc_node_address_def nc_node_id_def enr_ops_laws_def split: option.splits)

text \<open>A contactable address is of the family the mode admits and never a mapped address.\<close>

fun addr_of_mode :: "ip_mode \<Rightarrow> socket_addr \<Rightarrow> bool" where
  "addr_of_mode Ip6 (SocketV4 _ _) = False"
| "addr_of_mode Ip4 (SocketV6 _ _ _ _) = False"
| "addr_of_mode _ (SocketV6 a _ _ _) = (to_ipv4_mapped a = None)"
| "addr_of_mode _ (SocketV4 _ _) = True"

lemma contactable_addr_of_mode: "get_contactable_addr N mode enr = Some s \<Longrightarrow> addr_of_mode mode s"
  by (cases mode)
    (auto simp: canonical_ipv6_enr_addr_def v4_socket_def v6_socket_def bind_eq_Some_conv simp del: not_None_eq
      split: option.splits if_splits)

end
