(* ===== verification/Disc_Active_Requests.thy ===== *)
theory Disc_Active_Requests
  imports Disc_Packet Disc_Rpc Disc_Node_Info
begin

text \<open>
  \<open>src/handler/request_call.rs\<close> and \<open>src/handler/active_requests.rs\<close>: the requests that await a response,
  by the address of the peer, and the mapping from the nonce of the packet sent to that address, by which a
  WHOAREYOU packet is matched with the request it answers.

  The nonce mapping is a \<open>HashMapDelay\<close> of the \<open>delay_map\<close> crate, a hash map whose entries expire. Its
  operations are the record \<open>delay_map\<close>; those that use the time take the instant. \<open>delay_map_laws\<close> states
  them by the lookup: an insertion is only described for a key that is absent. \<open>debug_unreachable!\<close> is a
  panic in builds with debug assertions and is modelled as one.
\<close>

section \<open>Requests that await a response\<close>

datatype handler_req_id = Internal request_id | External request_id

fun request_id_of :: "handler_req_id \<Rightarrow> request_id" where
  "request_id_of (Internal i) = i"
| "request_id_of (External i) = i"

record ('enr, 'pk) request_call =
  rc_contact :: "('enr, 'pk) node_contact"
  rc_packet :: "'enr packet"
  rc_request_id :: handler_req_id
  rc_request :: request_body
  rc_handshake_sent :: bool
  rc_retries :: nat
  rc_remaining_responses :: "u64 option"
  rc_initiating_session :: bool

definition rc_new ::
  "('enr, 'pk) node_contact \<Rightarrow> 'enr packet \<Rightarrow> handler_req_id \<Rightarrow> request_body \<Rightarrow> bool \<Rightarrow> ('enr, 'pk) request_call" where
  "rc_new contact packet rid request initiating_session =
     \<lparr>rc_contact = contact, rc_packet = packet, rc_request_id = rid, rc_request = request,
      rc_handshake_sent = False, rc_retries = 1, rc_remaining_responses = None,
      rc_initiating_session = initiating_session\<rparr>"

definition packet_nonce :: "'enr packet \<Rightarrow> message_nonce" where
  "packet_nonce p = message_nonce (packet_header p)"

definition rc_nonce :: "('enr, 'pk) request_call \<Rightarrow> message_nonce" where
  "rc_nonce c = packet_nonce (rc_packet c)"

definition rc_encode :: "'enr rlp \<Rightarrow> ('enr, 'pk) request_call \<Rightarrow> byte list" where
  "rc_encode R c = request_encode R \<lparr>req_id = request_id_of (rc_request_id c), req_body = rc_request c\<rparr>"

text \<open>The counter is a \<open>u8\<close>.\<close>

definition increment_retries :: "('enr, 'pk) request_call \<Rightarrow> ('enr, 'pk) request_call option" where
  "increment_retries c = (if rc_retries c < 255 then Some (c\<lparr>rc_retries := rc_retries c + 1\<rparr>) else None)"

definition rc_update_packet :: "'enr packet \<Rightarrow> ('enr, 'pk) request_call \<Rightarrow> ('enr, 'pk) request_call" where
  "rc_update_packet packet c = c\<lparr>rc_packet := packet\<rparr>"

section \<open>The delay map\<close>

datatype ('k, 'v) polled = PollPending | PollEnded | PollFailure string | PollExpired 'k 'v

record ('m, 'k, 'v) delay_map =
  dm_new :: "duration \<Rightarrow> 'm"
  dm_insert :: "instant \<Rightarrow> 'k \<Rightarrow> 'v \<Rightarrow> 'm \<Rightarrow> 'm"
  dm_remove :: "'k \<Rightarrow> 'm \<Rightarrow> 'v option \<times> 'm"
  dm_get :: "'k \<Rightarrow> 'm \<Rightarrow> 'v option"
  dm_poll :: "instant \<Rightarrow> 'm \<Rightarrow> ('k, 'v) polled \<times> 'm"

definition delay_map_laws :: "('m, 'k, 'v) delay_map \<Rightarrow> bool" where
  "delay_map_laws D \<longleftrightarrow>
     (\<forall>d k. dm_get D k (dm_new D d) = None) \<and>
     (\<forall>now k v m k'. dm_get D k m = None \<longrightarrow>
        dm_get D k' (dm_insert D now k v m) = (if k' = k then Some v else dm_get D k' m)) \<and>
     (\<forall>k m. fst (dm_remove D k m) = dm_get D k m) \<and>
     (\<forall>k m k'. dm_get D k' (snd (dm_remove D k m)) = (if k' = k then None else dm_get D k' m)) \<and>
     (\<forall>now m k v m'. dm_poll D now m = (PollExpired k v, m') \<longrightarrow> dm_get D k m = Some v \<and>
        (\<forall>k'. dm_get D k' m' = (if k' = k then None else dm_get D k' m))) \<and>
     (\<forall>now m r m'. dm_poll D now m = (r, m') \<and> r \<in> {PollPending, PollEnded} \<union> range PollFailure \<longrightarrow>
        (\<forall>k'. dm_get D k' m' = dm_get D k' m))"

section \<open>The mappings\<close>

record ('m, 'enr, 'pk) active_requests =
  ar_mapping :: "node_address \<rightharpoonup> ('enr, 'pk) request_call list"
  ar_nonces :: 'm

type_synonym 'm nonce_map = "('m, message_nonce, node_address) delay_map"

definition ar_new :: "'m nonce_map \<Rightarrow> duration \<Rightarrow> ('m, 'enr, 'pk) active_requests" where
  "ar_new D request_timeout = \<lparr>ar_mapping = Map.empty, ar_nonces = dm_new D request_timeout\<rparr>"

definition ar_insert ::
  "'m nonce_map \<Rightarrow> instant \<Rightarrow> node_address \<Rightarrow> ('enr, 'pk) request_call \<Rightarrow> ('m, 'enr, 'pk) active_requests
     \<Rightarrow> ('m, 'enr, 'pk) active_requests" where
  "ar_insert D now addr call ar =
     (let nonce = rc_nonce call;
          requests = (case ar_mapping ar addr of Some cs \<Rightarrow> cs | None \<Rightarrow> [])
      in ar\<lparr>ar_mapping := (ar_mapping ar)(addr \<mapsto> requests @ [call]),
            ar_nonces := dm_insert D now nonce addr (ar_nonces ar)\<rparr>)"

definition ar_update_packet ::
  "'m nonce_map \<Rightarrow> instant \<Rightarrow> message_nonce \<Rightarrow> 'enr packet \<Rightarrow> ('m, 'enr, 'pk) active_requests
     \<Rightarrow> ('m, 'enr, 'pk) active_requests option" where
  "ar_update_packet D now old_nonce new_packet ar =
     (case dm_remove D old_nonce (ar_nonces ar) of
        (None, _) \<Rightarrow> None
      | (Some addr, nonces) \<Rightarrow>
          let nonces = dm_insert D now (packet_nonce new_packet) addr nonces
          in case ar_mapping ar addr of
               None \<Rightarrow> None
             | Some requests \<Rightarrow>
                 (case position (\<lambda>c. rc_nonce c = old_nonce) requests of
                    None \<Rightarrow> None
                  | Some i \<Rightarrow>
                      Some (ar\<lparr>ar_mapping := (ar_mapping ar)(addr \<mapsto>
                                 requests[i := rc_update_packet new_packet (requests ! i)]),
                               ar_nonces := nonces\<rparr>)))"

definition ar_get :: "node_address \<Rightarrow> ('m, 'enr, 'pk) active_requests \<Rightarrow> ('enr, 'pk) request_call list option" where
  "ar_get addr ar = ar_mapping ar addr"

text \<open>A vector that becomes empty is removed from the mapping.\<close>

definition keep_nonempty :: "'a list \<Rightarrow> 'a list option" where
  "keep_nonempty xs = (if xs = [] then None else Some xs)"

definition ar_remove_by_nonce ::
  "'m nonce_map \<Rightarrow> message_nonce \<Rightarrow> ('m, 'enr, 'pk) active_requests
     \<Rightarrow> ((node_address \<times> ('enr, 'pk) request_call) option \<times> ('m, 'enr, 'pk) active_requests) option" where
  "ar_remove_by_nonce D nonce ar =
     (case dm_remove D nonce (ar_nonces ar) of
        (None, nonces) \<Rightarrow> Some (None, ar\<lparr>ar_nonces := nonces\<rparr>)
      | (Some addr, nonces) \<Rightarrow>
          (case ar_mapping ar addr of
             None \<Rightarrow> None
           | Some requests \<Rightarrow> do {
               (result, requests) \<leftarrow>
                 (case position (\<lambda>c. rc_nonce c = nonce) requests of
                    None \<Rightarrow> Some (None, requests)
                  | Some i \<Rightarrow> do {
                      (call, requests) \<leftarrow> vec_remove i requests;
                      Some (Some (addr, call), requests)
                    });
               Some (result, ar\<lparr>ar_mapping := (ar_mapping ar)(addr := keep_nonempty requests),
                                ar_nonces := nonces\<rparr>)
             }))"

fun remove_nonces :: "'m nonce_map \<Rightarrow> ('enr, 'pk) request_call list \<Rightarrow> 'm \<Rightarrow> 'm option" where
  "remove_nonces D [] m = Some m"
| "remove_nonces D (c # cs) m =
     (case dm_remove D (rc_nonce c) m of
        (None, _) \<Rightarrow> None
      | (Some _, m') \<Rightarrow> remove_nonces D cs m')"

definition ar_remove_requests ::
  "'m nonce_map \<Rightarrow> node_address \<Rightarrow> ('m, 'enr, 'pk) active_requests
     \<Rightarrow> (('enr, 'pk) request_call list option \<times> ('m, 'enr, 'pk) active_requests) option" where
  "ar_remove_requests D addr ar =
     (case ar_mapping ar addr of
        None \<Rightarrow> Some (None, ar)
      | Some requests \<Rightarrow>
          if requests = [] then None
          else do {
            nonces \<leftarrow> remove_nonces D requests (ar_nonces ar);
            Some (Some requests, ar\<lparr>ar_mapping := (ar_mapping ar)(addr := None), ar_nonces := nonces\<rparr>)
          })"

definition ar_remove_request ::
  "'m nonce_map \<Rightarrow> node_address \<Rightarrow> request_id \<Rightarrow> ('m, 'enr, 'pk) active_requests
     \<Rightarrow> (('enr, 'pk) request_call option \<times> ('m, 'enr, 'pk) active_requests) option" where
  "ar_remove_request D addr rid ar =
     (case ar_mapping ar addr of
        None \<Rightarrow> Some (None, ar)
      | Some requests \<Rightarrow>
          (case position (\<lambda>c. request_id_of (rc_request_id c) = rid) requests of
             None \<Rightarrow> Some (None, ar)
           | Some i \<Rightarrow> do {
               (call, requests) \<leftarrow> vec_remove i requests;
               Some (Some call,
                     ar\<lparr>ar_mapping := (ar_mapping ar)(addr := keep_nonempty requests),
                        ar_nonces := snd (dm_remove D (rc_nonce call) (ar_nonces ar))\<rparr>)
             }))"

definition ar_poll_next ::
  "'m nonce_map \<Rightarrow> instant \<Rightarrow> ('m, 'enr, 'pk) active_requests
     \<Rightarrow> ((node_address, ('enr, 'pk) request_call) polled \<times> ('m, 'enr, 'pk) active_requests) option" where
  "ar_poll_next D now ar =
     (case dm_poll D now (ar_nonces ar) of
        (PollExpired nonce addr, nonces) \<Rightarrow>
          let ar = ar\<lparr>ar_nonces := nonces\<rparr>
          in case ar_mapping ar addr of
               None \<Rightarrow> Some (PollEnded, ar)
             | Some requests \<Rightarrow>
                 (case position (\<lambda>c. rc_nonce c = nonce) requests of
                    None \<Rightarrow> Some (PollEnded, ar)
                  | Some i \<Rightarrow> do {
                      (call, requests) \<leftarrow> vec_remove i requests;
                      Some (PollExpired addr call,
                            ar\<lparr>ar_mapping := (ar_mapping ar)(addr := keep_nonempty requests)\<rparr>)
                    })
      | (PollFailure e, nonces) \<Rightarrow> Some (PollFailure e, ar\<lparr>ar_nonces := nonces\<rparr>)
      | (PollEnded, nonces) \<Rightarrow> Some (PollEnded, ar\<lparr>ar_nonces := nonces\<rparr>)
      | (PollPending, nonces) \<Rightarrow> Some (PollPending, ar\<lparr>ar_nonces := nonces\<rparr>))"

section \<open>The two mappings agree\<close>

definition ar_calls :: "('m, 'enr, 'pk) active_requests \<Rightarrow> node_address \<Rightarrow> ('enr, 'pk) request_call list" where
  "ar_calls ar addr = (case ar_mapping ar addr of Some cs \<Rightarrow> cs | None \<Rightarrow> [])"

definition ar_inv :: "'m nonce_map \<Rightarrow> ('m, 'enr, 'pk) active_requests \<Rightarrow> bool" where
  "ar_inv D ar \<longleftrightarrow>
     (\<forall>n a. dm_get D n (ar_nonces ar) = Some a \<longleftrightarrow> n \<in> rc_nonce ` set (ar_calls ar a)) \<and>
     (\<forall>a. distinct (map rc_nonce (ar_calls ar a))) \<and>
     (\<forall>a. ar_mapping ar a \<noteq> Some [])"

lemma delay_map_lawsD:
  assumes "delay_map_laws D"
  shows "dm_get D k (dm_new D d) = None"
    "dm_get D k m = None \<Longrightarrow> dm_get D k' (dm_insert D now k v m) = (if k' = k then Some v else dm_get D k' m)"
    "fst (dm_remove D k m) = dm_get D k m"
    "dm_get D k' (snd (dm_remove D k m)) = (if k' = k then None else dm_get D k' m)"
  using assms by (simp_all add: delay_map_laws_def)

lemma dm_removeE:
  assumes "delay_map_laws D"
  obtains m' where "dm_remove D k m = (dm_get D k m, m')" "\<And>k'. dm_get D k' m' = (if k' = k then None else dm_get D k' m)"
  using that [of "snd (dm_remove D k m)"] delay_map_lawsD(3,4) [OF assms] by (metis prod.collapse)

lemma dm_poll_cases:
  assumes "delay_map_laws D"
  obtains (expired) k v m' where "dm_poll D now m = (PollExpired k v, m')" "dm_get D k m = Some v"
      "\<And>k'. dm_get D k' m' = (if k' = k then None else dm_get D k' m)"
  | (other) r m' where "dm_poll D now m = (r, m')" "r = PollPending \<or> r = PollEnded \<or> (\<exists>e. r = PollFailure e)"
      "\<And>k'. dm_get D k' m' = dm_get D k' m"
proof -
  obtain r m' where r: "dm_poll D now m = (r, m')" by fastforce
  have o: "dm_get D k' m' = dm_get D k' m" if "r \<in> {PollPending, PollEnded} \<union> range PollFailure" for k'
    using assms r that unfolding delay_map_laws_def by blast
  show thesis
  proof (cases r)
    case (PollExpired k v)
    with r assms show thesis by (intro expired) (auto simp: delay_map_laws_def)
  qed (use other [OF r] o in auto)
qed

lemma ar_calls_keep_nonempty [simp]:
  "(case keep_nonempty xs of Some cs \<Rightarrow> cs | None \<Rightarrow> []) = xs" "keep_nonempty xs \<noteq> Some []"
  by (simp_all add: keep_nonempty_def)

text \<open>Removing the element found at a position is filtering it out when its image is unique.\<close>

lemma vec_remove_position:
  assumes "position P xs = Some i" "distinct (map f xs)"
  obtains x where "P x" "x \<in> set xs" "xs ! i = x" "vec_remove i xs = Some (x, filter (\<lambda>y. f y \<noteq> f x) xs)"
proof -
  from assms(1) obtain ys y zs where s: "xs = ys @ y # zs" "length ys = i" "P y" by (rule position_split)
  moreover have "f y \<notin> f ` set ys" "f y \<notin> f ` set zs" using assms(2) by (simp_all add: s)
  then have "filter (\<lambda>x. f x \<noteq> f y) ys = ys" "filter (\<lambda>x. f x \<noteq> f y) zs = zs"
    unfolding filter_id_conv by (metis image_eqI)+
  ultimately show thesis using that [of y] by (simp add: vec_simps nth_append)
qed

lemma ar_invD:
  assumes "ar_inv D ar"
  shows "dm_get D n (ar_nonces ar) = Some a \<longleftrightarrow> n \<in> rc_nonce ` set (ar_calls ar a)"
    "distinct (map rc_nonce (ar_calls ar a))" "ar_mapping ar a \<noteq> Some []"
  using assms by (simp_all add: ar_inv_def)

lemma ar_mapping_calls: "ar_inv D ar \<Longrightarrow> ar_mapping ar a = keep_nonempty (ar_calls ar a)"
  by (auto simp: ar_calls_def keep_nonempty_def ar_inv_def split: option.split)

lemma ar_new_spec:
  assumes "delay_map_laws D"
  shows "ar_inv D (ar_new D d :: ('m, 'enr, 'pk) active_requests)" "ar_calls (ar_new D d) a = []"
  by (simp_all add: ar_inv_def ar_new_def ar_calls_def delay_map_lawsD [OF assms])

lemma ar_insert_spec:
  assumes "delay_map_laws D" "ar_inv D ar" "dm_get D (rc_nonce call) (ar_nonces ar) = None"
  shows "ar_inv D (ar_insert D now a call ar) \<and>
    ar_calls (ar_insert D now a call ar) = (ar_calls ar)(a := ar_calls ar a @ [call])"
proof -
  have c: "ar_calls (ar_insert D now a call ar) = (ar_calls ar)(a := ar_calls ar a @ [call])"
    by (auto simp: ar_calls_def ar_insert_def Let_def fun_eq_iff)
  have n: "rc_nonce call \<notin> rc_nonce ` set (ar_calls ar b)" for b
    using assms(3) ar_invD(1) [OF assms(2), of "rc_nonce call" b] by auto
  have "ar_inv D (ar_insert D now a call ar)"
    unfolding ar_inv_def c using n ar_invD [OF assms(2)] assms(3)
    by (auto simp: ar_insert_def Let_def delay_map_lawsD(2) [OF assms(1,3)])
  with c show ?thesis by blast
qed

text \<open>Taking one call away, with its nonce.\<close>

lemma ar_inv_removed:
  assumes "ar_inv D ar" "c \<in> set (ar_calls ar a)"
    "\<And>n. dm_get D n m' = (if n = rc_nonce c then None else dm_get D n (ar_nonces ar))"
  defines "ar' \<equiv> ar\<lparr>ar_mapping := (ar_mapping ar)(a := keep_nonempty (filter (\<lambda>x. rc_nonce x \<noteq> rc_nonce c) (ar_calls ar a))),
     ar_nonces := m'\<rparr>"
  shows "ar_inv D ar' \<and> ar_calls ar' = (ar_calls ar)(a := filter (\<lambda>x. rc_nonce x \<noteq> rc_nonce c) (ar_calls ar a))"
proof -
  have c: "ar_calls ar' = (ar_calls ar)(a := filter (\<lambda>x. rc_nonce x \<noteq> rc_nonce c) (ar_calls ar a))"
    by (auto simp: ar_calls_def ar'_def fun_eq_iff)
  have a: "dm_get D (rc_nonce c) (ar_nonces ar) = Some a" using ar_invD(1) [OF assms(1)] assms(2) by auto
  have "rc_nonce c \<notin> rc_nonce ` set (ar_calls ar b)" if "b \<noteq> a" for b
    using a that ar_invD(1) [OF assms(1), of "rc_nonce c" b] by auto
  then have "ar_inv D ar'"
    unfolding ar_inv_def c using ar_invD [OF assms(1)]
    by (auto simp: ar'_def assms(3) distinct_map_filter)
  with c show ?thesis by blast
qed

lemma ar_inv_nonces:
  assumes "ar_inv D ar" "\<And>n. dm_get D n m' = dm_get D n (ar_nonces ar)"
  shows "ar_inv D (ar\<lparr>ar_nonces := m'\<rparr>) \<and> ar_calls (ar\<lparr>ar_nonces := m'\<rparr>) = ar_calls ar"
proof -
  have "ar_calls (ar\<lparr>ar_nonces := m'\<rparr>) = ar_calls ar" by (simp add: ar_calls_def fun_eq_iff)
  then show ?thesis using assms by (simp add: ar_inv_def)
qed

lemma ar_remove_by_nonce_spec:
  assumes "delay_map_laws D" "ar_inv D ar"
  obtains (none) ar' where "ar_remove_by_nonce D n ar = Some (None, ar')" "ar_inv D ar'" "ar_calls ar' = ar_calls ar"
      "\<And>a. n \<notin> rc_nonce ` set (ar_calls ar a)"
  | (found) a c ar' where "ar_remove_by_nonce D n ar = Some (Some (a, c), ar')" "ar_inv D ar'"
      "c \<in> set (ar_calls ar a)" "rc_nonce c = n"
      "ar_calls ar' = (ar_calls ar)(a := filter (\<lambda>x. rc_nonce x \<noteq> n) (ar_calls ar a))"
proof (cases "dm_get D n (ar_nonces ar)")
  case None
  obtain m' where m': "dm_remove D n (ar_nonces ar) = (dm_get D n (ar_nonces ar), m')"
    "\<And>k'. dm_get D k' m' = (if k' = n then None else dm_get D k' (ar_nonces ar))"
    by (rule dm_removeE [OF assms(1), of n "ar_nonces ar"]) simp
  let ?ar = "ar\<lparr>ar_nonces := m'\<rparr>"
  have r: "ar_remove_by_nonce D n ar = Some (None, ?ar)" by (simp add: ar_remove_by_nonce_def m'(1) None)
  have i: "ar_inv D ?ar \<and> ar_calls ?ar = ar_calls ar"
    by (rule ar_inv_nonces [OF assms(2)]) (simp add: m'(2) None)
  have "n \<notin> rc_nonce ` set (ar_calls ar a)" for a using None ar_invD(1) [OF assms(2), of n a] by auto
  then show thesis by (rule none [OF r conjunct1 [OF i] conjunct2 [OF i]])
next
  case (Some a)
  then have n: "n \<in> rc_nonce ` set (ar_calls ar a)" using ar_invD(1) [OF assms(2)] by blast
  then have m: "ar_mapping ar a = Some (ar_calls ar a)"
    by (auto simp: ar_mapping_calls [OF assms(2)] keep_nonempty_def)
  from n obtain i where i: "position (\<lambda>c. rc_nonce c = n) (ar_calls ar a) = Some i"
    by (cases "position (\<lambda>c. rc_nonce c = n) (ar_calls ar a)") auto
  obtain c where c: "rc_nonce c = n" "c \<in> set (ar_calls ar a)"
      "vec_remove i (ar_calls ar a) = Some (c, filter (\<lambda>y. rc_nonce y \<noteq> rc_nonce c) (ar_calls ar a))"
    by (rule vec_remove_position [OF i ar_invD(2) [OF assms(2), of a]])
  obtain m' where m': "dm_remove D n (ar_nonces ar) = (dm_get D n (ar_nonces ar), m')"
    "\<And>k'. dm_get D k' m' = (if k' = n then None else dm_get D k' (ar_nonces ar))"
    by (rule dm_removeE [OF assms(1), of n "ar_nonces ar"]) simp
  let ?ar = "ar\<lparr>ar_mapping := (ar_mapping ar)(a := keep_nonempty (filter (\<lambda>y. rc_nonce y \<noteq> rc_nonce c) (ar_calls ar a))),
    ar_nonces := m'\<rparr>"
  have r: "ar_remove_by_nonce D n ar = Some (Some (a, c), ?ar)"
    by (simp add: ar_remove_by_nonce_def m'(1) Some m i c(3))
  have "dm_get D k m' = (if k = rc_nonce c then None else dm_get D k (ar_nonces ar))" for k
    by (simp add: m'(2) c(1))
  note * = ar_inv_removed [OF assms(2) c(2) this]
  show thesis by (rule found [OF r conjunct1 [OF *] c(2,1)]) (use * c(1) in simp)
qed

lemma remove_nonces_spec:
  assumes "delay_map_laws D" "distinct (map rc_nonce cs)" "\<forall>c\<in>set cs. dm_get D (rc_nonce c) m \<noteq> None"
  obtains m' where "remove_nonces D cs m = Some m'"
    "\<And>n. dm_get D n m' = (if n \<in> rc_nonce ` set cs then None else dm_get D n m)"
  using assms(2,3)
proof (induction cs arbitrary: m thesis)
  case (Cons c cs)
  from Cons.prems(3) obtain a where a: "dm_get D (rc_nonce c) m = Some a" by auto
  obtain m1 where m1: "dm_remove D (rc_nonce c) m = (dm_get D (rc_nonce c) m, m1)"
    "\<And>n. dm_get D n m1 = (if n = rc_nonce c then None else dm_get D n m)"
    by (rule dm_removeE [OF assms(1), of "rc_nonce c" m]) simp
  have d: "distinct (map rc_nonce cs)" "rc_nonce c \<notin> rc_nonce ` set cs" using Cons.prems(2) by simp_all
  have "dm_get D (rc_nonce x) m1 \<noteq> None" if "x \<in> set cs" for x
  proof -
    have "rc_nonce x \<noteq> rc_nonce c" using d(2) imageI [OF that, of rc_nonce] by metis
    then show ?thesis using Cons.prems(3) that by (simp add: m1(2))
  qed
  with d(1) have "distinct (map rc_nonce cs)" "\<forall>c\<in>set cs. dm_get D (rc_nonce c) m1 \<noteq> None" by blast+
  with Cons.IH [of m1] obtain m' where "remove_nonces D cs m1 = Some m'"
    "\<And>n. dm_get D n m' = (if n \<in> rc_nonce ` set cs then None else dm_get D n m1)" by blast
  then show ?case using Cons.prems(1) [of m'] by (simp add: m1 a)
qed simp

lemma ar_remove_requests_spec:
  assumes "delay_map_laws D" "ar_inv D ar"
  obtains ar' where "ar_remove_requests D a ar = Some (keep_nonempty (ar_calls ar a), ar')" "ar_inv D ar'"
    "ar_calls ar' = (ar_calls ar)(a := [])"
proof (cases "ar_calls ar a = []")
  case True
  then have "ar_mapping ar a = None" by (simp add: ar_mapping_calls [OF assms(2)] keep_nonempty_def)
  moreover have "ar_calls ar = (ar_calls ar)(a := [])" using True by (simp add: fun_upd_idem)
  ultimately show thesis using that [of ar] True assms(2)
    by (simp add: ar_remove_requests_def keep_nonempty_def)
next
  case False
  then have m: "ar_mapping ar a = Some (ar_calls ar a)" by (simp add: ar_mapping_calls [OF assms(2)] keep_nonempty_def)
  have g: "\<forall>c\<in>set (ar_calls ar a). dm_get D (rc_nonce c) (ar_nonces ar) = Some a"
    using ar_invD(1) [OF assms(2)] by auto
  then obtain m' where m': "remove_nonces D (ar_calls ar a) (ar_nonces ar) = Some m'"
    "\<And>n. dm_get D n m' = (if n \<in> rc_nonce ` set (ar_calls ar a) then None else dm_get D n (ar_nonces ar))"
    using remove_nonces_spec [OF assms(1) ar_invD(2) [OF assms(2)]] by (metis option.discI)
  let ?ar = "ar\<lparr>ar_mapping := (ar_mapping ar)(a := None), ar_nonces := m'\<rparr>"
  have c: "ar_calls ?ar = (ar_calls ar)(a := [])" by (auto simp: ar_calls_def fun_eq_iff)
  have "dm_get D n m' = Some b \<longleftrightarrow> b \<noteq> a \<and> n \<in> rc_nonce ` set (ar_calls ar b)" for n b
    using ar_invD(1) [OF assms(2), of n b] ar_invD(1) [OF assms(2), of n a] by (auto simp: m'(2))
  then have i: "ar_inv D ?ar" unfolding ar_inv_def c using ar_invD [OF assms(2)] by auto
  have "ar_remove_requests D a ar = Some (keep_nonempty (ar_calls ar a), ?ar)"
    using m m'(1) False by (simp add: ar_remove_requests_def keep_nonempty_def)
  from this i c show thesis by (rule that)
qed

lemma ar_remove_request_spec:
  assumes "delay_map_laws D" "ar_inv D ar"
  obtains (none) "ar_remove_request D a i ar = Some (None, ar)"
      "\<And>c. c \<in> set (ar_calls ar a) \<Longrightarrow> request_id_of (rc_request_id c) \<noteq> i"
  | (found) c ar' where "ar_remove_request D a i ar = Some (Some c, ar')" "ar_inv D ar'"
      "c \<in> set (ar_calls ar a)" "request_id_of (rc_request_id c) = i"
      "ar_calls ar' = (ar_calls ar)(a := filter (\<lambda>x. rc_nonce x \<noteq> rc_nonce c) (ar_calls ar a))"
proof (cases "position (\<lambda>c. request_id_of (rc_request_id c) = i) (ar_calls ar a)")
  case None
  moreover from None have "ar_remove_request D a i ar = Some (None, ar)"
    by (auto simp: ar_remove_request_def ar_mapping_calls [OF assms(2)] keep_nonempty_def simp del: position_None)
  ultimately show thesis using none by auto
next
  case (Some j)
  obtain c where c: "request_id_of (rc_request_id c) = i" "c \<in> set (ar_calls ar a)"
      "vec_remove j (ar_calls ar a) = Some (c, filter (\<lambda>y. rc_nonce y \<noteq> rc_nonce c) (ar_calls ar a))"
    by (rule vec_remove_position [OF Some ar_invD(2) [OF assms(2), of a]])
  then have m: "ar_mapping ar a = Some (ar_calls ar a)"
    by (auto simp: ar_mapping_calls [OF assms(2)] keep_nonempty_def)
  note * = ar_inv_removed [OF assms(2) c(2) delay_map_lawsD(4) [OF assms(1)]]
  show thesis
    by (rule found [OF _ conjunct1 [OF *] c(2,1) conjunct2 [OF *]]) (simp add: ar_remove_request_def m Some c)
qed

lemma ar_poll_next_spec:
  assumes "delay_map_laws D" "ar_inv D ar"
  obtains (expired) a c ar' where "ar_poll_next D now ar = Some (PollExpired a c, ar')" "ar_inv D ar'"
      "c \<in> set (ar_calls ar a)"
      "ar_calls ar' = (ar_calls ar)(a := filter (\<lambda>x. rc_nonce x \<noteq> rc_nonce c) (ar_calls ar a))"
  | (other) r ar' where "ar_poll_next D now ar = Some (r, ar')" "r = PollPending \<or> r = PollEnded \<or> (\<exists>e. r = PollFailure e)"
      "ar_inv D ar'" "ar_calls ar' = ar_calls ar"
  using assms(1)
proof (cases rule: dm_poll_cases [where now = now and m = "ar_nonces ar"])
  case (expired n a m')
  then have n: "n \<in> rc_nonce ` set (ar_calls ar a)" using ar_invD(1) [OF assms(2)] by blast
  then have m: "ar_mapping ar a = Some (ar_calls ar a)"
    by (auto simp: ar_mapping_calls [OF assms(2)] keep_nonempty_def)
  from n obtain i where i: "position (\<lambda>c. rc_nonce c = n) (ar_calls ar a) = Some i"
    by (cases "position (\<lambda>c. rc_nonce c = n) (ar_calls ar a)") auto
  obtain c where c: "rc_nonce c = n" "c \<in> set (ar_calls ar a)"
      "vec_remove i (ar_calls ar a) = Some (c, filter (\<lambda>y. rc_nonce y \<noteq> rc_nonce c) (ar_calls ar a))"
    by (rule vec_remove_position [OF i ar_invD(2) [OF assms(2), of a]])
  have "dm_get D k m' = (if k = rc_nonce c then None else dm_get D k (ar_nonces ar))" for k
    using expired by (simp add: c(1))
  note * = ar_inv_removed [OF assms(2) c(2) this]
  show thesis
    by (rule that(1) [OF _ conjunct1 [OF *] c(2) conjunct2 [OF *]])
      (simp add: ar_poll_next_def expired(1) Let_def m i c)
next
  case (other r m')
  note * = ar_inv_nonces [OF assms(2) other(3)]
  show thesis
    by (rule that(2) [OF _ _ conjunct1 [OF *] conjunct2 [OF *], where r = "case r of PollPending \<Rightarrow> PollPending | PollEnded \<Rightarrow> PollEnded | PollFailure e \<Rightarrow> PollFailure e"])
      (use other(1,2) in \<open>auto simp: ar_poll_next_def\<close>)
qed

lemma replace_distinct:
  "distinct ns \<Longrightarrow> new \<notin> set ns \<Longrightarrow> distinct (map (\<lambda>n. if n = old then new else n) ns)"
  "old \<in> set ns \<Longrightarrow> set (map (\<lambda>n. if n = old then new else n) ns) = insert new (set ns - {old})"
  by (auto simp: distinct_map inj_on_def)

lemma ar_update_packet_spec:
  assumes "delay_map_laws D" "ar_inv D ar" "old \<in> rc_nonce ` set (ar_calls ar a)"
    "dm_get D (packet_nonce p) (ar_nonces ar) = None"
  obtains ar' where "ar_update_packet D now old p ar = Some ar'" "ar_inv D ar'"
    "ar_calls ar' = (ar_calls ar)(a := map (\<lambda>c. if rc_nonce c = old then rc_update_packet p c else c) (ar_calls ar a))"
proof -
  let ?f = "\<lambda>c. if rc_nonce c = old then rc_update_packet p c else c"
  from assms(3) have g: "dm_get D old (ar_nonces ar) = Some a" using ar_invD(1) [OF assms(2)] by blast
  from assms(3) have m: "ar_mapping ar a = Some (ar_calls ar a)"
    by (auto simp: ar_mapping_calls [OF assms(2)] keep_nonempty_def)
  from assms(3) obtain i where i: "position (\<lambda>c. rc_nonce c = old) (ar_calls ar a) = Some i"
    by (cases "position (\<lambda>c. rc_nonce c = old) (ar_calls ar a)") auto
  then obtain ys y zs where s: "ar_calls ar a = ys @ y # zs" "length ys = i" "rc_nonce y = old"
    by (rule position_split)
  have d: "rc_nonce y \<notin> rc_nonce ` set ys" "rc_nonce y \<notin> rc_nonce ` set zs"
    using ar_invD(2) [OF assms(2), of a] by (simp_all add: s)
  then have "map ?f ys = ys" "map ?f zs = zs" by (auto simp: s(3) intro!: map_idI)
  then have u: "(ar_calls ar a)[i := rc_update_packet p (ar_calls ar a ! i)] = map ?f (ar_calls ar a)"
    using s(2,3) by (simp add: s(1) nth_append list_update_append)
  obtain m1 where m1: "dm_remove D old (ar_nonces ar) = (dm_get D old (ar_nonces ar), m1)"
    "\<And>n. dm_get D n m1 = (if n = old then None else dm_get D n (ar_nonces ar))"
    by (rule dm_removeE [OF assms(1), of old "ar_nonces ar"]) simp
  let ?ar = "ar\<lparr>ar_mapping := (ar_mapping ar)(a \<mapsto> map ?f (ar_calls ar a)), ar_nonces := dm_insert D now (packet_nonce p) a m1\<rparr>"
  have r: "ar_update_packet D now old p ar = Some ?ar"
    by (simp add: ar_update_packet_def m1 g m i u Let_def)
  have c: "ar_calls ?ar = (ar_calls ar)(a := map ?f (ar_calls ar a))" by (auto simp: ar_calls_def fun_eq_iff)
  have "dm_get D (packet_nonce p) m1 = None" using assms(4) by (simp add: m1)
  then have gm: "dm_get D n (dm_insert D now (packet_nonce p) a m1) =
      (if n = packet_nonce p then Some a else if n = old then None else dm_get D n (ar_nonces ar))" for n
    by (simp add: delay_map_lawsD(2) [OF assms(1)] m1(2))
  have p: "packet_nonce p \<notin> rc_nonce ` set (ar_calls ar b)" for b
    using assms(4) ar_invD(1) [OF assms(2), of "packet_nonce p" b] by auto
  have b: "old \<notin> rc_nonce ` set (ar_calls ar b)" if "b \<noteq> a" for b
    using g that ar_invD(1) [OF assms(2), of old b] by auto
  have nf: "map rc_nonce (map ?f cs) = map (\<lambda>n. if n = old then packet_nonce p else n) (map rc_nonce cs)" for cs
    by (simp add: rc_nonce_def rc_update_packet_def)
  have "distinct (map rc_nonce (map ?f (ar_calls ar a)))" unfolding nf
    by (rule replace_distinct(1)) (use ar_invD(2) [OF assms(2), of a] p [of a] in simp_all)
  moreover have "rc_nonce ` set (map ?f (ar_calls ar a)) = insert (packet_nonce p) (rc_nonce ` set (ar_calls ar a) - {old})"
    using replace_distinct(2) [of old "map rc_nonce (ar_calls ar a)" "packet_nonce p"] assms(3)
    by (metis nf set_map)
  moreover note dist_im = calculation
  have "ar_inv D ?ar"
    unfolding ar_inv_def c using ar_invD [OF assms(2)] dist_im assms(3) p b
    by (auto simp: gm simp del: map_map)
  from r this c show thesis by (rule that)
qed

end
