(* ===== verification/Disc_Session.thy ===== *)
theory Disc_Session
  imports Disc_Active_Requests
begin

text \<open>
  \<open>src/handler/crypto/mod.rs\<close>, \<open>src/handler/crypto/ecdh.rs\<close> and \<open>src/handler/session.rs\<close>: the handshake that
  gives two nodes their session keys, and the encryption of messages with them. The primitives are those of
  other crates (\<open>k256\<close>, \<open>sha2\<close>, \<open>hkdf\<close>, \<open>aes-gcm\<close>) and are the record \<open>crypto\<close>; \<open>crypto_laws\<close> states that a key
  survives its encoding, that the Diffie-Hellman secret is the same from both sides, that a signature
  verifies under the signer's key, that the derived key material has the requested length, and that
  decryption inverts encryption and only accepts what has a MAC. Random values are arguments.
\<close>

section \<open>Primitives\<close>

datatype 'vk combined_public_key = PubSecp256k1 'vk | PubEd25519 "byte list"

datatype 'sk combined_key = KeySecp256k1 'sk | KeyEd25519 "byte list"

record ('vk, 'sk, 'pt) crypto =
  vk_to_sec1_bytes :: "'vk \<Rightarrow> byte list"
  vk_from_sec1_bytes :: "byte list \<Rightarrow> 'vk option"
  sk_to_bytes :: "'sk \<Rightarrow> byte list"
  sk_verifying_key :: "'sk \<Rightarrow> 'vk"
  pt_from_sec1_bytes :: "byte list \<Rightarrow> 'pt option"
  pt_times_secret :: "'pt \<Rightarrow> byte list \<Rightarrow> 'pt option"
  pt_compressed :: "'pt \<Rightarrow> byte list"
  sha256 :: "byte list \<Rightarrow> byte list"
  hkdf_expand :: "byte list \<Rightarrow> byte list \<Rightarrow> byte list \<Rightarrow> nat \<Rightarrow> byte list option"
  try_sign_digest :: "'sk \<Rightarrow> byte list \<Rightarrow> string + byte list"
  signature_try_from :: "byte list \<Rightarrow> byte list option"
  verify_digest :: "'vk \<Rightarrow> byte list \<Rightarrow> byte list \<Rightarrow> bool"
  aead_encrypt :: "byte list \<Rightarrow> message_nonce \<Rightarrow> byte list \<Rightarrow> byte list \<Rightarrow> byte list option"
  aead_decrypt :: "byte list \<Rightarrow> message_nonce \<Rightarrow> byte list \<Rightarrow> byte list \<Rightarrow> byte list option"

definition ecdh :: "('vk, 'sk, 'pt) crypto \<Rightarrow> 'vk \<Rightarrow> 'sk \<Rightarrow> byte list option" where
  "ecdh K public_key secret_key =
     do {
       point \<leftarrow> pt_from_sec1_bytes K (vk_to_sec1_bytes K public_key);
       shared \<leftarrow> pt_times_secret K point (sk_to_bytes K secret_key);
       Some (pt_compressed K shared)
     }"

definition crypto_laws :: "('vk, 'sk, 'pt) crypto \<Rightarrow> bool" where
  "crypto_laws K \<longleftrightarrow>
     (\<forall>v. vk_from_sec1_bytes K (vk_to_sec1_bytes K v) = Some v) \<and>
     (\<forall>v s. ecdh K v s \<noteq> None) \<and>
     (\<forall>a b. ecdh K (sk_verifying_key K a) b = ecdh K (sk_verifying_key K b) a) \<and>
     (\<forall>salt ikm info n okm. hkdf_expand K salt ikm info n = Some okm \<longrightarrow> length okm = n) \<and>
     (\<forall>s d g. try_sign_digest K s d = Inr g \<longrightarrow>
        (\<exists>g'. signature_try_from K g = Some g' \<and> verify_digest K (sk_verifying_key K s) d g')) \<and>
     (\<forall>k n m aad c. aead_encrypt K k n m aad = Some c \<longrightarrow>
        16 \<le> length c \<and> aead_decrypt K k n c aad = Some m)"

section \<open>Errors\<close>

datatype 'challenge disc_error =
    EInvalidEnr | EUnknownPublicKey | EKeyTypeNotSupported string | EKeyDerivationFailed
  | EInvalidRemotePublicKey | EInvalidSecretKey | EInvalidChallengeSignature 'challenge
  | EServiceChannelClosed | EServiceNotStarted | EServiceAlreadyStarted | ESessionNotEstablished
  | ERLPError decoder_error | EEncryptionFail string | EDecryptionFailed string | ECustom string
  | EError string | EIo string

section \<open>Key derivation and signatures\<close>

definition NODE_ID_LENGTH :: nat where
  "NODE_ID_LENGTH = 32"

definition KEY_LENGTH :: nat where
  "KEY_LENGTH = 16"

definition str_bytes :: "string \<Rightarrow> byte list" where
  "str_bytes s = map (\<lambda>c. word_of_nat (of_char c)) s"

definition KEY_AGREEMENT_STRING :: string where
  "KEY_AGREEMENT_STRING = ''discovery v5 key agreement''"

definition ID_SIGNATURE_TEXT :: string where
  "ID_SIGNATURE_TEXT = ''discovery v5 identity proof''"

fun cd_bytes :: "challenge_data \<Rightarrow> byte list" where
  "cd_bytes (ChallengeData bs) = bs"

definition derive_key ::
  "('vk, 'sk, 'pt) crypto \<Rightarrow> byte list \<Rightarrow> node_id \<Rightarrow> node_id \<Rightarrow> challenge_data
     \<Rightarrow> ('c disc_error + byte list \<times> byte list) option" where
  "derive_key K secret first_id second_id challenge_data =
     (let info = str_bytes KEY_AGREEMENT_STRING @ id_raw first_id @ id_raw second_id
      in case hkdf_expand K (cd_bytes challenge_data) secret info (2 * KEY_LENGTH) of
           None \<Rightarrow> Some (Inl EKeyDerivationFailed)
         | Some okm \<Rightarrow> do {
             initiator_key \<leftarrow> slice_range 0 KEY_LENGTH okm;
             recipient_key \<leftarrow> slice_range KEY_LENGTH (2 * KEY_LENGTH) okm;
             Some (Inr (initiator_key, recipient_key))
           })"

definition generate_session_keys ::
  "('vk, 'sk, 'pt) crypto \<Rightarrow> ('enr, 'vk combined_public_key) enr_ops \<Rightarrow> 'sk \<Rightarrow> node_id
     \<Rightarrow> ('enr, 'vk combined_public_key) node_contact \<Rightarrow> challenge_data
     \<Rightarrow> ('c disc_error + byte list \<times> byte list \<times> byte list) option" where
  "generate_session_keys K N ephem_sk local_id contact challenge_data =
     (case nc_public_key contact of
        PubEd25519 _ \<Rightarrow> Some (Inl (EKeyTypeNotSupported ''Ed25519''))
      | PubSecp256k1 remote_pk \<Rightarrow> do {
          secret \<leftarrow> ecdh K remote_pk ephem_sk;
          let ephem_pk = vk_to_sec1_bytes K (sk_verifying_key K ephem_sk);
          keys \<leftarrow> derive_key K secret local_id (nc_node_id N contact) challenge_data;
          case keys of
            Inl e \<Rightarrow> Some (Inl e)
          | Inr (initiator_key, recipient_key) \<Rightarrow> Some (Inr (initiator_key, recipient_key, ephem_pk))
        })"

definition derive_keys_from_pubkey ::
  "('vk, 'sk, 'pt) crypto \<Rightarrow> 'sk combined_key \<Rightarrow> node_id \<Rightarrow> node_id \<Rightarrow> challenge_data \<Rightarrow> byte list
     \<Rightarrow> ('c disc_error + byte list \<times> byte list) option" where
  "derive_keys_from_pubkey K local_key local_id remote_id challenge_data ephem_pubkey =
     (case local_key of
        KeyEd25519 _ \<Rightarrow> Some (Inl (EKeyTypeNotSupported ''Ed25519''))
      | KeySecp256k1 k \<Rightarrow>
          (case vk_from_sec1_bytes K ephem_pubkey of
             None \<Rightarrow> Some (Inl EInvalidRemotePublicKey)
           | Some remote_pubkey \<Rightarrow> do {
               secret \<leftarrow> ecdh K remote_pubkey k;
               derive_key K secret remote_id local_id challenge_data
             }))"

definition generate_signing_nonce :: "challenge_data \<Rightarrow> byte list \<Rightarrow> node_id \<Rightarrow> byte list" where
  "generate_signing_nonce challenge_data ephem_pubkey dst_id =
     str_bytes ID_SIGNATURE_TEXT @ cd_bytes challenge_data @ ephem_pubkey @ id_raw dst_id"

definition sign_nonce ::
  "('vk, 'sk, 'pt) crypto \<Rightarrow> 'sk combined_key \<Rightarrow> challenge_data \<Rightarrow> byte list \<Rightarrow> node_id \<Rightarrow> 'c disc_error + byte list" where
  "sign_nonce K signing_key challenge_data ephem_pubkey dst_id =
     (let signing_message = generate_signing_nonce challenge_data ephem_pubkey dst_id
      in case signing_key of
           KeySecp256k1 k \<Rightarrow>
             (case try_sign_digest K k (sha256 K signing_message) of
                Inl e \<Rightarrow> Inl (EError (''Failed to sign message: '' @ e))
              | Inr signature \<Rightarrow> Inr signature)
         | KeyEd25519 _ \<Rightarrow> Inl (EKeyTypeNotSupported ''Ed25519''))"

definition verify_authentication_nonce ::
  "('vk, 'sk, 'pt) crypto \<Rightarrow> 'vk combined_public_key \<Rightarrow> byte list \<Rightarrow> challenge_data \<Rightarrow> node_id \<Rightarrow> byte list \<Rightarrow> bool" where
  "verify_authentication_nonce K remote_pubkey remote_ephem_pubkey challenge_data dst_id sig =
     (let signing_nonce = generate_signing_nonce challenge_data remote_ephem_pubkey dst_id
      in case remote_pubkey of
           PubSecp256k1 k \<Rightarrow>
             (case signature_try_from K sig of
                Some sig \<Rightarrow> verify_digest K k (sha256 K signing_nonce) sig
              | None \<Rightarrow> False)
         | PubEd25519 _ \<Rightarrow> False)"

definition decrypt_bytes ::
  "('vk, 'sk, 'pt) crypto \<Rightarrow> byte list \<Rightarrow> message_nonce \<Rightarrow> byte list \<Rightarrow> byte list \<Rightarrow> 'c disc_error + byte list" where
  "decrypt_bytes K k nonce msg aad =
     (if length msg < 16 then Inl (EDecryptionFailed ''Message not long enough to contain a MAC'')
      else case aead_decrypt K k nonce msg aad of
             None \<Rightarrow> Inl (EDecryptionFailed ''aead::Error'')
           | Some m \<Rightarrow> Inr m)"

definition encrypt_bytes ::
  "('vk, 'sk, 'pt) crypto \<Rightarrow> byte list \<Rightarrow> message_nonce \<Rightarrow> byte list \<Rightarrow> byte list \<Rightarrow> 'c disc_error + byte list" where
  "encrypt_bytes K k nonce msg aad =
     (case aead_encrypt K k nonce msg aad of
        None \<Rightarrow> Inl (EDecryptionFailed ''aead::Error'')
      | Some c \<Rightarrow> Inr c)"

section \<open>Sessions\<close>

record keys =
  ks_encryption_key :: "byte list"
  ks_decryption_key :: "byte list"

record session =
  sess_keys :: keys
  sess_old_keys :: "keys option"
  sess_awaiting_enr :: "request_id option"
  sess_counter :: nat

record 'enr challenge =
  ch_data :: challenge_data
  ch_remote_enr :: "'enr option"

definition session_new :: "keys \<Rightarrow> session" where
  "session_new ks = \<lparr>sess_keys = ks, sess_old_keys = None, sess_awaiting_enr = None, sess_counter = 0\<rparr>"

definition session_update :: "session \<Rightarrow> session \<Rightarrow> session" where
  "session_update new_session s =
     s\<lparr>sess_old_keys := Some (sess_keys s), sess_keys := sess_keys new_session,
       sess_awaiting_enr := sess_awaiting_enr new_session\<rparr>"

text \<open>The counter is a \<open>u32\<close>; \<open>random_nonce\<close> are the eight random bytes.\<close>

definition session_nonce :: "nat \<Rightarrow> u64 \<Rightarrow> message_nonce" where
  "session_nonce counter random_nonce = bytes_word (be_bytes 4 counter @ word_bytes 8 random_nonce)"

definition session_encrypt ::
  "('vk, 'sk, 'pt) crypto \<Rightarrow> ('enr, 'e) enr_codec \<Rightarrow> protocol_identity \<Rightarrow> u64 \<Rightarrow> u128 \<Rightarrow> node_id \<Rightarrow> byte list
     \<Rightarrow> session \<Rightarrow> (('c disc_error + 'enr packet) \<times> session) option" where
  "session_encrypt K E P random_nonce iv src_id message s =
     (if 2 ^ 32 \<le> sess_counter s + 1 then None
      else
        let s = s\<lparr>sess_counter := sess_counter s + 1\<rparr>;
            nonce = session_nonce (sess_counter s) random_nonce;
            header = \<lparr>message_nonce = nonce, header_kind = Message src_id\<rparr>;
            aad = word_bytes 16 iv @ header_encode E P header
        in case encrypt_bytes K (ks_encryption_key (sess_keys s)) nonce message aad of
             Inl e \<Rightarrow> Some (Inl e, s)
           | Inr cipher \<Rightarrow>
               Some (Inr \<lparr>packet_iv = iv, packet_header = header, packet_message = cipher\<rparr>, s))"

definition session_decrypt ::
  "('vk, 'sk, 'pt) crypto \<Rightarrow> message_nonce \<Rightarrow> byte list \<Rightarrow> byte list \<Rightarrow> session
     \<Rightarrow> ('c disc_error + byte list) \<times> session" where
  "session_decrypt K nonce message aad s =
     (case decrypt_bytes K (ks_decryption_key (sess_keys s)) nonce message aad of
        Inr m \<Rightarrow> (Inr m, s)
      | Inl e \<Rightarrow>
          (case sess_old_keys s of
             Some old_keys \<Rightarrow>
               (case decrypt_bytes K (ks_decryption_key old_keys) nonce message aad of
                  Inr m \<Rightarrow> (Inr m, s\<lparr>sess_old_keys := Some (sess_keys s), sess_keys := old_keys\<rparr>)
                | Inl e' \<Rightarrow> (Inl e', s\<lparr>sess_old_keys := None\<rparr>))
           | None \<Rightarrow> (Inl e, s)))"

text \<open>The more recent record of the one sent with the handshake and the one known before.\<close>

fun newest_enr :: "('enr, 'pk) enr_ops \<Rightarrow> 'enr option \<Rightarrow> 'enr option \<Rightarrow> 'enr option" where
  "newest_enr N (Some new_enr) (Some known_enr) =
     (if enr_seq N known_enr < enr_seq N new_enr then Some new_enr else Some known_enr)"
| "newest_enr N (Some new_enr) None = Some new_enr"
| "newest_enr N None (Some known_enr) = Some known_enr"
| "newest_enr N None None = None"

definition establish_from_challenge ::
  "('vk, 'sk, 'pt) crypto \<Rightarrow> ('enr, 'vk combined_public_key) enr_ops \<Rightarrow> 'sk combined_key \<Rightarrow> node_id \<Rightarrow> node_id
     \<Rightarrow> 'enr challenge \<Rightarrow> byte list \<Rightarrow> byte list \<Rightarrow> 'enr option
     \<Rightarrow> ('enr challenge disc_error + session \<times> 'enr) option" where
  "establish_from_challenge K N local_key local_id remote_id challenge id_nonce_sig ephem_pubkey enr_record =
     (case newest_enr N enr_record (ch_remote_enr challenge) of
        None \<Rightarrow> Some (Inl ESessionNotEstablished)
      | Some enr \<Rightarrow>
          let remote_public_key = enr_public_key N enr
          in if \<not> verify_authentication_nonce K remote_public_key ephem_pubkey (ch_data challenge) local_id id_nonce_sig
             then Some (Inl (EInvalidChallengeSignature challenge))
             else do {
               derived \<leftarrow> derive_keys_from_pubkey K local_key local_id remote_id (ch_data challenge) ephem_pubkey;
               case derived of
                 Inl e \<Rightarrow> Some (Inl e)
               | Inr (decryption_key, encryption_key) \<Rightarrow> do {
                   session_enr \<leftarrow> newest_enr N enr_record (ch_remote_enr challenge);
                   Some (Inr (session_new \<lparr>ks_encryption_key = encryption_key, ks_decryption_key = decryption_key\<rparr>,
                              session_enr))
                 }
             })"

definition encrypt_with_header ::
  "('vk, 'sk, 'pt) crypto \<Rightarrow> ('enr, 'vk combined_public_key) enr_ops \<Rightarrow> ('enr, 'e) enr_codec \<Rightarrow> protocol_identity
     \<Rightarrow> 'sk \<Rightarrow> message_nonce \<Rightarrow> u128 \<Rightarrow> ('enr, 'vk combined_public_key) node_contact \<Rightarrow> 'sk combined_key
     \<Rightarrow> 'enr option \<Rightarrow> node_id \<Rightarrow> challenge_data \<Rightarrow> byte list
     \<Rightarrow> ('c disc_error + 'enr packet \<times> session) option" where
  "encrypt_with_header K N E P ephem_sk nonce iv remote_contact local_key updated_enr local_node_id challenge_data message =
     do {
       generated \<leftarrow> generate_session_keys K N ephem_sk local_node_id remote_contact challenge_data;
       case generated of
         Inl e \<Rightarrow> Some (Inl e)
       | Inr (encryption_key, decryption_key, ephem_pubkey) \<Rightarrow>
           (case (sign_nonce K local_key challenge_data ephem_pubkey (nc_node_id N remote_contact) :: 'c disc_error + byte list) of
              Inl _ \<Rightarrow> Some (Inl (ECustom ''Could not sign WHOAREYOU nonce''))
            | Inr sig \<Rightarrow>
                let packet = new_authheader iv local_node_id nonce sig ephem_pubkey updated_enr;
                    aad = word_bytes 16 (packet_iv packet) @ header_encode E P (packet_header packet)
                in case encrypt_bytes K encryption_key nonce message aad of
                     Inl e \<Rightarrow> Some (Inl e)
                   | Inr ciphertext \<Rightarrow>
                       Some (Inr (packet\<lparr>packet_message := ciphertext\<rparr>,
                                  session_new \<lparr>ks_encryption_key = encryption_key, ks_decryption_key = decryption_key\<rparr>)))
     }"

section \<open>The handshake agrees on keys\<close>

lemma crypto_lawsD:
  assumes "crypto_laws K"
  shows "vk_from_sec1_bytes K (vk_to_sec1_bytes K v) = Some v" "ecdh K v s \<noteq> None"
    "ecdh K (sk_verifying_key K a) b = ecdh K (sk_verifying_key K b) a"
    "hkdf_expand K salt ikm info n = Some okm \<Longrightarrow> length okm = n"
    "try_sign_digest K s d = Inr g \<Longrightarrow> \<exists>g'. signature_try_from K g = Some g' \<and> verify_digest K (sk_verifying_key K s) d g'"
    "aead_encrypt K k nc m aad = Some c \<Longrightarrow> 16 \<le> length c \<and> aead_decrypt K k nc c aad = Some m"
  using assms by (simp_all add: crypto_laws_def)

lemma encrypt_decrypt:
  assumes "crypto_laws K" "encrypt_bytes K k n m aad = (Inr c :: 'c disc_error + byte list)"
  shows "decrypt_bytes K k n c aad = (Inr m :: 'c disc_error + byte list)"
proof -
  from assms(2) have "aead_encrypt K k n m aad = Some c" by (auto simp: encrypt_bytes_def split: option.splits)
  from crypto_lawsD(6) [OF assms(1) this] show ?thesis by (simp add: decrypt_bytes_def)
qed

lemma session_encrypt_eq:
  "session_encrypt K E P r iv src m s = Some (Inr p :: 'c disc_error + 'enr packet, s') \<longleftrightarrow>
     sess_counter s + 1 < 2 ^ 32 \<and> s' = s\<lparr>sess_counter := sess_counter s + 1\<rparr> \<and>
     packet_iv p = iv \<and> packet_header p = \<lparr>message_nonce = session_nonce (sess_counter s + 1) r, header_kind = Message src\<rparr> \<and>
     encrypt_bytes K (ks_encryption_key (sess_keys s)) (packet_nonce p) m (authenticated_data E P p) =
       (Inr (packet_message p) :: 'c disc_error + byte list)"
  for p :: "'enr packet" and E :: "('enr, 'e) enr_codec"
proof (cases "encrypt_bytes K (ks_encryption_key (sess_keys s)) (session_nonce (sess_counter s + 1) r) m
   (word_bytes 16 iv @ header_encode E P \<lparr>message_nonce = session_nonce (sess_counter s + 1) r, header_kind = Message src\<rparr>)
   :: 'c disc_error + byte list")
  case (Inl e)
  then show ?thesis
    by (auto simp: session_encrypt_def Let_def authenticated_data_def packet_nonce_def)
next
  case (Inr c)
  then show ?thesis
    by (cases p) (auto simp: session_encrypt_def Let_def authenticated_data_def packet_nonce_def)
qed

lemma session_decrypt_current:
  "decrypt_bytes K (ks_decryption_key (sess_keys s)) n c aad = (Inr m :: 'c disc_error + byte list) \<Longrightarrow>
   session_decrypt K n c aad s = ((Inr m :: 'c disc_error + byte list), s)"
  by (simp add: session_decrypt_def)

text \<open>A message encrypted with keys that mirror those of another session is decrypted by it.\<close>

definition mirrored :: "session \<Rightarrow> session \<Rightarrow> bool" where
  "mirrored s t \<longleftrightarrow> ks_encryption_key (sess_keys s) = ks_decryption_key (sess_keys t) \<and>
     ks_decryption_key (sess_keys s) = ks_encryption_key (sess_keys t)"

lemma session_transfer:
  assumes "crypto_laws K" "mirrored s t"
    "session_encrypt K E P r iv src m s = Some (Inr p :: 'c disc_error + 'enr packet, s')"
  shows "session_decrypt K (packet_nonce p) (packet_message p) (authenticated_data E P p) t =
    ((Inr m :: 'c disc_error + byte list), t) \<and> mirrored s' t"
proof -
  from assms(3) have e: "encrypt_bytes K (ks_encryption_key (sess_keys s)) (packet_nonce p) m (authenticated_data E P p) =
      (Inr (packet_message p) :: 'c disc_error + byte list)" and s': "s' = s\<lparr>sess_counter := sess_counter s + 1\<rparr>"
    by (simp_all add: session_encrypt_eq)
  from encrypt_decrypt [OF assms(1) e] assms(2) s' show ?thesis
    by (simp add: session_decrypt_current mirrored_def)
qed

lemma encrypt_with_headerD:
  assumes "encrypt_with_header K N E P eph n iv contact lk upd lid cd m = Some (Inr (p, s) :: 'c disc_error + 'enr packet \<times> session)"
  obtains rpk secret ik rk sig where "nc_public_key contact = PubSecp256k1 rpk" "ecdh K rpk eph = Some secret"
    "derive_key K secret lid (nc_node_id N contact) cd = Some (Inr (ik, rk) :: 'c disc_error + byte list \<times> byte list)"
    "sign_nonce K lk cd (vk_to_sec1_bytes K (sk_verifying_key K eph)) (nc_node_id N contact) = (Inr sig :: 'c disc_error + byte list)"
    "packet_iv p = iv" "packet_header p = \<lparr>message_nonce = n,
       header_kind = Handshake lid sig (vk_to_sec1_bytes K (sk_verifying_key K eph)) upd\<rparr>"
    "encrypt_bytes K ik n m (authenticated_data E P p) = (Inr (packet_message p) :: 'c disc_error + byte list)"
    "s = session_new \<lparr>ks_encryption_key = ik, ks_decryption_key = rk\<rparr>"
proof -
  let ?e = "vk_to_sec1_bytes K (sk_verifying_key K eph)"
  from assms obtain rpk where rpk: "nc_public_key contact = PubSecp256k1 rpk"
    by (cases "nc_public_key contact") (auto simp: encrypt_with_header_def generate_session_keys_def)
  from assms obtain secret where secret: "ecdh K rpk eph = Some secret"
    by (cases "ecdh K rpk eph") (auto simp: encrypt_with_header_def generate_session_keys_def rpk)
  from assms obtain d where "derive_key K secret lid (nc_node_id N contact) cd = Some (d :: 'c disc_error + byte list \<times> byte list)"
    by (cases "derive_key K secret lid (nc_node_id N contact) cd :: ('c disc_error + byte list \<times> byte list) option")
      (auto simp: encrypt_with_header_def generate_session_keys_def rpk secret Let_def)
  with assms obtain ik rk where d: "derive_key K secret lid (nc_node_id N contact) cd = Some (Inr (ik, rk) :: 'c disc_error + byte list \<times> byte list)"
    by (cases d) (auto simp: encrypt_with_header_def generate_session_keys_def rpk secret Let_def)
  from assms obtain sig where sig: "sign_nonce K lk cd ?e (nc_node_id N contact) = (Inr sig :: 'c disc_error + byte list)"
    by (cases "sign_nonce K lk cd ?e (nc_node_id N contact) :: 'c disc_error + byte list")
      (auto simp: encrypt_with_header_def generate_session_keys_def rpk secret d Let_def)
  let ?h = "\<lparr>message_nonce = n, header_kind = Handshake lid sig ?e upd\<rparr>"
  from assms obtain c where c: "encrypt_bytes K ik n m (word_bytes 16 iv @ header_encode E P ?h) = (Inr c :: 'c disc_error + byte list)"
    by (cases "encrypt_bytes K ik n m (word_bytes 16 iv @ header_encode E P ?h) :: 'c disc_error + byte list")
      (auto simp: encrypt_with_header_def generate_session_keys_def rpk secret d sig new_authheader_def Let_def)
  have *: "p = \<lparr>packet_iv = iv, packet_header = ?h, packet_message = c\<rparr>"
    "s = session_new \<lparr>ks_encryption_key = ik, ks_decryption_key = rk\<rparr>"
    using assms by (simp_all add: encrypt_with_header_def generate_session_keys_def rpk secret d sig c new_authheader_def Let_def)
  show thesis by (rule that [OF rpk secret d sig]) (simp_all add: * c authenticated_data_def)
qed

lemma verify_signed_nonce:
  assumes "crypto_laws K" "sign_nonce K (KeySecp256k1 k) cd ephem dst = (Inr sig :: 'c disc_error + byte list)"
  shows "verify_authentication_nonce K (PubSecp256k1 (sk_verifying_key K k)) ephem cd dst sig"
  using assms crypto_lawsD(5) [OF assms(1)]
  by (fastforce simp: sign_nonce_def verify_authentication_nonce_def Let_def split: sum.splits)

text \<open>
  What two ends do with their sessions after a handshake, in any order: each encrypts messages, which may be
  lost, and tries to decrypt whatever bytes it receives.
\<close>

inductive later for K :: "('vk, 'sk, 'pt) crypto" and E :: "('enr, 'e) enr_codec" and P s0 t0 where
  later_start: "later K E P s0 t0 s0 t0"
| first_encrypts: "later K E P s0 t0 s t \<Longrightarrow>
    session_encrypt K E P r iv src m s = Some (e :: 'enr challenge disc_error + 'enr packet, s') \<Longrightarrow> later K E P s0 t0 s' t"
| second_encrypts: "later K E P s0 t0 s t \<Longrightarrow>
    session_encrypt K E P r iv src m t = Some (e :: 'enr challenge disc_error + 'enr packet, t') \<Longrightarrow> later K E P s0 t0 s t'"
| first_decrypts: "later K E P s0 t0 s t \<Longrightarrow>
    session_decrypt K n c aad s = (d :: 'enr challenge disc_error + byte list, s') \<Longrightarrow> later K E P s0 t0 s' t"
| second_decrypts: "later K E P s0 t0 s t \<Longrightarrow>
    session_decrypt K n c aad t = (d :: 'enr challenge disc_error + byte list, t') \<Longrightarrow> later K E P s0 t0 s t'"

lemma session_encrypt_keys:
  "session_encrypt K E P r iv src m s = Some (e, s') \<Longrightarrow> sess_keys s' = sess_keys s \<and> sess_old_keys s' = sess_old_keys s"
  by (auto simp: session_encrypt_def Let_def split: if_splits sum.splits)

lemma session_decrypt_no_old: "session_decrypt K n c aad s = (d, s') \<Longrightarrow> sess_old_keys s = None \<Longrightarrow> s' = s"
  by (auto simp: session_decrypt_def split: sum.splits)

lemma later_mirrored:
  assumes "later K E P s0 t0 s t" "mirrored s0 t0" "sess_old_keys s0 = None" "sess_old_keys t0 = None"
  shows "mirrored s t \<and> sess_old_keys s = None \<and> sess_old_keys t = None"
  using assms
proof induction
  case (first_encrypts s t r iv src m e s')
  then show ?case using session_encrypt_keys [OF first_encrypts.hyps(2)] by (simp add: mirrored_def)
next
  case (second_encrypts s t r iv src m e t')
  then show ?case using session_encrypt_keys [OF second_encrypts.hyps(2)] by (simp add: mirrored_def)
next
  case (first_decrypts s t n c aad d s')
  then show ?case using session_decrypt_no_old [OF first_decrypts.hyps(2)] by simp
next
  case (second_decrypts s t n c aad d t')
  then show ?case using session_decrypt_no_old [OF second_decrypts.hyps(2)] by simp
qed simp

text \<open>Whatever packet one end encrypts next, the other end decrypts it to the message.\<close>

definition understands ::
  "('vk, 'sk, 'pt) crypto \<Rightarrow> ('enr, 'e) enr_codec \<Rightarrow> protocol_identity \<Rightarrow> session \<Rightarrow> session \<Rightarrow> bool" where
  "understands K E P t s \<longleftrightarrow> (\<forall>r iv src m p s'.
     session_encrypt K E P r iv src m s = Some (Inr p :: 'enr challenge disc_error + 'enr packet, s') \<longrightarrow>
     session_decrypt K (packet_nonce p) (packet_message p) (authenticated_data E P p) t =
       ((Inr m :: 'enr challenge disc_error + byte list), t))"

lemma mirrored_understands: "crypto_laws K \<Longrightarrow> mirrored s t \<Longrightarrow> understands K E P t s"
  unfolding understands_def by (intro allI impI) (rule session_transfer [THEN conjunct1])

text \<open>
  C39. Whenever a node answers a challenge with a handshake packet, the challenger that holds the private key
  the packet was made for, and finds the public key of the node in the more recent of the sent and the known
  record, accepts the handshake: it establishes a session and decrypts the message of the packet. From then on,
  whatever the two ends have encrypted, lost and tried to decrypt with their sessions, every message one of
  them encrypts is decrypted by the other.
\<close>

theorem handshake_agreement:
  fixes p :: "'enr packet"
  assumes "crypto_laws K" "nc_public_key contact = PubSecp256k1 (sk_verifying_key K skb)"
    "encrypt_with_header K N E P eph n iv contact (KeySecp256k1 ska) upd ida cd m =
       Some (Inr (p, s) :: 'enr challenge disc_error + 'enr packet \<times> session)"
    "newest_enr N upd known = Some enr" "enr_public_key N enr = PubSecp256k1 (sk_verifying_key K ska)"
  shows "\<exists>sig ephem t. header_kind (packet_header p) = Handshake ida sig ephem upd \<and>
    establish_from_challenge K N (KeySecp256k1 skb) (nc_node_id N contact) ida
      \<lparr>ch_data = cd, ch_remote_enr = known\<rparr> sig ephem upd = Some (Inr (t, enr)) \<and>
    session_decrypt K (packet_nonce p) (packet_message p) (authenticated_data E P p) t =
      ((Inr m :: 'enr challenge disc_error + byte list), t) \<and>
    (\<forall>s' t'. later K E P s t s' t' \<longrightarrow> understands K E P t' s' \<and> understands K E P s' t')"
proof -
  from assms(3) obtain rpk secret ik rk sig where *: "nc_public_key contact = PubSecp256k1 rpk"
    "ecdh K rpk eph = Some secret"
    "derive_key K secret ida (nc_node_id N contact) cd = Some (Inr (ik, rk) :: 'enr challenge disc_error + byte list \<times> byte list)"
    "sign_nonce K (KeySecp256k1 ska) cd (vk_to_sec1_bytes K (sk_verifying_key K eph)) (nc_node_id N contact) =
       (Inr sig :: 'enr challenge disc_error + byte list)"
    "packet_header p = \<lparr>message_nonce = n,
       header_kind = Handshake ida sig (vk_to_sec1_bytes K (sk_verifying_key K eph)) upd\<rparr>"
    "encrypt_bytes K ik n m (authenticated_data E P p) = (Inr (packet_message p) :: 'enr challenge disc_error + byte list)"
    "s = session_new \<lparr>ks_encryption_key = ik, ks_decryption_key = rk\<rparr>"
    by (rule encrypt_with_headerD)
  let ?e = "vk_to_sec1_bytes K (sk_verifying_key K eph)"
  let ?t = "session_new \<lparr>ks_encryption_key = rk, ks_decryption_key = ik\<rparr>"
  have "ecdh K (sk_verifying_key K eph) skb = Some secret"
    using *(1,2) assms(2) crypto_lawsD(3) [OF assms(1), of skb eph] by (metis combined_public_key.inject(1))
  then have "derive_keys_from_pubkey K (KeySecp256k1 skb) (nc_node_id N contact) ida cd ?e =
      Some (Inr (ik, rk) :: 'enr challenge disc_error + byte list \<times> byte list)"
    using *(3) by (simp add: derive_keys_from_pubkey_def crypto_lawsD(1) [OF assms(1)])
  then have est: "establish_from_challenge K N (KeySecp256k1 skb) (nc_node_id N contact) ida
      \<lparr>ch_data = cd, ch_remote_enr = known\<rparr> sig ?e upd = Some (Inr (?t, enr))"
    using verify_signed_nonce [OF assms(1) *(4)] assms(4,5) by (simp add: establish_from_challenge_def Let_def)
  have "decrypt_bytes K (ks_decryption_key (sess_keys ?t)) (packet_nonce p) (packet_message p) (authenticated_data E P p) =
      (Inr m :: 'enr challenge disc_error + byte list)"
    using encrypt_decrypt [OF assms(1) *(6)] *(5) by (simp add: session_new_def packet_nonce_def)
  note dec = session_decrypt_current [OF this]
  have "mirrored s ?t" "sess_old_keys s = None" "sess_old_keys ?t = None" using *(7) by (simp_all add: mirrored_def session_new_def)
  then have "understands K E P t' s' \<and> understands K E P s' t'" if "later K E P s ?t s' t'" for s' t'
    using later_mirrored [OF that] by (simp add: mirrored_understands [OF assms(1)] mirrored_def)
  with dec est *(5) show ?thesis by auto
qed

section \<open>Nonces\<close>

lemma session_nonce_counter:
  assumes "session_nonce c r = session_nonce c' r'" "c < 2 ^ 32" "c' < 2 ^ 32"
  shows "c = c'"
proof -
  have "word_bytes 12 (session_nonce c r) = be_bytes 4 c @ word_bytes 8 r" for c r
    using word_bytes_word [of "be_bytes 4 c @ word_bytes 8 r", where 'a = 96] by (simp add: session_nonce_def)
  with assms(1) have "be_bytes 4 c = be_bytes 4 c'" by (metis append_eq_append_conv length_be_bytes)
  then have "be_val (be_bytes 4 c) = be_val (be_bytes 4 c')" by simp
  with assms(2,3) show ?thesis by simp
qed

text \<open>The life of a session: what it encrypts, decrypts, and its renewals by later handshakes.\<close>

datatype session_op =
    SEncrypt u64 u128 "byte list"
  | SDecrypt message_nonce "byte list" "byte list"
  | SUpdate session

fun session_run ::
  "('vk, 'sk, 'pt) crypto \<Rightarrow> ('enr, 'e) enr_codec \<Rightarrow> protocol_identity \<Rightarrow> node_id \<Rightarrow> session_op list \<Rightarrow> session
     \<Rightarrow> ((unit disc_error + 'enr packet) list \<times> session) option" where
  "session_run K E P src [] s = Some ([], s)"
| "session_run K E P src (SEncrypt r iv m # ops) s = do {
     (p, s) \<leftarrow> session_encrypt K E P r iv src m s;
     (ps, s) \<leftarrow> session_run K E P src ops s;
     Some (p # ps, s)
   }"
| "session_run K E P src (SDecrypt n c aad # ops) s =
     session_run K E P src ops (snd (session_decrypt K n c aad s :: (unit disc_error + byte list) \<times> session))"
| "session_run K E P src (SUpdate t # ops) s = session_run K E P src ops (session_update t s)"

fun sent_nonces :: "(unit disc_error + 'enr packet) list \<Rightarrow> message_nonce list" where
  "sent_nonces [] = []"
| "sent_nonces (Inl e # ps) = sent_nonces ps"
| "sent_nonces (Inr p # ps) = packet_nonce p # sent_nonces ps"

fun count_encrypts :: "session_op list \<Rightarrow> nat" where
  "count_encrypts [] = 0"
| "count_encrypts (SEncrypt r iv m # ops) = Suc (count_encrypts ops)"
| "count_encrypts (SDecrypt n c aad # ops) = count_encrypts ops"
| "count_encrypts (SUpdate t # ops) = count_encrypts ops"

lemma session_decrypt_counter [simp]: "sess_counter (snd (session_decrypt K n c aad s)) = sess_counter s"
  by (auto simp: session_decrypt_def split: sum.splits option.splits)

lemma session_update_counter [simp]: "sess_counter (session_update t s) = sess_counter s"
  by (simp add: session_update_def)

lemma session_encrypt_counter:
  fixes E :: "('enr, 'e) enr_codec"
  assumes "sess_counter s + 1 < 2 ^ 32"
  obtains p :: "'c disc_error + 'enr packet"
    where "session_encrypt K E P r iv src m s = Some (p, s\<lparr>sess_counter := sess_counter s + 1\<rparr>)"
    "\<And>q. p = Inr q \<Longrightarrow> packet_nonce q = session_nonce (sess_counter s + 1) r"
proof -
  have "\<exists>p :: 'c disc_error + 'enr packet. session_encrypt K E P r iv src m s = Some (p, s\<lparr>sess_counter := sess_counter s + 1\<rparr>)"
    using assms by (auto simp: session_encrypt_def Let_def split: sum.split)
  then obtain p :: "'c disc_error + 'enr packet"
    where p: "session_encrypt K E P r iv src m s = Some (p, s\<lparr>sess_counter := sess_counter s + 1\<rparr>)" ..
  show thesis by (rule that [OF p]) (use p in \<open>auto simp: session_encrypt_eq packet_nonce_def\<close>)
qed

lemma session_run_nonces:
  fixes E :: "('enr, 'e) enr_codec"
  shows "sess_counter s + count_encrypts ops < 2 ^ 32 \<Longrightarrow>
   \<exists>ps s'. session_run K E P src ops s = Some (ps, s') \<and> distinct (sent_nonces ps) \<and>
     sess_counter s' = sess_counter s + count_encrypts ops \<and>
     (\<forall>n\<in>set (sent_nonces ps). \<exists>c r. n = session_nonce c r \<and> sess_counter s < c \<and> c \<le> sess_counter s')"
proof (induction ops arbitrary: s)
  case (Cons op ops)
  show ?case
  proof (cases op)
    case (SEncrypt r iv m)
    with Cons.prems have c: "sess_counter s + 1 < 2 ^ 32" by simp
    obtain p where p: "session_encrypt K E P r iv src m s = Some (p :: unit disc_error + 'enr packet, s\<lparr>sess_counter := sess_counter s + 1\<rparr>)"
      "\<And>q. p = Inr q \<Longrightarrow> packet_nonce q = session_nonce (sess_counter s + 1) r" by (rule session_encrypt_counter [OF c]) blast
    from Cons.IH [of "s\<lparr>sess_counter := sess_counter s + 1\<rparr>"] Cons.prems SEncrypt
    obtain ps s' where r: "session_run K E P src ops (s\<lparr>sess_counter := sess_counter s + 1\<rparr>) = Some (ps, s')"
      "distinct (sent_nonces ps)" "sess_counter s' = sess_counter s + Suc (count_encrypts ops)"
      "\<forall>n\<in>set (sent_nonces ps). \<exists>c r. n = session_nonce c r \<and> sess_counter s + 1 < c \<and> c \<le> sess_counter s'"
      by auto
    have n: "session_nonce (sess_counter s + 1) r \<notin> set (sent_nonces ps)"
    proof
      assume "session_nonce (sess_counter s + 1) r \<in> set (sent_nonces ps)"
      with r(4) obtain c' r' where "session_nonce (sess_counter s + 1) r = session_nonce c' r'"
        "sess_counter s + 1 < c'" "c' \<le> sess_counter s'" by blast
      with session_nonce_counter [OF this(1) c] r(3) Cons.prems SEncrypt show False by simp
    qed
    have "session_run K E P src (op # ops) s = Some (p # ps, s')" using p(1) r(1) by (simp add: SEncrypt)
    moreover have "\<forall>n\<in>set (sent_nonces (p # ps)). \<exists>c r. n = session_nonce c r \<and> sess_counter s < c \<and> c \<le> sess_counter s'"
      using r(3,4) p(2) by (cases p) (fastforce dest: Suc_lessD)+
    moreover have "distinct (sent_nonces (p # ps))" using n r(2) p(2) by (cases p) auto
    ultimately show ?thesis using r(3) SEncrypt by auto
  next
    case (SDecrypt n c aad)
    with Cons.IH [of "snd (session_decrypt K n c aad s :: (unit disc_error + byte list) \<times> session)"] Cons.prems
    show ?thesis by simp
  next
    case (SUpdate t)
    with Cons.IH [of "session_update t s"] Cons.prems show ?thesis by simp
  qed
qed auto

text \<open>
  C40. The nonces of the packets a session encrypts are pairwise different, whatever messages are decrypted
  and however often the session is renewed in between, as long as fewer than 2^32 messages are encrypted;
  the counter then never overflows.
\<close>

theorem session_nonces_unique:
  assumes "sess_counter s + count_encrypts ops < 2 ^ 32"
  shows "\<exists>ps s'. session_run K E P src ops s = Some (ps, s') \<and> distinct (sent_nonces ps)"
  using session_run_nonces [OF assms] by blast

section \<open>Witnesses\<close>

text \<open>
  A toy instance of the primitives: keys are 64-bit numbers, the shared secret is their product, a
  signature is the key with the digest, and the MAC is the encryption key.
\<close>

definition toy_mac :: "byte list \<Rightarrow> byte list" where
  "toy_mac k = take 16 (k @ replicate 16 0)"

definition toy_crypto :: "(u64, u64, u64) crypto" where
  "toy_crypto = \<lparr>vk_to_sec1_bytes = word_bytes 8, vk_from_sec1_bytes = (\<lambda>bs. Some (bytes_word bs)),
     sk_to_bytes = word_bytes 8, sk_verifying_key = (\<lambda>s. s),
     pt_from_sec1_bytes = (\<lambda>bs. Some (bytes_word bs)), pt_times_secret = (\<lambda>p bs. Some (p * bytes_word bs)),
     pt_compressed = word_bytes 8, sha256 = (\<lambda>bs. bs),
     hkdf_expand = (\<lambda>salt ikm info n. Some (take n (ikm @ info @ replicate n 0))),
     try_sign_digest = (\<lambda>s d. Inr (word_bytes 8 s @ d)), signature_try_from = (\<lambda>g. Some g),
     verify_digest = (\<lambda>v d g. g = word_bytes 8 v @ d),
     aead_encrypt = (\<lambda>k n m aad. Some (toy_mac k @ m)),
     aead_decrypt = (\<lambda>k n c aad. if take 16 c = toy_mac k then Some (drop 16 c) else None)\<rparr>"

lemma toy_crypto_laws: "crypto_laws toy_crypto"
proof -
  have "length (toy_mac k) = 16" for k by (simp add: toy_mac_def)
  then show ?thesis
    by (auto simp: crypto_laws_def ecdh_def toy_crypto_def bytes_word_bytes mult.commute)
qed

definition toy_enr_ops :: "(byte list, u64 combined_public_key) enr_ops" where
  "toy_enr_ops = \<lparr>enr_node_id = (\<lambda>e. bytes_word e), enr_seq = (\<lambda>e. 1), enr_udp4_socket = (\<lambda>e. None),
     enr_udp6_socket = (\<lambda>e. None), enr_public_key = (\<lambda>e. PubSecp256k1 (bytes_word e)),
     pk_node_id = (\<lambda>k. case k of PubSecp256k1 v \<Rightarrow> ucast v | PubEd25519 bs \<Rightarrow> 0)\<rparr>"

definition toy_contact :: "(byte list, u64 combined_public_key) node_contact" where
  "toy_contact = \<lparr>nc_public_key = PubSecp256k1 5, nc_socket_addr = SocketV4 (127, 0, 0, 1) 9000, nc_enr = None\<rparr>"

theorem handshake_agreement_witness:
  "\<exists>p s. encrypt_with_header toy_crypto toy_enr_ops ex_codec DefaultProtocolId 3 17 18 toy_contact (KeySecp256k1 7)
      (Some (word_bytes 8 (7 :: u64))) 7 (ChallengeData (replicate 63 0)) [1, 2, 3] =
        Some (Inr (p, s) :: byte list challenge disc_error + byte list packet \<times> session) \<and>
    (\<exists>sig ephem t. header_kind (packet_header p) = Handshake 7 sig ephem (Some (word_bytes 8 (7 :: u64))) \<and>
      establish_from_challenge toy_crypto toy_enr_ops (KeySecp256k1 5) (nc_node_id toy_enr_ops toy_contact) 7
        \<lparr>ch_data = ChallengeData (replicate 63 0), ch_remote_enr = None\<rparr> sig ephem (Some (word_bytes 8 (7 :: u64))) =
          Some (Inr (t, word_bytes 8 (7 :: u64))) \<and>
      understands toy_crypto ex_codec DefaultProtocolId t s)"
proof -
  have "\<exists>p s. encrypt_with_header toy_crypto toy_enr_ops ex_codec DefaultProtocolId 3 17 18 toy_contact (KeySecp256k1 7)
      (Some (word_bytes 8 (7 :: u64))) 7 (ChallengeData (replicate 63 0)) [1, 2, 3] =
        Some (Inr (p, s) :: byte list challenge disc_error + byte list packet \<times> session)"
    by (simp add: encrypt_with_header_def generate_session_keys_def toy_contact_def ecdh_def toy_crypto_def
        derive_key_def KEY_LENGTH_def sign_nonce_def encrypt_bytes_def Let_def)
  then obtain p s where e: "encrypt_with_header toy_crypto toy_enr_ops ex_codec DefaultProtocolId 3 17 18 toy_contact (KeySecp256k1 7)
      (Some (word_bytes 8 (7 :: u64))) 7 (ChallengeData (replicate 63 0)) [1, 2, 3] =
        Some (Inr (p, s) :: byte list challenge disc_error + byte list packet \<times> session)" by blast
  have "nc_public_key toy_contact = PubSecp256k1 (sk_verifying_key toy_crypto 5)"
    by (simp add: toy_contact_def toy_crypto_def)
  from handshake_agreement [OF toy_crypto_laws this e, of None "word_bytes 8 (7 :: u64)"] e later_start show ?thesis
    by (fastforce simp: toy_enr_ops_def toy_crypto_def bytes_word_bytes)
qed

theorem session_nonces_unique_witness:
  "sess_counter (session_new \<lparr>ks_encryption_key = [], ks_decryption_key = []\<rparr>) +
     count_encrypts [SEncrypt 1 2 [3], SDecrypt 4 [5] [6], SEncrypt 1 2 [3]] < 2 ^ 32 \<and>
   (\<exists>ps s'. session_run toy_crypto ex_codec DefaultProtocolId 7 [SEncrypt 1 2 [3], SDecrypt 4 [5] [6], SEncrypt 1 2 [3]]
      (session_new \<lparr>ks_encryption_key = [], ks_decryption_key = []\<rparr>) = Some (ps, s') \<and> distinct (sent_nonces ps))"
proof -
  have *: "sess_counter (session_new \<lparr>ks_encryption_key = [], ks_decryption_key = []\<rparr>) +
     count_encrypts [SEncrypt 1 2 [3], SDecrypt 4 [5] [6], SEncrypt 1 2 [3]] < 2 ^ 32"
    by (simp add: session_new_def)
  from * session_nonces_unique [OF *] show ?thesis by (rule conjI)
qed

end
