(* ===== verification/Disc_Rate_Limiter.thy ===== *)
theory Disc_Rate_Limiter
  imports Disc_Net
begin

text \<open>
  \<open>src/socket/filter/rate_limiter.rs\<close>: the generic cell rate algorithm. Durations are nanoseconds. The
  fields and the arithmetic of a \<open>Limiter\<close> are \<open>u64\<close>: \<open>as u64\<close> truncates, and an addition or
  multiplication that leaves the range panics, which is \<open>None\<close>. The estimate of requests per second, a
  single-precision expression that only sizes a metrics buffer, is passed in as a function of the quota.
\<close>

section \<open>The limiter of one kind of request\<close>

record quota =
  replenish_all_every :: duration
  max_tokens :: nat

datatype rate_limited_err = TooLarge | TooSoon duration

record 'k limiter =
  lim_tau :: nat
  lim_t :: nat
  lim_tat :: "'k \<rightharpoonup> nat"

definition U64_SIZE :: nat where
  "U64_SIZE = 2 ^ 64"

definition u64_of :: "nat \<Rightarrow> nat option" where
  "u64_of x = (if x < U64_SIZE then Some x else None)"

definition from_quota :: "quota \<Rightarrow> string + 'k limiter" where
  "from_quota q =
     (if max_tokens q = 0 then Inl ''Max number of tokens should be positive''
      else let tau = replenish_all_every q in
        if tau = 0 then Inl ''Replenish time must be positive''
        else case u64_of (tau div max_tokens q) of
          None \<Rightarrow> Inl ''total replenish time is too long''
        | Some t \<Rightarrow> (case u64_of tau of
            None \<Rightarrow> Inl ''total replenish time is too long''
          | Some tau \<Rightarrow> Inr \<lparr>lim_tau = tau, lim_t = t, lim_tat = Map.empty\<rparr>))"

definition lim_allows ::
  "duration \<Rightarrow> 'k \<Rightarrow> nat \<Rightarrow> 'k limiter \<Rightarrow> ((rate_limited_err + unit) \<times> 'k limiter) option" where
  "lim_allows time_since_start k tokens l =
     do {
       let now = time_since_start mod U64_SIZE;
       additional_time \<leftarrow> u64_of (lim_t l * tokens);
       if lim_tau l < additional_time then Some (Inl TooLarge, l)
       else do {
         let tat = (case lim_tat l k of Some v \<Rightarrow> v | None \<Rightarrow> now);
         let l = l\<lparr>lim_tat := (lim_tat l)(k \<mapsto> tat)\<rparr>;
         arrival \<leftarrow> u64_of (tat + additional_time);
         let earliest_time = arrival - lim_tau l;
         if now < earliest_time then Some (Inl (TooSoon (earliest_time - now)), l)
         else do {
           tat' \<leftarrow> u64_of (max now tat + additional_time);
           Some (Inr (), l\<lparr>lim_tat := (lim_tat l)(k \<mapsto> tat')\<rparr>)
         }
       }
     }"

definition lim_prune :: "duration \<Rightarrow> 'k limiter \<Rightarrow> 'k limiter" where
  "lim_prune time_limit l =
     (let lim = time_limit mod U64_SIZE
      in l\<lparr>lim_tat := (\<lambda>k. case lim_tat l k of Some tat \<Rightarrow> if lim \<le> tat then Some tat else None | None \<Rightarrow> None)\<rparr>)"

section \<open>The rate limiter and its builder\<close>

record rate_limiter =
  rl_total_requests_per_second :: nat
  rl_init_time :: instant
  rl_total :: "unit limiter"
  rl_node :: "node_id limiter option"
  rl_ip :: "ip_addr limiter option"

datatype limit_kind = LimitTotal | LimitNodeId node_id | LimitIp ip_addr

record rate_limiter_builder =
  total_quota :: "quota option"
  node_quota :: "quota option"
  ip_quota :: "quota option"

definition rlb_new :: rate_limiter_builder where
  "rlb_new = \<lparr>total_quota = None, node_quota = None, ip_quota = None\<rparr>"

definition total_n_every :: "nat \<Rightarrow> duration \<Rightarrow> rate_limiter_builder \<Rightarrow> rate_limiter_builder" where
  "total_n_every n time_period b = b\<lparr>total_quota := Some \<lparr>replenish_all_every = time_period, max_tokens = n\<rparr>\<rparr>"

definition node_n_every :: "nat \<Rightarrow> duration \<Rightarrow> rate_limiter_builder \<Rightarrow> rate_limiter_builder" where
  "node_n_every n time_period b = b\<lparr>node_quota := Some \<lparr>replenish_all_every = time_period, max_tokens = n\<rparr>\<rparr>"

definition ip_n_every :: "nat \<Rightarrow> duration \<Rightarrow> rate_limiter_builder \<Rightarrow> rate_limiter_builder" where
  "ip_n_every n time_period b = b\<lparr>ip_quota := Some \<lparr>replenish_all_every = time_period, max_tokens = n\<rparr>\<rparr>"

definition total_one_every :: "duration \<Rightarrow> rate_limiter_builder \<Rightarrow> rate_limiter_builder" where
  "total_one_every time_period b = b\<lparr>total_quota := Some \<lparr>replenish_all_every = time_period, max_tokens = 1\<rparr>\<rparr>"

definition node_one_every :: "duration \<Rightarrow> rate_limiter_builder \<Rightarrow> rate_limiter_builder" where
  "node_one_every time_period b = b\<lparr>node_quota := Some \<lparr>replenish_all_every = time_period, max_tokens = 1\<rparr>\<rparr>"

definition ip_one_every :: "duration \<Rightarrow> rate_limiter_builder \<Rightarrow> rate_limiter_builder" where
  "ip_one_every time_period b = b\<lparr>ip_quota := Some \<lparr>replenish_all_every = time_period, max_tokens = 1\<rparr>\<rparr>"

definition optional_limiter :: "quota option \<Rightarrow> string + 'k limiter option" where
  "optional_limiter q =
     (case q of Some q \<Rightarrow> (case from_quota q of Inl e \<Rightarrow> Inl e | Inr l \<Rightarrow> Inr (Some l)) | None \<Rightarrow> Inr None)"

definition rl_build ::
  "(quota \<Rightarrow> nat) \<Rightarrow> instant \<Rightarrow> rate_limiter_builder \<Rightarrow> string + rate_limiter" where
  "rl_build per_second now b =
     (case total_quota b of
        None \<Rightarrow> Inl ''Total quota not specified and must be set.''
      | Some q \<Rightarrow> (case from_quota q of
          Inl e \<Rightarrow> Inl e
        | Inr total_rl \<Rightarrow> (case optional_limiter (node_quota b) of
            Inl e \<Rightarrow> Inl e
          | Inr node_rl \<Rightarrow> (case optional_limiter (ip_quota b) of
              Inl e \<Rightarrow> Inl e
            | Inr ip_rl \<Rightarrow> Inr \<lparr>rl_total_requests_per_second = per_second q, rl_init_time = now,
                rl_total = total_rl, rl_node = node_rl, rl_ip = ip_rl\<rparr>))))"

definition rl_allows ::
  "instant \<Rightarrow> limit_kind \<Rightarrow> rate_limiter \<Rightarrow> ((rate_limited_err + unit) \<times> rate_limiter) option" where
  "rl_allows now request rl =
     (let time_since_start = now - rl_init_time rl; tokens = 1
      in case request of
           LimitTotal \<Rightarrow>
             map_option (map_prod (\<lambda>r. r) (\<lambda>l. rl\<lparr>rl_total := l\<rparr>)) (lim_allows time_since_start () tokens (rl_total rl))
         | LimitIp ip_addr \<Rightarrow> (case rl_ip rl of
             Some l \<Rightarrow> map_option (map_prod (\<lambda>r. r) (\<lambda>l. rl\<lparr>rl_ip := Some l\<rparr>)) (lim_allows time_since_start ip_addr tokens l)
           | None \<Rightarrow> Some (Inr (), rl))
         | LimitNodeId node_id \<Rightarrow> (case rl_node rl of
             Some l \<Rightarrow> map_option (map_prod (\<lambda>r. r) (\<lambda>l. rl\<lparr>rl_node := Some l\<rparr>)) (lim_allows time_since_start node_id tokens l)
           | None \<Rightarrow> Some (Inr (), rl)))"

definition rl_prune :: "instant \<Rightarrow> rate_limiter \<Rightarrow> rate_limiter" where
  "rl_prune now rl =
     (let time_since_start = now - rl_init_time rl
      in rl\<lparr>rl_total := lim_prune time_since_start (rl_total rl),
            rl_ip := map_option (lim_prune time_since_start) (rl_ip rl),
            rl_node := map_option (lim_prune time_since_start) (rl_node rl)\<rparr>)"

section \<open>Runs of a limiter\<close>

datatype 'k lim_event = Ask 'k | Prune

fun lim_run ::
  "(nat \<times> 'k lim_event) list \<Rightarrow> 'k limiter \<Rightarrow> ((rate_limited_err + unit) list \<times> 'k limiter) option" where
  "lim_run [] l = Some ([], l)"
| "lim_run ((now, Ask k) # es) l =
     do { (r, l) \<leftarrow> lim_allows now k 1 l; (rs, l) \<leftarrow> lim_run es l; Some (r # rs, l) }"
| "lim_run ((now, Prune) # es) l = lim_run es (lim_prune now l)"

text \<open>The number of accepted requests of a key.\<close>

fun accepted :: "'k \<Rightarrow> (nat \<times> 'k lim_event) list \<Rightarrow> (rate_limited_err + unit) list \<Rightarrow> nat" where
  "accepted k ((now, Ask k') # es) (r # rs) = (if k' = k \<and> r = Inr () then 1 else 0) + accepted k es rs"
| "accepted k ((now, Prune) # es) rs = accepted k es rs"
| "accepted k _ _ = 0"

text \<open>
  A limiter at a time: one token fits, and no theoretical arrival time is more than \<open>tau\<close> ahead.
\<close>

definition lim_inv :: "nat \<Rightarrow> 'k limiter \<Rightarrow> bool" where
  "lim_inv now l \<longleftrightarrow> lim_t l \<le> lim_tau l \<and> (\<forall>k v. lim_tat l k = Some v \<longrightarrow> v \<le> now + lim_tau l)"

definition tat_at :: "nat \<Rightarrow> 'k limiter \<Rightarrow> 'k \<Rightarrow> nat" where
  "tat_at now l k = (case lim_tat l k of Some v \<Rightarrow> max now v | None \<Rightarrow> now)"


lemma lim_allows_eq:
  assumes "lim_inv now0 l" "now0 \<le> now" "now + 2 * lim_tau l < U64_SIZE"
  shows "lim_allows now k 1 l =
    (let tat = tat_at now l k
     in if tat + lim_t l \<le> now + lim_tau l
        then Some (Inr (), l\<lparr>lim_tat := (lim_tat l)(k \<mapsto> tat + lim_t l)\<rparr>)
        else Some (Inl (TooSoon (tat + lim_t l - lim_tau l - now)), l))"
proof (cases "lim_tat l k")
  case None
  then show ?thesis using assms by (auto simp: lim_allows_def tat_at_def lim_inv_def u64_of_def Let_def)
next
  case (Some v)
  have "v \<le> now + lim_tau l" using assms Some by (force simp: lim_inv_def)
  then have b: "v + lim_t l < U64_SIZE" "max now v + lim_t l < U64_SIZE" "lim_t l < U64_SIZE" "now < U64_SIZE"
    using assms by (auto simp: lim_inv_def)
  have l: "l\<lparr>lim_tat := (lim_tat l)(k \<mapsto> v)\<rparr> = l" using Some by (simp add: map_upd_triv)
  show ?thesis
  proof (cases "v + lim_t l \<le> now + lim_tau l")
    case True
    with b assms show ?thesis
      by (auto simp: lim_allows_def tat_at_def lim_inv_def u64_of_def Let_def Some)
  next
    case False
    with b assms show ?thesis
      by (auto simp: lim_allows_def tat_at_def lim_inv_def u64_of_def Let_def Some l)
  qed
qed

lemma lim_inv_mono: "lim_inv now l \<Longrightarrow> now \<le> now' \<Longrightarrow> lim_inv now' l"
  by (force simp: lim_inv_def)

lemma lim_prune_simps [simp]: "lim_tau (lim_prune now l) = lim_tau l" "lim_t (lim_prune now l) = lim_t l"
  by (simp_all add: lim_prune_def Let_def)

lemma lim_prune_inv: "lim_inv now0 l \<Longrightarrow> lim_inv now0 (lim_prune now l)"
  by (auto simp: lim_inv_def lim_prune_def Let_def split: option.splits if_splits)

text \<open>Pruning is invisible from its time on.\<close>

lemma tat_at_prune: "lim \<le> now \<Longrightarrow> lim < U64_SIZE \<Longrightarrow> tat_at now (lim_prune lim l) k = tat_at now l k"
  by (auto simp: tat_at_def lim_prune_def Let_def split: option.split)

lemma tat_at_mono: "now \<le> now' \<Longrightarrow> tat_at now l k \<le> tat_at now' l k"
  by (auto simp: tat_at_def split: option.split)

lemma tat_at_bound: "lim_inv now l \<Longrightarrow> tat_at now l k \<le> now + lim_tau l"
  by (auto simp: tat_at_def lim_inv_def split: option.split)

text \<open>
  The run from a time on, with the theoretical arrival time of a key as the potential: every accepted
  request raises it by \<open>t\<close>, and it stays within \<open>tau\<close> of the current time.
\<close>

lemma lim_run_window:
  assumes "lim_inv x l" "sorted (x # map fst es)" "\<forall>e\<in>set es. fst e \<le> y" "x \<le> y" "y + 2 * lim_tau l < U64_SIZE"
  shows "\<exists>rs l'. lim_run es l = Some (rs, l') \<and> lim_inv y l' \<and> lim_tau l' = lim_tau l \<and> lim_t l' = lim_t l \<and>
    tat_at x l k + accepted k es rs * lim_t l \<le> tat_at y l' k"
  using assms
proof (induction es arbitrary: x l)
  case Nil
  then show ?case by (auto simp: tat_at_mono intro: lim_inv_mono)
next
  case (Cons e es)
  obtain now ev where e: "e = (now, ev)" by (cases e)
  have ord: "x \<le> now" "now \<le> y" "sorted (now # map fst es)" using Cons.prems by (auto simp: e)
  have inv: "lim_inv now l" using Cons.prems(1) ord(1) by (rule lim_inv_mono)
  have step: "\<exists>rs l'. lim_run es l1 = Some (rs, l') \<and> lim_inv y l' \<and> lim_tau l' = lim_tau l1 \<and> lim_t l' = lim_t l1 \<and>
      tat_at now l1 k + accepted k es rs * lim_t l1 \<le> tat_at y l' k"
    if "lim_inv now l1" "lim_tau l1 = lim_tau l" for l1
    using Cons.IH [OF that(1) ord(3)] Cons.prems that ord(2) by simp
  have le: "tat_at x l k \<le> tat_at now l k" by (rule tat_at_mono [OF ord(1)])
  show ?case
  proof (cases ev)
    case Prune
    have "tat_at now (lim_prune now l) k = tat_at now l k"
      using ord Cons.prems(5) by (intro tat_at_prune) auto
    moreover obtain rs l' where "lim_run es (lim_prune now l) = Some (rs, l')" "lim_inv y l'" "lim_tau l' = lim_tau l"
      "lim_t l' = lim_t l" "tat_at now (lim_prune now l) k + accepted k es rs * lim_t l \<le> tat_at y l' k"
      using step [OF lim_prune_inv [OF inv, of now]] by auto
    ultimately show ?thesis using le by (intro exI [of _ rs] exI [of _ l']) (auto simp: e Prune)
  next
    case (Ask k')
    let ?T = "tat_at now l k'"
    let ?l = "l\<lparr>lim_tat := (lim_tat l)(k' \<mapsto> ?T + lim_t l)\<rparr>"
    have small: "now + 2 * lim_tau l < U64_SIZE" using ord(2) Cons.prems(5) by simp
    show ?thesis
    proof (cases "?T + lim_t l \<le> now + lim_tau l")
      case True
      then have "lim_allows now k' 1 l = Some (Inr (), ?l)"
        using lim_allows_eq [OF inv order_refl small] by (simp add: Let_def)
      moreover have "lim_inv now ?l" using inv True by (auto simp: lim_inv_def)
      moreover have "tat_at now ?l k = (if k' = k then ?T + lim_t l else tat_at now l k)"
        by (auto simp: tat_at_def split: option.split)
      moreover obtain rs l' where "lim_run es ?l = Some (rs, l')" "lim_inv y l'" "lim_tau l' = lim_tau l"
        "lim_t l' = lim_t l" "tat_at now ?l k + accepted k es rs * lim_t l \<le> tat_at y l' k"
        using step [of ?l] calculation(2) by auto
      ultimately show ?thesis
        using le by (intro exI [of _ "Inr () # rs"] exI [of _ l']) (auto simp: e Ask algebra_simps split: if_splits)
    next
      case False
      then have "lim_allows now k' 1 l = Some (Inl (TooSoon (?T + lim_t l - lim_tau l - now)), l)"
        using lim_allows_eq [OF inv order_refl small] by (simp add: Let_def)
      moreover obtain rs l' where "lim_run es l = Some (rs, l')" "lim_inv y l'" "lim_tau l' = lim_tau l"
        "lim_t l' = lim_t l" "tat_at now l k + accepted k es rs * lim_t l \<le> tat_at y l' k"
        using step [OF inv] by auto
      ultimately show ?thesis
        using le by (intro exI [of _ "Inl (TooSoon (?T + lim_t l - lim_tau l - now)) # rs"] exI [of _ l'])
          (auto simp: e Ask)
    qed
  qed
qed

lemma from_quota_Inr:
  "from_quota q = Inr l \<Longrightarrow> lim_inv now l \<and> lim_tau l = replenish_all_every q \<and>
     lim_t l = replenish_all_every q div max_tokens q \<and> lim_tat l = Map.empty \<and> 0 < max_tokens q \<and> 0 < lim_tau l"
  by (auto simp: from_quota_def lim_inv_def u64_of_def Let_def split: if_splits)

text \<open>
  C29. The rate is enforced over every window: of the requests of one key between two instants, with any
  requests of other keys and any pruning in between, at most \<open>(window + tau) / t\<close> are accepted, where \<open>t\<close>
  is the time in which one token is replenished. No request overflows while the clock stays \<open>2 tau\<close> below
  the end of the \<open>u64\<close> range.
\<close>

theorem rate_limit_window:
  assumes "lim_inv x l" "sorted (x # map fst es)" "\<forall>e\<in>set es. fst e \<le> y" "x \<le> y" "y + 2 * lim_tau l < U64_SIZE"
  shows "\<exists>rs l'. lim_run es l = Some (rs, l') \<and> lim_inv y l' \<and> accepted k es rs * lim_t l \<le> (y - x) + lim_tau l"
proof -
  from lim_run_window [OF assms, of k] obtain rs l' where
    r: "lim_run es l = Some (rs, l')" "lim_inv y l'" "lim_tau l' = lim_tau l"
      "tat_at x l k + accepted k es rs * lim_t l \<le> tat_at y l' k" by auto
  have "x \<le> tat_at x l k" by (auto simp: tat_at_def split: option.split)
  with r tat_at_bound [OF r(2), of k] assms(4) have "accepted k es rs * lim_t l \<le> (y - x) + lim_tau l" by simp
  with r show ?thesis by blast
qed


lemma tat_at_later: "x \<le> now \<Longrightarrow> tat_at now l k = max now (tat_at x l k)"
  by (auto simp: tat_at_def split: option.split)

text \<open>Two limiters that agree on the theoretical arrival times answer alike.\<close>

definition lim_similar :: "nat \<Rightarrow> 'k limiter \<Rightarrow> 'k limiter \<Rightarrow> bool" where
  "lim_similar x l1 l2 \<longleftrightarrow> lim_inv x l1 \<and> lim_inv x l2 \<and> lim_tau l1 = lim_tau l2 \<and> lim_t l1 = lim_t l2 \<and>
     (\<forall>k. tat_at x l1 k = tat_at x l2 k)"

lemma lim_similar_later: "lim_similar x l1 l2 \<Longrightarrow> x \<le> now \<Longrightarrow> lim_similar now l1 l2"
  by (auto simp: lim_similar_def tat_at_later [of x now] intro: lim_inv_mono)

lemma lim_allows_similar:
  assumes "lim_similar now l1 l2" "now + 2 * lim_tau l1 < U64_SIZE"
  shows "\<exists>r l1' l2'. lim_allows now k 1 l1 = Some (r, l1') \<and> lim_allows now k 1 l2 = Some (r, l2') \<and>
    lim_similar now l1' l2' \<and> lim_tau l1' = lim_tau l1"
proof -
  have s: "lim_inv now l1" "lim_inv now l2" "lim_tau l2 = lim_tau l1" "lim_t l2 = lim_t l1" "tat_at now l2 k = tat_at now l1 k"
    using assms(1) by (auto simp: lim_similar_def)
  note eqs = lim_allows_eq [OF s(1) order_refl assms(2), of k] lim_allows_eq [OF s(2) order_refl, of k]
  let ?T = "tat_at now l1 k"
  show ?thesis
  proof (cases "?T + lim_t l1 \<le> now + lim_tau l1")
    case True
    then show ?thesis using eqs assms s by (auto simp: Let_def lim_similar_def lim_inv_def tat_at_def)
  next
    case False
    then show ?thesis using eqs assms s by (auto simp: Let_def)
  qed
qed

lemma lim_run_similar:
  assumes "lim_similar x l1 l2" "sorted (x # map fst es)" "\<forall>e\<in>set es. fst e + 2 * lim_tau l1 < U64_SIZE"
  shows "map_option fst (lim_run es l1) = map_option fst (lim_run es l2)"
  using assms
proof (induction es arbitrary: x l1 l2)
  case (Cons e es)
  obtain now ev where e: "e = (now, ev)" by (cases e)
  have ord: "x \<le> now" "sorted (now # map fst es)" "now + 2 * lim_tau l1 < U64_SIZE" using Cons.prems by (auto simp: e)
  have sim: "lim_similar now l1 l2" using Cons.prems(1) ord(1) by (rule lim_similar_later)
  show ?case
  proof (cases ev)
    case Prune
    have "lim_similar now (lim_prune now l1) (lim_prune now l2)"
      using sim ord(3) by (auto simp: lim_similar_def tat_at_prune lim_prune_inv)
    from Cons.IH [OF this ord(2)] Cons.prems(3) show ?thesis by (simp add: e Prune)
  next
    case (Ask k)
    from lim_allows_similar [OF sim ord(3), of k] obtain r l1' l2' where
      "lim_allows now k 1 l1 = Some (r, l1')" "lim_allows now k 1 l2 = Some (r, l2')"
      "lim_similar now l1' l2'" "lim_tau l1' = lim_tau l1" by blast
    with Cons.IH [OF this(3) ord(2)] Cons.prems(3) show ?thesis
      by (cases "lim_run es l1'"; cases "lim_run es l2'") (auto simp: e Ask)
  qed
qed simp

text \<open>
  Pruning never changes an answer: whatever requests and prunings follow at or after the time of a
  pruning, they are answered as if the pruned keys were still stored.
\<close>

lemma rate_limit_prune_invisible:
  assumes "lim_inv x l" "sorted (x # map fst es)" "x < U64_SIZE" "\<forall>e\<in>set es. fst e + 2 * lim_tau l < U64_SIZE"
  shows "map_option fst (lim_run es (lim_prune x l)) = map_option fst (lim_run es l)"
  using assms by (intro lim_run_similar [of x]) (auto simp: lim_similar_def tat_at_prune lim_prune_inv)

lemma lim_batch:
  assumes "lim_inv x l" "x + 2 * lim_tau l < U64_SIZE"
  shows "\<exists>rs l'. lim_run (replicate n (x, Ask k)) l = Some (rs, l') \<and>
    accepted k (replicate n (x, Ask k)) rs =
      (if lim_t l = 0 then n else min n ((x + lim_tau l - tat_at x l k) div lim_t l))"
  using assms
proof (induction n arbitrary: l)
  case (Suc n)
  let ?T = "tat_at x l k"
  let ?l = "l\<lparr>lim_tat := (lim_tat l)(k \<mapsto> ?T + lim_t l)\<rparr>"
  note eq = lim_allows_eq [OF Suc.prems(1) order_refl Suc.prems(2), of k]
  have T: "?T \<le> x + lim_tau l" using Suc.prems(1) by (rule tat_at_bound)
  show ?case
  proof (cases "?T + lim_t l \<le> x + lim_tau l")
    case True
    have inv: "lim_inv x ?l" using Suc.prems(1) True by (auto simp: lim_inv_def)
    have "x \<le> ?T" by (auto simp: tat_at_def split: option.split)
    then have t: "tat_at x ?l k = ?T + lim_t l" by (simp add: tat_at_def)
    from Suc.IH [OF inv] Suc.prems(2) obtain rs l' where r: "lim_run (replicate n (x, Ask k)) ?l = Some (rs, l')"
      "accepted k (replicate n (x, Ask k)) rs =
        (if lim_t l = 0 then n else min n ((x + lim_tau l - (?T + lim_t l)) div lim_t l))"
      by (auto simp: t)
    have "(x + lim_tau l - ?T) div lim_t l = Suc ((x + lim_tau l - (?T + lim_t l)) div lim_t l)" if "lim_t l \<noteq> 0"
      using True that by (subst div_if) (auto simp: diff_diff_left)
    with r True eq show ?thesis by (intro exI [of _ "Inr () # rs"] exI [of _ l']) (auto simp: Let_def)
  next
    case False
    then have "(x + lim_tau l - ?T) div lim_t l = 0" "lim_t l \<noteq> 0" using T by auto
    moreover from Suc.IH [OF Suc.prems] obtain rs l' where r: "lim_run (replicate n (x, Ask k)) l = Some (rs, l')"
      "accepted k (replicate n (x, Ask k)) rs =
        (if lim_t l = 0 then n else min n ((x + lim_tau l - ?T) div lim_t l))" by auto
    ultimately show ?thesis using False eq
      by (intro exI [of _ "Inl (TooSoon (?T + lim_t l - lim_tau l - x)) # rs"] exI [of _ l']) (auto simp: Let_def)
  qed
qed simp

lemma div_div_ge: "0 < (m::nat) \<Longrightarrow> 0 < n div m \<Longrightarrow> m \<le> n div (n div m)"
  by (metis div_times_less_eq_dividend less_eq_div_iff_mult_less_eq mult.commute)

text \<open>
  The burst a quota grants: of a batch of requests of a new key at one instant, a limiter built from
  the quota accepts the first \<open>tau div t\<close>, which are at least \<open>max_tokens\<close>, and all of them if the quota
  replenishes more than one token per nanosecond. (It is exactly \<open>max_tokens\<close> if \<open>max_tokens\<close> divides \<open>tau\<close>.)
\<close>

lemma rate_limit_burst:
  assumes "from_quota q = Inr l" "x + 2 * replenish_all_every q < U64_SIZE"
  shows "\<exists>rs l'. lim_run (replicate n (x, Ask k)) l = Some (rs, l') \<and>
    accepted k (replicate n (x, Ask k)) rs = (if lim_t l = 0 then n else min n (lim_tau l div lim_t l)) \<and>
    (lim_t l = 0 \<or> max_tokens q \<le> lim_tau l div lim_t l) \<and>
    (max_tokens q dvd replenish_all_every q \<longrightarrow> lim_tau l div lim_t l = max_tokens q)"
proof -
  have q: "lim_inv x l" "lim_tau l = replenish_all_every q" "lim_t l = lim_tau l div max_tokens q"
    "lim_tat l = Map.empty" "0 < max_tokens q" "0 < lim_tau l" using from_quota_Inr [OF assms(1), of x] by auto
  have "tat_at x l k = x" by (simp add: tat_at_def q(4))
  moreover have "lim_t l = 0 \<or> max_tokens q \<le> lim_tau l div lim_t l"
    unfolding q(3) using div_div_ge [OF q(5), of "lim_tau l"] by blast
  moreover have "lim_tau l div lim_t l = max_tokens q" if "max_tokens q dvd replenish_all_every q"
    using that q by (auto elim!: dvdE)
  ultimately show ?thesis using lim_batch [OF q(1), of n k] assms(2) q(2) by auto
qed

section \<open>Witnesses\<close>

definition ex_quota :: quota where
  "ex_quota = \<lparr>replenish_all_every = 10, max_tokens = 4\<rparr>"

definition ex_limiter :: "nat limiter" where
  "ex_limiter = \<lparr>lim_tau = 10, lim_t = 2, lim_tat = [7 \<mapsto> 13]\<rparr>"

lemma ex_limiter_inv: "lim_inv 5 ex_limiter"
  by (simp add: lim_inv_def ex_limiter_def)

definition ex_requests :: "(nat \<times> nat lim_event) list" where
  "ex_requests = [(5, Ask 7), (6, Ask 7), (6, Prune), (8, Ask 7), (9, Ask 1)]"

theorem rate_limit_window_witness:
  "lim_inv 5 ex_limiter \<and>
   (\<exists>rs l'. lim_run ex_requests ex_limiter = Some (rs, l') \<and> lim_inv 9 l' \<and> accepted 7 ex_requests rs * 2 \<le> 14)"
proof -
  have "lim_t ex_limiter = 2" "lim_tau ex_limiter = 10" by (simp_all add: ex_limiter_def)
  then show ?thesis
    using rate_limit_window [OF ex_limiter_inv, of ex_requests 9 7] ex_limiter_inv
    by (auto simp: ex_requests_def U64_SIZE_def)
qed

text \<open>With four tokens every ten nanoseconds, five requests at one instant are accepted.\<close>

end
