(* ===== verification/Disc_Packet_Filter.thy ===== *)
theory Disc_Packet_Filter
  imports Disc_Node_Info Disc_Rate_Limiter Disc_Packet
begin

text \<open>
  \<open>src/socket/filter\<close> and \<open>src/socket/recv.rs\<close>: the cache of recent packets, the packet filter and the
  handling of one received datagram. The permit and ban list, a global of the program, is passed as state.
  The clock is a function: reading number \<open>i\<close> gives \<open>clock i\<close>, and an operation that reads it several
  times passes the number of readings on. \<open>checked_sub\<close> of an instant before the start of the clock is a
  panic.

  The bounded caches of the \<open>lru\<close> crate are the operations \<open>lru_cache\<close>: \<open>lc_get\<close> is the value
  \<open>get_mut\<close> finds, \<open>lc_write\<close> the state after \<open>get_mut\<close> and a write through the reference;
  \<open>lru_cache_laws\<close> states that a stored value is found until it is overwritten, removed or evicted.
\<close>

section \<open>Recently received packets\<close>

definition SECOND :: duration where
  "SECOND = 1000000000"

definition ENFORCED_SIZE_TIME :: nat where
  "ENFORCED_SIZE_TIME = 1"

record 'a received_packet =
  rp_content :: 'a
  rp_received :: instant

record 'a packet_cache =
  pc_target :: nat
  pc_time_window :: nat
  pc_within_enforced_time :: nat
  pc_inner :: "'a received_packet list"

text \<open>
  \<open>VecDeque::with_capacity\<close> panics if the elements would take more than \<open>isize::MAX\<close> bytes. The language leaves
  the size of an element open, so \<open>elem_size\<close> is an argument.
\<close>

definition with_capacity :: "nat \<Rightarrow> nat \<Rightarrow> 'a list option" where
  "with_capacity elem_size capacity = (if capacity * elem_size < 2 ^ 63 then Some [] else None)"

definition pc_new :: "nat \<Rightarrow> nat \<Rightarrow> nat \<Rightarrow> 'a packet_cache option" where
  "pc_new elem_size target time_window =
     do {
       capacity \<leftarrow> u64_of (target * time_window);
       inner \<leftarrow> with_capacity elem_size capacity;
       Some \<lparr>pc_target = target, pc_time_window = time_window, pc_within_enforced_time = 0, pc_inner = inner\<rparr>
     }"

fun reset_pop ::
  "(nat \<Rightarrow> instant) \<Rightarrow> duration \<Rightarrow> nat \<Rightarrow> 'a received_packet list \<Rightarrow> (nat \<times> 'a received_packet list) option" where
  "reset_pop clock window i [] = Some (i, [])"
| "reset_pop clock window i (p # ps) =
     do {
       limit \<leftarrow> checked_sub (clock i) window;
       if limit < rp_received p then Some (i + 1, p # ps) else reset_pop clock window (i + 1) ps
     }"

text \<open>The count runs from the newest packet backwards.\<close>

fun reset_count ::
  "(nat \<Rightarrow> instant) \<Rightarrow> duration \<Rightarrow> nat \<Rightarrow> nat \<Rightarrow> 'a received_packet list \<Rightarrow> (nat \<times> nat) option" where
  "reset_count clock window i count [] = Some (i, count)"
| "reset_count clock window i count (p # ps) =
     do {
       limit \<leftarrow> checked_sub (clock i) window;
       if limit < rp_received p then reset_count clock window (i + 1) (count + 1) ps else Some (i + 1, count)
     }"

definition pc_reset :: "(nat \<Rightarrow> instant) \<Rightarrow> nat \<Rightarrow> 'a packet_cache \<Rightarrow> (nat \<times> 'a packet_cache) option" where
  "pc_reset clock i c =
     do {
       (i, inner) \<leftarrow> reset_pop clock (pc_time_window c * SECOND) i (pc_inner c);
       (i, count) \<leftarrow> reset_count clock (ENFORCED_SIZE_TIME * SECOND) i 0 (rev inner);
       Some (i, c\<lparr>pc_inner := inner, pc_within_enforced_time := count\<rparr>)
     }"

definition pc_internal_insert ::
  "(nat \<Rightarrow> instant) \<Rightarrow> nat \<Rightarrow> 'a \<Rightarrow> 'a packet_cache \<Rightarrow> bool \<times> nat \<times> 'a packet_cache" where
  "pc_internal_insert clock i content c =
     (if pc_target c \<le> pc_within_enforced_time c then (False, i, c)
      else (True, i + 1,
            c\<lparr>pc_inner := pc_inner c @ [\<lparr>rp_content = content, rp_received = clock i\<rparr>],
              pc_within_enforced_time := pc_within_enforced_time c + 1\<rparr>))"

definition pc_cache_insert ::
  "(nat \<Rightarrow> instant) \<Rightarrow> nat \<Rightarrow> 'a \<Rightarrow> 'a packet_cache \<Rightarrow> (bool \<times> nat \<times> 'a packet_cache) option" where
  "pc_cache_insert clock i content c =
     do { (i, c) \<leftarrow> pc_reset clock i c; Some (pc_internal_insert clock i content c) }"

section \<open>The filter\<close>

record ('m, 'k, 'v) lru_cache =
  lc_new :: "nat \<Rightarrow> 'm"
  lc_get :: "'k \<Rightarrow> 'm \<Rightarrow> 'v option"
  lc_write :: "'k \<Rightarrow> 'v \<Rightarrow> 'm \<Rightarrow> 'm"
  lc_put :: "'k \<Rightarrow> 'v \<Rightarrow> 'm \<Rightarrow> 'm"
  lc_pop :: "'k \<Rightarrow> 'm \<Rightarrow> 'm"

definition lru_cache_laws :: "('m, 'k, 'v) lru_cache \<Rightarrow> bool" where
  "lru_cache_laws C \<longleftrightarrow>
     (\<forall>n k. lc_get C k (lc_new C n) = None) \<and>
     (\<forall>m k v. lc_get C k (lc_put C k v m) = Some v) \<and>
     (\<forall>m k k' v. k' \<noteq> k \<longrightarrow> lc_get C k' (lc_put C k v m) \<in> {None, lc_get C k' m}) \<and>
     (\<forall>m k k' v. lc_get C k m \<noteq> None \<longrightarrow> lc_get C k' (lc_write C k v m) = (if k' = k then Some v else lc_get C k' m)) \<and>
     (\<forall>m k k'. lc_get C k' (lc_pop C k m) = (if k' = k then None else lc_get C k' m))"

definition KNOWN_ADDRS_SIZE :: nat where
  "KNOWN_ADDRS_SIZE = 500"

definition BANNED_NODES_SIZE :: nat where
  "BANNED_NODES_SIZE = 50"

definition DEFAULT_PACKETS_PER_SECOND :: nat where
  "DEFAULT_PACKETS_PER_SECOND = 20"

definition MOVING_WINDOW :: nat where
  "MOVING_WINDOW = 5"

record filter_config =
  fc_enabled :: bool
  fc_rate_limiter :: "rate_limiter option"
  fc_max_nodes_per_ip :: "nat option"
  fc_max_bans_per_ip :: "nat option"

record ('a, 'b) packet_filter =
  pf_enabled :: bool
  pf_rate_limiter :: "rate_limiter option"
  pf_raw_packets_received :: "socket_addr packet_cache"
  pf_ban_duration :: "duration option"
  pf_known_addrs :: 'a
  pf_banned_nodes :: 'b
  pf_max_nodes_per_ip :: "nat option"
  pf_max_bans_per_ip :: "nat option"

type_synonym 'a known_cache = "('a, ip_addr, node_id set) lru_cache"
type_synonym 'b banned_cache = "('b, ip_addr, nat) lru_cache"

text \<open>The cast of the rate to \<open>usize\<close> saturates.\<close>

definition expected_packets_per_second :: "rate_limiter option \<Rightarrow> nat" where
  "expected_packets_per_second limiter =
     (case limiter of
        Some v \<Rightarrow> min (rl_total_requests_per_second v) (U64_SIZE - 1)
      | None \<Rightarrow> DEFAULT_PACKETS_PER_SECOND)"

definition pf_new ::
  "nat \<Rightarrow> 'a known_cache \<Rightarrow> 'b banned_cache \<Rightarrow> filter_config \<Rightarrow> duration option \<Rightarrow> ('a, 'b) packet_filter option" where
  "pf_new elem_size K B config ban_duration =
     do {
       raw_packets_received \<leftarrow> pc_new elem_size (expected_packets_per_second (fc_rate_limiter config)) MOVING_WINDOW;
       Some \<lparr>pf_enabled = fc_enabled config, pf_rate_limiter = fc_rate_limiter config,
          pf_raw_packets_received = raw_packets_received,
          pf_ban_duration = ban_duration, pf_known_addrs = lc_new K KNOWN_ADDRS_SIZE,
          pf_banned_nodes = lc_new B BANNED_NODES_SIZE,
          pf_max_nodes_per_ip = fc_max_nodes_per_ip config, pf_max_bans_per_ip = fc_max_bans_per_ip config\<rparr>
     }"

definition is_err :: "'e + 'a \<Rightarrow> bool" where
  "is_err r = (case r of Inl _ \<Rightarrow> True | Inr _ \<Rightarrow> False)"

type_synonym ('a, 'b) filter_result = "(bool \<times> nat \<times> ('a, 'b) packet_filter \<times> permit_ban_list) option"

definition initial_pass ::
  "(nat \<Rightarrow> instant) \<Rightarrow> nat \<Rightarrow> socket_addr \<Rightarrow> ('a, 'b) packet_filter \<Rightarrow> permit_ban_list \<Rightarrow> ('a, 'b) filter_result" where
  "initial_pass clock i src f pb =
     (if sa_ip src \<in> permit_ips pb then Some (True, i, f, pb)
      else if ban_ips pb (sa_ip src) \<noteq> None then Some (False, i, f, pb)
      else do {
        (_, i, cache) \<leftarrow> pc_cache_insert clock i src (pf_raw_packets_received f);
        let f = f\<lparr>pf_raw_packets_received := cache\<rparr>;
        if \<not> pf_enabled f then Some (True, i, f, pb)
        else case pf_rate_limiter f of
          None \<Rightarrow> Some (True, i, f, pb)
        | Some rate_limiter \<Rightarrow> do {
            (r, rate_limiter) \<leftarrow> rl_allows (clock i) (LimitIp (sa_ip src)) rate_limiter;
            let f = f\<lparr>pf_rate_limiter := Some rate_limiter\<rparr>;
            if is_err r then
              let ban_timeout = map_option (\<lambda>v. clock (i + 1) + v) (pf_ban_duration f)
              in Some (False, i + 2, f, pb\<lparr>ban_ips := (ban_ips pb)(sa_ip src \<mapsto> ban_timeout)\<rparr>)
            else do {
              (r, rate_limiter) \<leftarrow> rl_allows (clock (i + 1)) LimitTotal rate_limiter;
              let f = f\<lparr>pf_rate_limiter := Some rate_limiter\<rparr>;
              Some (\<not> is_err r, i + 2, f, pb)
            }
          }
      })"

text \<open>The count of banned nodes behind an address, after another one has been banned.\<close>

definition count_banned_node ::
  "'b banned_cache \<Rightarrow> ip_addr \<Rightarrow> instant option \<Rightarrow> ('a, 'b) packet_filter \<Rightarrow> permit_ban_list
     \<Rightarrow> ('a, 'b) packet_filter \<times> permit_ban_list" where
  "count_banned_node B ip ban_timeout f pb =
     (case pf_max_bans_per_ip f of
        None \<Rightarrow> (f, pb)
      | Some max_bans_per_ip \<Rightarrow>
          (case lc_get B ip (pf_banned_nodes f) of
             Some banned_count \<Rightarrow>
               (f\<lparr>pf_banned_nodes := lc_write B ip (banned_count + 1) (pf_banned_nodes f)\<rparr>,
                if max_bans_per_ip \<le> banned_count + 1
                then pb\<lparr>ban_ips := (ban_ips pb)(ip \<mapsto> ban_timeout)\<rparr> else pb)
           | None \<Rightarrow> (f\<lparr>pf_banned_nodes := lc_put B ip 0 (pf_banned_nodes f)\<rparr>, pb)))"

definition check_nodes_per_ip ::
  "'a known_cache \<Rightarrow> (nat \<Rightarrow> instant) \<Rightarrow> nat \<Rightarrow> node_address \<Rightarrow> ('a, 'b) packet_filter \<Rightarrow> permit_ban_list
     \<Rightarrow> bool \<times> nat \<times> ('a, 'b) packet_filter \<times> permit_ban_list" where
  "check_nodes_per_ip K clock i node_address f pb =
     (case pf_max_nodes_per_ip f of
        None \<Rightarrow> (True, i, f, pb)
      | Some max_nodes_per_ip \<Rightarrow>
          let ip = sa_ip (na_socket_addr node_address);
              (known_nodes, addrs) =
                (case lc_get K ip (pf_known_addrs f) of
                   Some known_nodes \<Rightarrow>
                     let ids = insert (na_node_id node_address) known_nodes
                     in (card ids, lc_write K ip ids (pf_known_addrs f))
                 | None \<Rightarrow> (1, lc_put K ip {na_node_id node_address} (pf_known_addrs f)))
          in if max_nodes_per_ip \<le> known_nodes then
               let ban_timeout = map_option (\<lambda>v. clock i + v) (pf_ban_duration f)
               in (False, i + 1, f\<lparr>pf_known_addrs := lc_pop K ip addrs\<rparr>,
                   pb\<lparr>ban_ips := (ban_ips pb)(ip \<mapsto> ban_timeout)\<rparr>)
             else (True, i, f\<lparr>pf_known_addrs := addrs\<rparr>, pb))"

definition final_pass ::
  "'a known_cache \<Rightarrow> 'b banned_cache \<Rightarrow> (nat \<Rightarrow> instant) \<Rightarrow> nat \<Rightarrow> node_address \<Rightarrow> ('a, 'b) packet_filter
     \<Rightarrow> permit_ban_list \<Rightarrow> ('a, 'b) filter_result" where
  "final_pass K B clock i node_address f pb =
     (if na_node_id node_address \<in> permit_nodes pb then Some (True, i, f, pb)
      else if ban_nodes pb (na_node_id node_address) \<noteq> None then Some (False, i, f, pb)
      else if \<not> pf_enabled f then Some (True, i, f, pb)
      else case pf_rate_limiter f of
        None \<Rightarrow> Some (check_nodes_per_ip K clock i node_address f pb)
      | Some rate_limiter \<Rightarrow> do {
          (r, rate_limiter) \<leftarrow> rl_allows (clock i) (LimitNodeId (na_node_id node_address)) rate_limiter;
          let f = f\<lparr>pf_rate_limiter := Some rate_limiter\<rparr>;
          if is_err r then
            let ban_timeout = map_option (\<lambda>v. clock (i + 1) + v) (pf_ban_duration f);
                pb = pb\<lparr>ban_nodes := (ban_nodes pb)(na_node_id node_address \<mapsto> ban_timeout)\<rparr>;
                (f, pb) = count_banned_node B (sa_ip (na_socket_addr node_address)) ban_timeout f pb
            in Some (False, i + 2, f, pb)
          else Some (check_nodes_per_ip K clock (i + 1) node_address f pb)
        })"

definition prune_limiter :: "instant \<Rightarrow> ('a, 'b) packet_filter \<Rightarrow> ('a, 'b) packet_filter" where
  "prune_limiter now f = f\<lparr>pf_rate_limiter := map_option (rl_prune now) (pf_rate_limiter f)\<rparr>"

section \<open>Receiving a datagram\<close>

record 'enr inbound_packet =
  ib_src_address :: socket_addr
  ib_header :: "'enr packet_header"
  ib_message :: "byte list"
  ib_authenticated_data :: "byte list"

fun clear_flow_and_scope :: "socket_addr \<Rightarrow> socket_addr" where
  "clear_flow_and_scope (SocketV6 a p f s) = (if f \<noteq> 0 \<or> s \<noteq> 0 then SocketV6 a p 0 0 else SocketV6 a p f s)"
| "clear_flow_and_scope (SocketV4 a p) = SocketV4 a p"

text \<open>
  \<open>expected\<close> is the shared map of addresses from which responses are expected, \<open>data\<close> the received bytes;
  the result is the packet that is sent to the handler, if any.
\<close>

definition handle_inbound ::
  "keystream \<Rightarrow> ('enr, 'e) enr_codec \<Rightarrow> protocol_identity \<Rightarrow> 'a known_cache \<Rightarrow> 'b banned_cache
     \<Rightarrow> node_id \<Rightarrow> (socket_addr \<rightharpoonup> nat) \<Rightarrow> (nat \<Rightarrow> instant) \<Rightarrow> socket_addr \<Rightarrow> byte list
     \<Rightarrow> ('a, 'b) packet_filter \<Rightarrow> permit_ban_list
     \<Rightarrow> ('enr inbound_packet option \<times> ('a, 'b) packet_filter \<times> permit_ban_list) option" where
  "handle_inbound ctr E P K B node_id expected clock src_address data f pb =
     do {
       let src_address = clear_flow_and_scope src_address;
       let permitted = (expected src_address \<noteq> None);
       (passed, i, f, pb) \<leftarrow> (if permitted then Some (True, 0, f, pb) else initial_pass clock 0 src_address f pb);
       if \<not> passed then Some (None, f, pb)
       else do {
         decoded \<leftarrow> packet_decode ctr E P node_id data;
         case decoded of
           Inl e \<Rightarrow> Some (None, f, pb)
         | Inr (packet, auth_data) \<Rightarrow> do {
             (passed, i, f, pb) \<leftarrow>
               (case packet_src_id packet of
                  None \<Rightarrow> Some (True, i, f, pb)
                | Some node_id \<Rightarrow>
                    if permitted then Some (True, i, f, pb)
                    else final_pass K B clock i \<lparr>na_socket_addr = src_address, na_node_id = node_id\<rparr> f pb);
             if \<not> passed then Some (None, f, pb)
             else Some (Some \<lparr>ib_src_address = src_address, ib_header = packet_header packet,
                              ib_message = packet_message packet, ib_authenticated_data = auth_data\<rparr>,
                        f, pb)
           }
       }
     }"


section \<open>Bans are respected and kept\<close>

definition bans_kept :: "permit_ban_list \<Rightarrow> permit_ban_list \<Rightarrow> bool" where
  "bans_kept pb pb' \<longleftrightarrow> permit_ips pb' = permit_ips pb \<and> permit_nodes pb' = permit_nodes pb \<and>
     dom (ban_ips pb) \<subseteq> dom (ban_ips pb') \<and> dom (ban_nodes pb) \<subseteq> dom (ban_nodes pb')"

lemma bans_kept_refl [simp]: "bans_kept pb pb"
  by (simp add: bans_kept_def)

lemma bans_kept_trans: "bans_kept a b \<Longrightarrow> bans_kept b c \<Longrightarrow> bans_kept a c"
  unfolding bans_kept_def by (metis subset_trans)

lemma initial_pass_bans:
  assumes "initial_pass clock i src f pb = Some (passed, i', f', pb')"
  shows "bans_kept pb pb' \<and> (passed \<longrightarrow> pb' = pb \<and> (sa_ip src \<in> permit_ips pb \<or> ban_ips pb (sa_ip src) = None))"
  using assms
  by (auto simp: initial_pass_def bans_kept_def Let_def bind_eq_Some_conv split: if_splits option.splits)

lemma count_banned_node_bans: "bans_kept pb (snd (count_banned_node B ip t f pb))"
  by (auto simp: count_banned_node_def bans_kept_def split: option.split)

lemma check_nodes_per_ip_bans:
  "bans_kept pb (snd (snd (snd (check_nodes_per_ip K clock i na f pb)))) \<and>
   (fst (check_nodes_per_ip K clock i na f pb) \<longrightarrow> snd (snd (snd (check_nodes_per_ip K clock i na f pb))) = pb)"
  by (auto simp: check_nodes_per_ip_def bans_kept_def Let_def split: option.split)

lemma final_pass_bans:
  assumes "final_pass K B clock i na f pb = Some (passed, i', f', pb')"
  shows "bans_kept pb pb' \<and> (passed \<longrightarrow> pb' = pb \<and> (na_node_id na \<in> permit_nodes pb \<or> ban_nodes pb (na_node_id na) = None))"
proof (cases "na_node_id na \<in> permit_nodes pb \<or> ban_nodes pb (na_node_id na) \<noteq> None \<or> \<not> pf_enabled f")
  case True
  with assms show ?thesis by (auto simp: final_pass_def split: if_splits)
next
  case False
  have check: ?thesis if "check_nodes_per_ip K clock j na f1 pb = (passed, i', f', pb')" for f1 j
    using check_nodes_per_ip_bans [of pb K clock j na f1] that False by auto
  show ?thesis
  proof (cases "pf_rate_limiter f")
    case None
    with False assms have "check_nodes_per_ip K clock i na f pb = (passed, i', f', pb')" by (simp add: final_pass_def)
    then show ?thesis by (rule check)
  next
    case (Some rl)
    with False assms obtain r rl' where r: "rl_allows (clock i) (LimitNodeId (na_node_id na)) rl = Some (r, rl')"
      by (auto simp: final_pass_def bind_eq_Some_conv)
    let ?f = "f\<lparr>pf_rate_limiter := Some rl'\<rparr>"
    let ?t = "map_option (\<lambda>v. clock (i + 1) + v) (pf_ban_duration f)"
    let ?pb = "pb\<lparr>ban_nodes := (ban_nodes pb)(na_node_id na \<mapsto> ?t)\<rparr>"
    show ?thesis
    proof (cases "is_err r")
      case True
      with False Some r assms have "\<not> passed" "pb' = snd (count_banned_node B (sa_ip (na_socket_addr na)) ?t ?f ?pb)"
        by (auto simp: final_pass_def Let_def split: prod.splits)
      moreover have "bans_kept pb ?pb" by (auto simp: bans_kept_def)
      ultimately show ?thesis using bans_kept_trans [OF _ count_banned_node_bans] by simp
    next
      case no_err: False
      with False Some r assms have "check_nodes_per_ip K clock (i + 1) na ?f pb = (passed, i', f', pb')"
        by (simp add: final_pass_def Let_def)
      then show ?thesis by (rule check)
    qed
  qed
qed


text \<open>
  C30. Only admissible packets reach the handler: if a datagram is delivered, its bytes decode to the packet
  that is delivered, and unless a response is expected from the address, the address is permitted or not
  banned, and so is the sending node, if the packet names one. Delivering changes no ban, and handling a
  datagram never lifts one or changes what is permitted.
\<close>

theorem inbound_filtered:
  assumes "handle_inbound ctr E P K B local_id expected clock src data f pb = Some (delivered, f', pb')"
  shows "bans_kept pb pb' \<and>
    (case delivered of None \<Rightarrow> True
     | Some ib \<Rightarrow> pb' = pb \<and> ib_src_address ib = clear_flow_and_scope src \<and>
        (\<exists>p. packet_decode ctr E P local_id data = Some (Inr (p, ib_authenticated_data ib)) \<and>
           packet_header p = ib_header ib \<and> packet_message p = ib_message ib \<and>
           (expected (ib_src_address ib) \<noteq> None \<or>
             (sa_ip (ib_src_address ib) \<in> permit_ips pb \<or> ban_ips pb (sa_ip (ib_src_address ib)) = None) \<and>
             (case packet_src_id p of None \<Rightarrow> True
              | Some nid \<Rightarrow> nid \<in> permit_nodes pb \<or> ban_nodes pb nid = None))))"
proof -
  define s where "s = clear_flow_and_scope src"
  obtain passed1 i1 f1 pb1 where first:
      "(if expected s \<noteq> None then Some (True, 0, f, pb) else initial_pass clock 0 s f pb) = Some (passed1, i1, f1, pb1)"
    using assms by (auto simp: handle_inbound_def bind_eq_Some_conv Let_def s_def split: if_splits)
  have pb1: "bans_kept pb pb1" "passed1 \<longrightarrow> pb1 = pb"
    "passed1 \<longrightarrow> expected s \<noteq> None \<or> sa_ip s \<in> permit_ips pb \<or> ban_ips pb (sa_ip s) = None"
    using first initial_pass_bans [of clock 0 s f pb passed1 i1 f1 pb1] by (auto split: if_splits)
  show ?thesis
  proof (cases "passed1 \<and> (\<exists>p ad. packet_decode ctr E P local_id data = Some (Inr (p, ad)))")
    case False
    obtain r where r: "packet_decode ctr E P local_id data = Some r" using decode_total by blast
    have "delivered = None \<and> pb' = pb1"
    proof (cases r)
      case (Inl e)
      with assms first r show ?thesis by (auto simp: handle_inbound_def Let_def s_def [symmetric] split: if_splits)
    next
      case (Inr x)
      with False r have "\<not> passed1" by (cases x) auto
      with assms first show ?thesis by (auto simp: handle_inbound_def Let_def s_def [symmetric] split: if_splits)
    qed
    with pb1 show ?thesis by simp
  next
    case True
    then obtain p ad where p: "packet_decode ctr E P local_id data = Some (Inr (p, ad))" by blast
    obtain passed2 i2 f2 pb2 where second:
        "(case packet_src_id p of None \<Rightarrow> Some (True, i1, f1, pb)
          | Some nid \<Rightarrow> if expected s \<noteq> None then Some (True, i1, f1, pb)
              else final_pass K B clock i1 \<lparr>na_socket_addr = s, na_node_id = nid\<rparr> f1 pb) = Some (passed2, i2, f2, pb2)"
      using assms first True pb1 p
      by (auto simp: handle_inbound_def bind_eq_Some_conv Let_def s_def [symmetric] simp del: not_None_eq)
    have "bans_kept pb pb2" "passed2 \<longrightarrow> pb2 = pb" "passed2 \<longrightarrow> expected s \<noteq> None \<or>
        (case packet_src_id p of None \<Rightarrow> True | Some nid \<Rightarrow> nid \<in> permit_nodes pb \<or> ban_nodes pb nid = None)"
      using second final_pass_bans [of K B clock i1 "\<lparr>na_socket_addr = s, na_node_id = the (packet_src_id p)\<rparr>"
          f1 pb passed2 i2 f2 pb2]
      by (auto split: option.splits if_splits)
    moreover have "delivered = (if passed2 then Some \<lparr>ib_src_address = s, ib_header = packet_header p,
        ib_message = packet_message p, ib_authenticated_data = ad\<rparr> else None)" "pb' = pb2"
      using assms first True pb1 p second
      by (auto simp: handle_inbound_def Let_def s_def [symmetric] simp del: not_None_eq split: if_splits)
    ultimately show ?thesis using True pb1 p by (auto simp: s_def)
  qed
qed


section \<open>No panics\<close>

text \<open>A rate limiter at an instant, and with room in the \<open>u64\<close> range up to an instant.\<close>

definition lim_ready :: "instant \<Rightarrow> instant \<Rightarrow> instant \<Rightarrow> 'k limiter \<Rightarrow> bool" where
  "lim_ready init now end_time l \<longleftrightarrow> lim_inv (now - init) l \<and> (end_time - init) + 2 * lim_tau l < U64_SIZE"

definition rl_ready :: "instant \<Rightarrow> instant \<Rightarrow> rate_limiter \<Rightarrow> bool" where
  "rl_ready now end_time rl \<longleftrightarrow> lim_ready (rl_init_time rl) now end_time (rl_total rl) \<and>
     (\<forall>l. rl_node rl = Some l \<longrightarrow> lim_ready (rl_init_time rl) now end_time l) \<and>
     (\<forall>l. rl_ip rl = Some l \<longrightarrow> lim_ready (rl_init_time rl) now end_time l)"

definition filter_ready :: "instant \<Rightarrow> instant \<Rightarrow> ('a, 'b) packet_filter \<Rightarrow> bool" where
  "filter_ready now end_time f \<longleftrightarrow> pc_time_window (pf_raw_packets_received f) = MOVING_WINDOW \<and>
     (\<forall>rl. pf_rate_limiter f = Some rl \<longrightarrow> rl_ready now end_time rl)"

lemma lim_ready_mono: "lim_ready init now T l \<Longrightarrow> now \<le> now' \<Longrightarrow> lim_ready init now' T l"
  by (auto simp: lim_ready_def intro: lim_inv_mono)

lemma rl_ready_mono: "rl_ready now T rl \<Longrightarrow> now \<le> now' \<Longrightarrow> rl_ready now' T rl"
  by (auto simp: rl_ready_def intro: lim_ready_mono)

lemma filter_ready_mono: "filter_ready now T f \<Longrightarrow> now \<le> now' \<Longrightarrow> filter_ready now' T f"
  by (auto simp: filter_ready_def intro: rl_ready_mono)

lemma lim_allows_ready:
  assumes "lim_ready init now T l" "now \<le> T"
  shows "\<exists>r l'. lim_allows (now - init) k 1 l = Some (r, l') \<and> lim_ready init now T l'"
proof -
  have inv: "lim_inv (now - init) l" and small: "(now - init) + 2 * lim_tau l < U64_SIZE"
    using assms by (auto simp: lim_ready_def)
  show ?thesis
    using assms lim_allows_eq [OF inv order_refl small, of k]
    by (cases "tat_at (now - init) l k + lim_t l \<le> now - init + lim_tau l")
      (auto simp: Let_def lim_ready_def lim_inv_def)
qed

lemma rl_allows_ready:
  assumes "rl_ready now T rl" "now \<le> T"
  shows "\<exists>r rl'. rl_allows now kind rl = Some (r, rl') \<and> rl_ready now T rl'"
proof (cases kind)
  case LimitTotal
  with lim_allows_ready [of "rl_init_time rl" now T "rl_total rl" "()"] assms show ?thesis
    by (auto simp: rl_ready_def rl_allows_def Let_def)
next
  case (LimitNodeId n)
  show ?thesis
  proof (cases "rl_node rl")
    case (Some l)
    with LimitNodeId lim_allows_ready [of "rl_init_time rl" now T l n] assms show ?thesis
      by (auto simp: rl_ready_def rl_allows_def Let_def)
  qed (use LimitNodeId assms in \<open>simp add: rl_allows_def Let_def\<close>)
next
  case (LimitIp n)
  show ?thesis
  proof (cases "rl_ip rl")
    case (Some l)
    with LimitIp lim_allows_ready [of "rl_init_time rl" now T l n] assms show ?thesis
      by (auto simp: rl_ready_def rl_allows_def Let_def)
  qed (use LimitIp assms in \<open>simp add: rl_allows_def Let_def\<close>)
qed

lemma reset_pop_returns: "\<forall>j. window \<le> clock j \<Longrightarrow> \<exists>i' ps'. reset_pop clock window i ps = Some (i', ps')"
  by (induction ps arbitrary: i) (auto simp: checked_sub_def)

lemma reset_count_returns: "\<forall>j. window \<le> clock j \<Longrightarrow> \<exists>i' n'. reset_count clock window i n ps = Some (i', n')"
  by (induction ps arbitrary: i n) (auto simp: checked_sub_def)

lemma pc_cache_insert_returns:
  assumes "\<forall>j. MOVING_WINDOW * SECOND \<le> clock j" "pc_time_window c = MOVING_WINDOW"
  shows "\<exists>b i' c'. pc_cache_insert clock i x c = Some (b, i', c') \<and> pc_time_window c' = MOVING_WINDOW"
proof -
  obtain i1 ps where p: "reset_pop clock (MOVING_WINDOW * SECOND) i (pc_inner c) = Some (i1, ps)"
    using reset_pop_returns [OF assms(1)] by blast
  have "\<forall>j. ENFORCED_SIZE_TIME * SECOND \<le> clock j"
  proof
    fix j
    show "ENFORCED_SIZE_TIME * SECOND \<le> clock j"
      using assms(1) [rule_format, of j] by (simp add: ENFORCED_SIZE_TIME_def MOVING_WINDOW_def)
  qed
  then obtain i2 n where n: "reset_count clock (ENFORCED_SIZE_TIME * SECOND) i1 0 (rev ps) = Some (i2, n)"
    using reset_count_returns by blast
  show ?thesis using p n assms(2)
    by (cases "pc_target c \<le> n") (auto simp: pc_cache_insert_def pc_reset_def pc_internal_insert_def)
qed


text \<open>The clock of one datagram: monotone, after the first moments of its epoch, and up to an instant.\<close>

definition clock_ok :: "instant \<Rightarrow> instant \<Rightarrow> (nat \<Rightarrow> instant) \<Rightarrow> bool" where
  "clock_ok now end_time clock \<longleftrightarrow> mono clock \<and> MOVING_WINDOW * SECOND \<le> now \<and> (\<forall>j. now \<le> clock j \<and> clock j \<le> end_time)"

lemma clock_okD:
  assumes "clock_ok now T clock"
  shows "clock j \<le> T" "now \<le> clock j" "j \<le> j' \<Longrightarrow> clock j \<le> clock j'" "\<forall>j. MOVING_WINDOW * SECOND \<le> clock j"
    "now \<le> T"
  using assms by (auto simp: clock_ok_def mono_def intro: order_trans)

lemma initial_pass_returns:
  assumes "clock_ok now T clock" "filter_ready now T f"
  shows "\<exists>b i' f' pb'. initial_pass clock i src f pb = Some (b, i', f', pb') \<and> filter_ready (clock i') T f'"
proof -
  note ck = clock_okD [OF assms(1)]
  have w: "pc_time_window (pf_raw_packets_received f) = MOVING_WINDOW" using assms(2) by (simp add: filter_ready_def)
  have ready: "filter_ready (clock j) T f" for j using assms(2) ck(2) by (rule filter_ready_mono)
  obtain b i1 c where c: "pc_cache_insert clock i src (pf_raw_packets_received f) = Some (b, i1, c)" "pc_time_window c = MOVING_WINDOW"
    using pc_cache_insert_returns [OF ck(4) w] by blast
  show ?thesis
  proof (cases "sa_ip src \<in> permit_ips pb \<or> ban_ips pb (sa_ip src) \<noteq> None \<or> \<not> pf_enabled f \<or> pf_rate_limiter f = None")
    case True
    then show ?thesis using c ready by (auto simp: initial_pass_def Let_def filter_ready_def)
  next
    case False
    then obtain rl where rl: "pf_rate_limiter f = Some rl" by blast
    have r0: "rl_ready (clock i1) T rl" using ready [of i1] rl by (simp add: filter_ready_def)
    obtain r1 rl1 where a1: "rl_allows (clock i1) (LimitIp (sa_ip src)) rl = Some (r1, rl1)" "rl_ready (clock i1) T rl1"
      using rl_allows_ready [OF r0 ck(1)] by blast
    have r1: "rl_ready (clock (i1 + 1)) T rl1" using a1(2) ck(3) [of i1 "i1 + 1"] by (auto intro: rl_ready_mono)
    obtain r2 rl2 where a2: "rl_allows (clock (i1 + 1)) LimitTotal rl1 = Some (r2, rl2)" "rl_ready (clock (i1 + 1)) T rl2"
      using rl_allows_ready [OF r1 ck(1)] by blast
    have "rl_ready (clock (i1 + 2)) T rl1" "rl_ready (clock (i1 + 2)) T rl2"
      using rl_ready_mono [OF r1 ck(3)] rl_ready_mono [OF a2(2) ck(3)] by auto
    with False rl c a1 a2 show ?thesis
      by (auto simp: initial_pass_def Let_def filter_ready_def)
  qed
qed

lemma check_nodes_per_ip_ready:
  assumes "filter_ready now T f"
  shows "filter_ready now T (fst (snd (snd (check_nodes_per_ip K clock i na f pb))))"
  using assms by (auto simp: check_nodes_per_ip_def filter_ready_def Let_def split: option.split)

lemma final_pass_returns:
  assumes "clock_ok now T clock" "filter_ready (clock i) T f"
  shows "\<exists>b i' f' pb'. final_pass K B clock i na f pb = Some (b, i', f', pb') \<and> filter_ready T T f'"
proof -
  note ck = clock_okD [OF assms(1)]
  have ready: "filter_ready T T f" using filter_ready_mono [OF assms(2) ck(1)] .
  have check: "\<exists>b i' f' pb'. check_nodes_per_ip K clock j na f1 pb = (b, i', f', pb') \<and> filter_ready T T f'"
    if "filter_ready T T f1" for f1 j
    using check_nodes_per_ip_ready [OF that, of K clock j na pb] by (metis prod.collapse)
  show ?thesis
  proof (cases "pf_rate_limiter f")
    case None
    then show ?thesis using ready check [OF ready, of i] by (auto simp: final_pass_def)
  next
    case (Some rl)
    have r0: "rl_ready (clock i) T rl" using assms(2) Some by (simp add: filter_ready_def)
    obtain r rl' where a: "rl_allows (clock i) (LimitNodeId (na_node_id na)) rl = Some (r, rl')" "rl_ready (clock i) T rl'"
      using rl_allows_ready [OF r0 ck(1)] by blast
    have f': "filter_ready T T (f\<lparr>pf_rate_limiter := Some rl'\<rparr>)"
      using ready rl_ready_mono [OF a(2) ck(1)] by (simp add: filter_ready_def)
    have banned: "filter_ready T T (fst (count_banned_node B ip t (f\<lparr>pf_rate_limiter := Some rl'\<rparr>) pb1))" for ip t pb1
      using f' by (auto simp: count_banned_node_def filter_ready_def split: option.split)
    let ?t = "map_option (\<lambda>v. clock (i + 1) + v) (pf_ban_duration f)"
    obtain f2 pb2 where c: "count_banned_node B (sa_ip (na_socket_addr na)) ?t (f\<lparr>pf_rate_limiter := Some rl'\<rparr>)
        (pb\<lparr>ban_nodes := (ban_nodes pb)(na_node_id na \<mapsto> ?t)\<rparr>) = (f2, pb2)" by fastforce
    with banned have "filter_ready T T f2" by (metis fst_conv)
    with Some ready a c check [OF f', of "i + 1"] show ?thesis
      by (cases "is_err r") (auto simp: final_pass_def Let_def)
  qed
qed

text \<open>
  Handling a datagram never panics, whatever its bytes and its sender: neither the reading of the clock
  nor the arithmetic of the rate limiter nor the decoder fails, as long as the clock does not go back, has
  been running for the five seconds of the moving window, and is at least \<open>2 tau\<close> away from the end of the
  limiters' range. The filter stays in a state in which this holds again.
\<close>

lemma inbound_no_panic:
  assumes "clock_ok now T clock" "filter_ready now T f"
  shows "\<exists>delivered f' pb'. handle_inbound ctr E P K B local_id expected clock src data f pb = Some (delivered, f', pb') \<and>
    filter_ready T T f'"
proof -
  note ck = clock_okD [OF assms(1)]
  define s where "s = clear_flow_and_scope src"
  obtain passed1 i1 f1 pb1 where first:
      "(if expected s \<noteq> None then Some (True, 0, f, pb) else initial_pass clock 0 s f pb) = Some (passed1, i1, f1, pb1)"
    and ready: "filter_ready (clock i1) T f1"
    using initial_pass_returns [OF assms, of 0 s pb] filter_ready_mono [OF assms(2) ck(2)]
    by (cases "expected s \<noteq> None") (auto simp del: not_None_eq)
  have ready1: "filter_ready T T f1" using filter_ready_mono [OF ready ck(1)] .
  obtain r where r: "packet_decode ctr E P local_id data = Some r" using decode_total by blast
  show ?thesis
  proof (cases "\<exists>p ad nid. passed1 \<and> r = Inr (p, ad) \<and> packet_src_id p = Some nid \<and> expected s = None")
    case True
    then obtain p ad nid where p: "passed1" "r = Inr (p, ad)" "packet_src_id p = Some nid" "expected s = None" by blast
    obtain b i2 f2 pb2 where "final_pass K B clock i1 \<lparr>na_socket_addr = s, na_node_id = nid\<rparr> f1 pb1 = Some (b, i2, f2, pb2)"
      "filter_ready T T f2"
      using final_pass_returns [OF assms(1) ready] by blast
    with first r p show ?thesis by (auto simp: handle_inbound_def Let_def s_def [symmetric])
  next
    case False
    with first r ready1 show ?thesis
      by (cases r) (auto simp: handle_inbound_def Let_def s_def [symmetric] simp del: not_None_eq split: option.split)
  qed
qed


section \<open>Node ids per address\<close>

lemma lru_cache_lawsD:
  assumes "lru_cache_laws C"
  shows "lc_get C k (lc_put C k v m) = Some v"
    "lc_get C k m \<noteq> None \<Longrightarrow> lc_get C k' (lc_write C k v m) = (if k' = k then Some v else lc_get C k' m)"
    "lc_get C k' (lc_pop C k m) = (if k' = k then None else lc_get C k' m)"
  using assms by (simp_all add: lru_cache_laws_def)

lemma check_nodes_per_ip_passed:
  assumes "lru_cache_laws K" "check_nodes_per_ip K clock i na f pb = (True, i', f', pb')" "pf_max_nodes_per_ip f = Some m"
  shows "\<exists>ids. lc_get K (sa_ip (na_socket_addr na)) (pf_known_addrs f') = Some ids \<and> na_node_id na \<in> ids \<and> card ids < m"
proof (cases "lc_get K (sa_ip (na_socket_addr na)) (pf_known_addrs f)")
  case None
  with assms show ?thesis
    by (auto simp: check_nodes_per_ip_def Let_def lru_cache_lawsD split: if_splits)
next
  case (Some ids)
  with assms show ?thesis
    by (auto simp: check_nodes_per_ip_def Let_def lru_cache_lawsD split: if_splits)
qed

lemma check_nodes_per_ip_refused:
  assumes "check_nodes_per_ip K clock i na f pb = (False, i', f', pb')"
  shows "ban_ips pb' (sa_ip (na_socket_addr na)) \<noteq> None"
  using assms by (auto simp: check_nodes_per_ip_def Let_def split: option.splits if_splits prod.splits)

text \<open>
  C34. With the limit of node ids per address set to \<open>m\<close>, a packet of a node that is not permitted passes an
  enabled filter only while its address has been used by fewer than \<open>m\<close> node ids, its own included; if the
  packet is refused, the node or its address is banned.
\<close>

theorem nodes_per_ip_limited:
  assumes "lru_cache_laws K" "final_pass K B clock i na f pb = Some (passed, i', f', pb')"
    "na_node_id na \<notin> permit_nodes pb" "pf_enabled f" "pf_max_nodes_per_ip f = Some m"
  shows "if passed
    then \<exists>ids. lc_get K (sa_ip (na_socket_addr na)) (pf_known_addrs f') = Some ids \<and> na_node_id na \<in> ids \<and> card ids < m
    else ban_nodes pb' (na_node_id na) \<noteq> None \<or> ban_ips pb' (sa_ip (na_socket_addr na)) \<noteq> None"
proof (cases "ban_nodes pb (na_node_id na)")
  case (Some t)
  with assms show ?thesis by (auto simp: final_pass_def split: if_splits)
next
  case none: None
  have check: ?thesis if "check_nodes_per_ip K clock j na f1 pb = (passed, i', f', pb')" "pf_max_nodes_per_ip f1 = Some m" for f1 j
  proof (cases passed)
    case True
    with that check_nodes_per_ip_passed [OF assms(1), of clock j na f1 pb i' f' pb' m] show ?thesis by simp
  next
    case False
    with that check_nodes_per_ip_refused [of K clock j na f1 pb i' f' pb'] show ?thesis by simp
  qed
  show ?thesis
  proof (cases "pf_rate_limiter f")
    case None
    with assms none have "check_nodes_per_ip K clock i na f pb = (passed, i', f', pb')" by (simp add: final_pass_def)
    with assms(5) show ?thesis by (intro check)
  next
    case (Some rl)
    with assms none obtain r rl' where r: "rl_allows (clock i) (LimitNodeId (na_node_id na)) rl = Some (r, rl')"
      by (auto simp: final_pass_def bind_eq_Some_conv)
    show ?thesis
    proof (cases "is_err r")
      case True
      with assms none Some r show ?thesis
        by (auto simp: final_pass_def Let_def count_banned_node_def split: prod.splits option.splits if_splits)
    next
      case False
      with assms none Some r have "check_nodes_per_ip K clock (i + 1) na (f\<lparr>pf_rate_limiter := Some rl'\<rparr>) pb = (passed, i', f', pb')"
        by (simp add: final_pass_def Let_def)
      then show ?thesis by (rule check) (simp add: assms(5))
    qed
  qed
qed

section \<open>Witnesses\<close>

definition map_cache :: "('k \<rightharpoonup> 'v, 'k, 'v) lru_cache" where
  "map_cache = \<lparr>lc_new = (\<lambda>_. Map.empty), lc_get = (\<lambda>k m. m k), lc_write = (\<lambda>k v m. m(k \<mapsto> v)),
     lc_put = (\<lambda>k v m. m(k \<mapsto> v)), lc_pop = (\<lambda>k m. m(k := None))\<rparr>"

lemma map_cache_laws: "lru_cache_laws map_cache"
  by (simp add: lru_cache_laws_def map_cache_def)

definition ex_filter :: "(ip_addr \<rightharpoonup> node_id set, ip_addr \<rightharpoonup> nat) packet_filter" where
  "ex_filter = the (pf_new 48 map_cache map_cache
     \<lparr>fc_enabled = True, fc_rate_limiter = None, fc_max_nodes_per_ip = Some 2, fc_max_bans_per_ip = Some 5\<rparr> (Some 60))"

definition ex_bans :: permit_ban_list where
  "ex_bans = \<lparr>permit_ips = {}, ban_ips = Map.empty, permit_nodes = {}, ban_nodes = Map.empty\<rparr>"

definition ex_source :: socket_addr where
  "ex_source = SocketV4 (10, 0, 0, 1) 9000"

lemma ex_filter_eq: "ex_filter =
  \<lparr>pf_enabled = True, pf_rate_limiter = None,
   pf_raw_packets_received = \<lparr>pc_target = 20, pc_time_window = 5, pc_within_enforced_time = 0, pc_inner = []\<rparr>,
   pf_ban_duration = Some 60, pf_known_addrs = lc_new map_cache KNOWN_ADDRS_SIZE,
   pf_banned_nodes = lc_new map_cache BANNED_NODES_SIZE, pf_max_nodes_per_ip = Some 2, pf_max_bans_per_ip = Some 5\<rparr>"
  by (simp add: ex_filter_def pf_new_def pc_new_def with_capacity_def expected_packets_per_second_def u64_of_def U64_SIZE_def
      DEFAULT_PACKETS_PER_SECOND_def MOVING_WINDOW_def)

lemma ex_filter_ready: "filter_ready now T ex_filter"
  by (simp add: filter_ready_def ex_filter_eq MOVING_WINDOW_def)

lemma ex_clock_ok: "clock_ok (6 * SECOND) (6 * SECOND) (\<lambda>_. 6 * SECOND)"
  by (simp add: clock_ok_def MOVING_WINDOW_def mono_def)

theorem inbound_filtered_witness:
  "\<exists>f' pb'. handle_inbound ex_ctr ex_codec DefaultProtocolId map_cache map_cache 42 Map.empty (\<lambda>_. 6 * SECOND) ex_source []
     ex_filter ex_bans = Some (None, f', pb') \<and> bans_kept ex_bans pb'"
proof -
  obtain b i' f' pb' where i: "initial_pass (\<lambda>_. 6 * SECOND) 0 ex_source ex_filter ex_bans = Some (b, i', f', pb')"
    using initial_pass_returns [OF ex_clock_ok ex_filter_ready] by blast
  have "packet_decode ex_ctr ex_codec DefaultProtocolId 42 [] = Some (Inl TooSmall)"
    by (simp add: packet_decode_def packet_lengths)
  with i have "handle_inbound ex_ctr ex_codec DefaultProtocolId map_cache map_cache 42 Map.empty (\<lambda>_. 6 * SECOND) ex_source []
     ex_filter ex_bans = Some (None, f', pb')"
    by (simp add: handle_inbound_def Let_def ex_source_def)
  with inbound_filtered [OF this] show ?thesis by auto
qed

theorem nodes_per_ip_limited_witness:
  "\<exists>i' f' pb' ids. final_pass map_cache map_cache (\<lambda>_. 0) 0 \<lparr>na_socket_addr = ex_source, na_node_id = 7\<rparr> ex_filter ex_bans =
       Some (True, i', f', pb') \<and>
     lc_get map_cache (sa_ip ex_source) (pf_known_addrs f') = Some ids \<and> 7 \<in> ids \<and> card ids < 2"
proof -
  have e: "pf_enabled ex_filter" "pf_max_nodes_per_ip ex_filter = Some 2" "7 \<notin> permit_nodes ex_bans"
    by (simp_all add: ex_filter_eq ex_bans_def)
  have "\<exists>i' f' pb'. final_pass map_cache map_cache (\<lambda>_. 0) 0 \<lparr>na_socket_addr = ex_source, na_node_id = 7\<rparr> ex_filter ex_bans =
       Some (True, i', f', pb')"
    by (simp add: final_pass_def check_nodes_per_ip_def ex_filter_eq ex_bans_def map_cache_def Let_def)
  then obtain i' f' pb' where r: "final_pass map_cache map_cache (\<lambda>_. 0) 0 \<lparr>na_socket_addr = ex_source, na_node_id = 7\<rparr>
      ex_filter ex_bans = Some (True, i', f', pb')" by blast
  from nodes_per_ip_limited [OF map_cache_laws r] e r show ?thesis by auto
qed

end
