(* ===== verification/Disc_Handler.thy ===== *)
theory Disc_Handler
  imports Disc_Session Disc_Lru_Time_Cache Disc_Packet_Filter Disc_Bucket
begin

text \<open>
  \<open>src/handler/mod.rs\<close>: the handler, which keeps the sessions with other nodes. \<open>handler_step\<close> is one pass of
  the loop of \<open>start\<close>; its argument is the event that \<open>select!\<close> picked. The record \<open>handler_env\<close> holds what
  comes from outside: the operations of other crates, the clock (reading number \<open>i\<close> is \<open>he_clock H i\<close>) and
  the random values (draw number \<open>i\<close>). The state counts readings and draws. What the handler gives to the
  channels of the service and of the sending task is appended to \<open>h_out\<close> and \<open>h_sent\<close>; \<open>h_service_open\<close> tells
  whether the service still receives. A panic, also a failed \<open>debug_unreachable!\<close>, is \<open>None\<close>.
\<close>

section \<open>Messages and state\<close>

definition ONE_TIME_SESSION_TIMEOUT :: duration where
  "ONE_TIME_SESSION_TIMEOUT = 30 * SECOND"

definition ONE_TIME_SESSION_CACHE_CAPACITY :: nat where
  "ONE_TIME_SESSION_CACHE_CAPACITY = 100"

datatype request_error =
    RTimeout | RServiceNotStarted | RSelfRequest | RChannelFailed string | RInvalidEnr string
  | RInvalidRemoteEnr | RInvalidRemotePacket | REncryptionFailed string | RInvalidMultiaddr string
  | REntropyFailure string

datatype who_are_you_ref = WhoAreYouRef node_address message_nonce

datatype ('enr, 'pk) handler_in =
    InRequest "('enr, 'pk) node_contact" request
  | InResponse node_address "'enr response"
  | InWhoAreYou who_are_you_ref "'enr option"

datatype 'enr handler_out =
    OutEstablished 'enr socket_addr connection_direction
  | OutRequest node_address request
  | OutResponse node_address "'enr response"
  | OutWhoAreYou who_are_you_ref
  | OutRequestFailed request_id request_error

record ('enr, 'pk) pending_request =
  pr_contact :: "('enr, 'pk) node_contact"
  pr_request_id :: handler_req_id
  pr_request :: request_body

record ('enr, 'vk, 'sk, 'pt, 'e, 'mn, 'mc, 'ms, 'mo) handler_env =
  he_crypto :: "('vk, 'sk, 'pt) crypto"
  he_enr_ops :: "('enr, 'vk combined_public_key) enr_ops"
  he_codec :: "('enr, 'e) enr_codec"
  he_protocol :: protocol_identity
  he_rlp :: "'enr rlp"
  he_nonce_map :: "'mn nonce_map"
  he_challenge_map :: "('mc, node_address, 'enr challenge) delay_map"
  he_sessions :: "('ms, node_address, session \<times> instant) lhm"
  he_one_time :: "('mo, node_address, (request_id \<times> session) \<times> instant) lhm"
  he_debug :: "'enr challenge disc_error \<Rightarrow> string"
  he_clock :: "nat \<Rightarrow> instant"
  he_random_nonce :: "nat \<Rightarrow> u64"
  he_nonce :: "nat \<Rightarrow> message_nonce"
  he_iv :: "nat \<Rightarrow> u128"
  he_fill :: "nat \<Rightarrow> byte list option"
  he_id_nonce :: "nat \<Rightarrow> id_nonce"
  he_ephemeral :: "nat \<Rightarrow> 'sk"
  he_request_id :: "nat \<Rightarrow> request_id"

record ('enr, 'vk, 'sk, 'mn, 'mc, 'ms, 'mo) handler =
  h_request_retries :: nat
  h_node_id :: node_id
  h_enr :: 'enr
  h_key :: "'sk combined_key"
  h_active_requests :: "('mn, 'enr, 'vk combined_public_key) active_requests"
  h_expected_responses :: "socket_addr \<rightharpoonup> nat"
  h_pending_requests :: "node_address \<rightharpoonup> ('enr, 'vk combined_public_key) pending_request list"
  h_active_challenges :: 'mc
  h_sessions :: "('ms, node_address, session) lru_time_cache"
  h_one_time_sessions :: "('mo, node_address, request_id \<times> session) lru_time_cache"
  h_listen_sockets :: "socket_addr list"
  h_permit_ban :: permit_ban_list
  h_service_open :: bool
  h_out :: "'enr handler_out list"
  h_sent :: "(node_address \<times> 'enr packet) list"
  h_reads :: nat
  h_draws :: nat

record handler_config =
  hc_request_retries :: nat
  hc_request_timeout :: duration
  hc_session_timeout :: duration
  hc_session_cache_capacity :: nat

definition handler_new where
  "handler_new H config node_id enr key listen_sockets permit_ban =
     \<lparr>h_request_retries = hc_request_retries config, h_node_id = node_id, h_enr = enr, h_key = key,
      h_active_requests = ar_new (he_nonce_map H) (hc_request_timeout config),
      h_expected_responses = Map.empty, h_pending_requests = Map.empty,
      h_active_challenges = dm_new (he_challenge_map H) (hc_request_timeout config),
      h_sessions = lru_new (he_sessions H) (hc_session_timeout config) (Some (hc_session_cache_capacity config)),
      h_one_time_sessions = lru_new (he_one_time H) ONE_TIME_SESSION_TIMEOUT (Some ONE_TIME_SESSION_CACHE_CAPACITY),
      h_listen_sockets = listen_sockets, h_permit_ban = permit_ban, h_service_open = True,
      h_out = [], h_sent = [], h_reads = 0, h_draws = 0\<rparr>"

section \<open>Clock, channels, counters\<close>

definition tick where
  "tick H s = (he_clock H (h_reads s), s\<lparr>h_reads := Suc (h_reads s)\<rparr>)"

definition draw where
  "draw s = (h_draws s, s\<lparr>h_draws := Suc (h_draws s)\<rparr>)"

definition service_send where
  "service_send m s = s\<lparr>h_out := h_out s @ [m]\<rparr>"

definition send where
  "send addr packet s = s\<lparr>h_sent := h_sent s @ [(addr, packet)]\<rparr>"

definition remove_expected_response where
  "remove_expected_response sock s =
     s\<lparr>h_expected_responses :=
         (case h_expected_responses s sock of
            Some n \<Rightarrow> (h_expected_responses s)(sock := (if n - 1 = 0 then None else Some (n - 1)))
          | None \<Rightarrow> h_expected_responses s)\<rparr>"

definition add_expected_response where
  "add_expected_response sock s =
     s\<lparr>h_expected_responses := (h_expected_responses s)(sock \<mapsto>
         (case h_expected_responses s sock of Some n \<Rightarrow> n | None \<Rightarrow> 0) + 1)\<rparr>"

section \<open>Access to sessions\<close>

text \<open>
  \<open>get_mut\<close> on the session cache, and the write through the reference it returned: the entry is at the back
  of the list and keeps its time.
\<close>

definition session_get where
  "session_get H addr s =
     (let (now, s) = tick H s; (r, c) = lru_get_mut (he_sessions H) now addr (h_sessions s)
      in (r, s\<lparr>h_sessions := c\<rparr>))"

definition session_put where
  "session_put H addr session s =
     s\<lparr>h_sessions := (h_sessions s)\<lparr>lru_map :=
         lhm_to_back (he_sessions H) addr (\<lambda>(_, t). (session, t)) (lru_map (h_sessions s))\<rparr>\<rparr>"

definition session_message ::
  "('enr, 'vk, 'sk, 'pt, 'e, 'mn, 'mc, 'ms, 'mo) handler_env \<Rightarrow> session \<Rightarrow> byte list
     \<Rightarrow> ('enr, 'vk, 'sk, 'mn, 'mc, 'ms, 'mo) handler
     \<Rightarrow> (('enr challenge disc_error + 'enr packet) \<times> session \<times> ('enr, 'vk, 'sk, 'mn, 'mc, 'ms, 'mo) handler) option" where
  "session_message H session message s =
     (let (d, s) = draw s
      in do {
        (r, session) \<leftarrow> session_encrypt (he_crypto H) (he_codec H) (he_protocol H) (he_random_nonce H d) (he_iv H d)
          (h_node_id s) message session;
        Some (r, session, s)
      })"

definition sessions_len where
  "sessions_len H s =
     (let (now, s) = tick H s in s\<lparr>h_sessions := snd (lru_len (he_sessions H) now (h_sessions s))\<rparr>)"

definition is_awaiting_session_to_be_established where
  "is_awaiting_session_to_be_established H addr s =
     (let (session, s) = session_get H addr s
      in (session = None \<and>
          (case ar_get addr (h_active_requests s) of
             Some requests \<Rightarrow> \<exists>req\<in>set requests. rc_initiating_session req
           | None \<Rightarrow> False), s))"

definition active_insert where
  "active_insert H addr call s =
     (let (now, s) = tick H s
      in s\<lparr>h_active_requests := ar_insert (he_nonce_map H) now addr call (h_active_requests s)\<rparr>)"

definition insert_active_request where
  "insert_active_request H call s = active_insert H (nc_node_address (he_enr_ops H) (rc_contact call)) call s"

section \<open>Failing requests and sessions\<close>

fun report_failure where
  "report_failure (Internal _) error s = s"
| "report_failure (External i) error s = service_send (OutRequestFailed i error) s"

definition fail_session where
  "fail_session H addr error remove_session s =
     do {
       let s = (if remove_session
                then sessions_len H (s\<lparr>h_sessions := snd (lru_remove (he_sessions H) addr (h_sessions s))\<rparr>)
                else s);
       let s = (case h_pending_requests s addr of
                  Some to_remove \<Rightarrow>
                    fold (\<lambda>p. report_failure (pr_request_id p) error) to_remove
                      (s\<lparr>h_pending_requests := (h_pending_requests s)(addr := None)\<rparr>)
                | None \<Rightarrow> s);
       (requests, ar) \<leftarrow> ar_remove_requests (he_nonce_map H) addr (h_active_requests s);
       Some (fold (\<lambda>req s. remove_expected_response (na_socket_addr addr) (report_failure (rc_request_id req) error s))
               (case requests of Some rs \<Rightarrow> rs | None \<Rightarrow> []) (s\<lparr>h_active_requests := ar\<rparr>))
     }"

definition fail_request where
  "fail_request H call error remove_session s =
     fail_session H (nc_node_address (he_enr_ops H) (rc_contact call)) error remove_session
       (report_failure (rc_request_id call) error s)"

definition handle_request_timeout where
  "handle_request_timeout H addr call s =
     (if h_request_retries s \<le> rc_retries call then
        fail_request H call RTimeout False (remove_expected_response (na_socket_addr addr) s)
      else do {
        let s = send addr (rc_packet call) s;
        call \<leftarrow> increment_retries call;
        Some (active_insert H addr call s)
      })"

section \<open>Sending\<close>

definition request_packet where
  "request_packet H addr rid request s =
     (case session_get H addr s of
        (Some session, s) \<Rightarrow> do {
          (r, session, s) \<leftarrow> session_message H session
            (request_encode (he_rlp H) \<lparr>req_id = request_id_of rid, req_body = request\<rparr>) s;
          let s = session_put H addr session s;
          case r of
            Inl e \<Rightarrow> Some (Inl (REncryptionFailed (he_debug H e)), s)
          | Inr packet \<Rightarrow> Some (Inr (packet, False), s)
        }
      | (None, s) \<Rightarrow>
          let (d, s) = draw s
          in case new_random (he_fill H d) (he_nonce H d) (he_iv H d) (h_node_id s) of
               Inl e \<Rightarrow> Some (Inl (REntropyFailure e), s)
             | Inr packet \<Rightarrow> Some (Inr (packet, True), s))"

definition send_request where
  "send_request H contact rid request s =
     (let addr = nc_node_address (he_enr_ops H) contact
      in if na_socket_addr addr \<in> set (h_listen_sockets s) then Some (Inl RSelfRequest, s)
         else
           let (queued, s) = (if dm_get (he_challenge_map H) addr (h_active_challenges s) \<noteq> None then (True, s)
                              else is_awaiting_session_to_be_established H addr s)
           in if queued then
                Some (Inr (), s\<lparr>h_pending_requests := (h_pending_requests s)(addr \<mapsto>
                  (case h_pending_requests s addr of Some ps \<Rightarrow> ps | None \<Rightarrow> []) @
                  [\<lparr>pr_contact = contact, pr_request_id = rid, pr_request = request\<rparr>])\<rparr>)
              else do {
                (r, s) \<leftarrow> request_packet H addr rid request s;
                case r of
                  Inl e \<Rightarrow> Some (Inl e, s)
                | Inr (packet, initiating_session) \<Rightarrow>
                    let call = rc_new contact packet rid request initiating_session;
                        s = add_expected_response (na_socket_addr addr) s;
                        s = send addr packet s
                    in Some (Inr (), active_insert H addr call s)
              })"

definition remove_one_time_session where
  "remove_one_time_session H addr rid s =
     (let (now, s) = tick H s
      in case lru_peek (he_one_time H) now addr (h_one_time_sessions s) of
           Some (i, _) \<Rightarrow>
             if i = rid then do {
               (_, session) \<leftarrow> fst (lru_remove (he_one_time H) addr (h_one_time_sessions s));
               Some (Some session,
                     s\<lparr>h_one_time_sessions := snd (lru_remove (he_one_time H) addr (h_one_time_sessions s))\<rparr>)
             }
             else Some (None, s)
         | None \<Rightarrow> Some (None, s))"

definition send_response where
  "send_response H addr response s =
     do {
       (packet, s) \<leftarrow>
         (case session_get H addr s of
            (Some session, s) \<Rightarrow> do {
              (r, session, s) \<leftarrow> session_message H session (response_encode (he_rlp H) response) s;
              Some (Some r, session_put H addr session s)
            }
          | (None, s) \<Rightarrow> do {
              (one_time, s) \<leftarrow> remove_one_time_session H addr (resp_id response) s;
              case one_time of
                None \<Rightarrow> Some (None, s)
              | Some session \<Rightarrow> do {
                  (r, _, s) \<leftarrow> session_message H session (response_encode (he_rlp H) response) s;
                  Some (Some r, s)
                }
            });
       case packet of
         Some (Inr packet) \<Rightarrow> Some (send addr packet s)
       | _ \<Rightarrow> Some s
     }"

definition send_challenge where
  "send_challenge H wru_ref remote_enr s =
     (case wru_ref of WhoAreYouRef addr nonce \<Rightarrow>
        if dm_get (he_challenge_map H) addr (h_active_challenges s) \<noteq> None then Some s
        else
          let known_seq = (case remote_enr of Some enr \<Rightarrow> enr_seq (he_enr_ops H) enr | None \<Rightarrow> 0);
              (d, s) = draw s;
              packet = new_whoareyou (he_iv H d) nonce (he_id_nonce H d) known_seq
          in case challenge_data_try_from (authenticated_data (he_codec H) (he_protocol H) packet) of
               Inl _ \<Rightarrow> None
             | Inr challenge_data \<Rightarrow>
                 let s = add_expected_response (na_socket_addr addr) s;
                     s = send addr packet s;
                     (now, s) = tick H s
                 in Some (s\<lparr>h_active_challenges := dm_insert (he_challenge_map H) now addr
                              \<lparr>ch_data = challenge_data, ch_remote_enr = remote_enr\<rparr> (h_active_challenges s)\<rparr>))"

fun send_pending_loop where
  "send_pending_loop H [] s = Some s"
| "send_pending_loop H (req # reqs) s = do {
     (r, s) \<leftarrow> send_request H (pr_contact req) (pr_request_id req) (pr_request req) s;
     send_pending_loop H reqs (case r of Inl e \<Rightarrow> report_failure (pr_request_id req) e s | Inr _ \<Rightarrow> s)
   }"

definition send_pending_requests where
  "send_pending_requests H addr s =
     send_pending_loop H (case h_pending_requests s addr of Some reqs \<Rightarrow> reqs | None \<Rightarrow> [])
       (s\<lparr>h_pending_requests := (h_pending_requests s)(addr := None)\<rparr>)"

section \<open>Establishing sessions\<close>

fun replay_encrypt where
  "replay_encrypt H nonce [] session s = Some ([], session, s)"
| "replay_encrypt H nonce (call # calls) session s =
     (if nonce = Some (rc_nonce call) then replay_encrypt H nonce calls session s
      else do {
        (r, session, s) \<leftarrow> session_message H session (rc_encode (he_rlp H) call) s;
        (packets, session, s) \<leftarrow> replay_encrypt H nonce calls session s;
        Some (case r of Inr packet \<Rightarrow> (rc_nonce call, packet) # packets | Inl e \<Rightarrow> packets, session, s)
      })"

fun replay_send where
  "replay_send H addr [] s = Some s"
| "replay_send H addr ((old_nonce, packet) # packets) s =
     (let (now, s) = tick H s
      in do {
        ar \<leftarrow> ar_update_packet (he_nonce_map H) now old_nonce packet (h_active_requests s);
        replay_send H addr packets (send addr packet (s\<lparr>h_active_requests := ar\<rparr>))
      })"

definition replay_active_requests where
  "replay_active_requests H addr nonce s =
     (case session_get H addr s of
        (Some session, s) \<Rightarrow> do {
          (packets, session, s) \<leftarrow> replay_encrypt H nonce
            (case ar_get addr (h_active_requests s) of Some calls \<Rightarrow> calls | None \<Rightarrow> []) session s;
          replay_send H addr packets (session_put H addr session s)
        }
      | (None, s) \<Rightarrow> None)"

definition new_session where
  "new_session H addr session nonce s =
     (case session_get H addr s of
        (Some current_session, s) \<Rightarrow>
          replay_active_requests H addr nonce (session_put H addr (session_update session current_session) s)
      | (None, s) \<Rightarrow>
          let (now, s) = tick H s;
              s = s\<lparr>h_sessions := lru_insert (he_sessions H) now addr session (h_sessions s)\<rparr>
          in send_pending_requests H addr (sessions_len H s))"

definition verify_enr where
  "verify_enr N enr addr \<longleftrightarrow>
     enr_node_id N enr = na_node_id addr \<and>
     (case na_socket_addr addr of
        SocketV4 ip port \<Rightarrow> (case enr_udp4_socket N enr of Some a \<Rightarrow> (ip, port) = a | None \<Rightarrow> True)
      | SocketV6 ip port flow scope \<Rightarrow>
          (case enr_udp6_socket N enr of Some a \<Rightarrow> (ip, port, flow, scope) = a | None \<Rightarrow> True))"

section \<open>Receiving\<close>

definition challenge_answer where
  "challenge_answer H call auth_packet session s =
     (let addr = nc_node_address (he_enr_ops H) (rc_contact call);
          auth_nonce = packet_nonce auth_packet
      in case nc_enr (rc_contact call) of
           Some enr \<Rightarrow>
             let direction = (if rc_initiating_session call then Outgoing else Incoming);
                 call = (rc_update_packet auth_packet call)\<lparr>rc_handshake_sent := True, rc_initiating_session := False\<rparr>;
                 s = insert_active_request H call s;
                 s = send addr auth_packet s;
                 s = service_send (OutEstablished enr (na_socket_addr addr) direction) s
             in new_session H addr session (Some auth_nonce) s
         | None \<Rightarrow>
             let contact = rc_contact call;
                 call = (rc_update_packet auth_packet call)\<lparr>rc_handshake_sent := True\<rparr>;
                 s = insert_active_request H call s;
                 s = send addr auth_packet s;
                 (d, s) = draw s;
                 i = he_request_id H d;
                 session = session\<lparr>sess_awaiting_enr := Some i\<rparr>
             in do {
               (_, s) \<leftarrow> send_request H contact (Internal i) (FindNode [0]) s;
               new_session H addr session (Some auth_nonce) s
             })"

definition handle_challenge where
  "handle_challenge H src_address request_nonce remote_seq challenge_data s =
     do {
       (found, ar) \<leftarrow> ar_remove_by_nonce (he_nonce_map H) request_nonce (h_active_requests s);
       let s = s\<lparr>h_active_requests := ar\<rparr>;
       case found of
         None \<Rightarrow> Some s
       | Some (addr, call) \<Rightarrow>
           if na_socket_addr addr \<noteq> src_address then Some (active_insert H addr call s)
           else if rc_nonce call \<noteq> request_nonce then Some s
           else if rc_handshake_sent call then fail_request H call RInvalidRemotePacket True s
           else
             let updated_enr = (if remote_seq < enr_seq (he_enr_ops H) (h_enr s) then Some (h_enr s) else None);
                 (d, s) = draw s
             in do {
               r \<leftarrow> encrypt_with_header (he_crypto H) (he_enr_ops H) (he_codec H) (he_protocol H) (he_ephemeral H d)
                 (he_nonce H d) (he_iv H d) (rc_contact call) (h_key s) updated_enr (h_node_id s) challenge_data
                 (rc_encode (he_rlp H) call);
               case (r :: unit disc_error + _) of
                 Inl e \<Rightarrow> fail_request H call RInvalidRemotePacket True s
               | Inr (auth_packet, session) \<Rightarrow> challenge_answer H call auth_packet session s
             }
     }"

definition handle_response where
  "handle_response H addr response s =
     do {
       (found, ar) \<leftarrow> ar_remove_request (he_nonce_map H) addr (resp_id response) (h_active_requests s);
       let s = s\<lparr>h_active_requests := ar\<rparr>;
       let report = service_send (OutResponse addr response);
       case found of
         None \<Rightarrow> Some s
       | Some call \<Rightarrow>
           let complete = Some (report (remove_expected_response (na_socket_addr addr) s));
               more = (\<lambda>remaining. Some (report (active_insert H addr (call\<lparr>rc_remaining_responses := Some remaining\<rparr>) s)))
           in case resp_body response of
                Nodes n_total _ \<Rightarrow>
                  if 1 < n_total then
                    (case rc_remaining_responses call of
                       Some remaining \<Rightarrow>
                         if remaining = 0 then None
                         else if remaining - 1 \<noteq> 0 then more (remaining - 1) else complete
                     | None \<Rightarrow> more (n_total - 1))
                  else complete
              | _ \<Rightarrow> complete
     }"

definition awaited_enr where
  "awaited_enr response =
     (case resp_body response of
        Nodes _ nodes \<Rightarrow> if nodes = [] then None else Some (last nodes)
      | _ \<Rightarrow> None)"

definition handle_message where
  "handle_message H addr nonce message aad s =
     (case session_get H addr s of
        (None, s) \<Rightarrow> Some (service_send (OutWhoAreYou (WhoAreYouRef addr nonce)) s)
      | (Some session, s) \<Rightarrow>
          (case (session_decrypt (he_crypto H) nonce message aad session :: (unit disc_error + _) \<times> _) of
             (Inl e, session) \<Rightarrow> do {
               s \<leftarrow> fail_session H addr RInvalidRemotePacket True (session_put H addr session s);
               Some (if dm_get (he_challenge_map H) addr (h_active_challenges s) = None
                     then service_send (OutWhoAreYou (WhoAreYouRef addr nonce)) s else s)
             }
           | (Inr m, session) \<Rightarrow>
               let s = session_put H addr session s
               in case rpc_decode (he_rlp H) m of
                    Inl e \<Rightarrow> Some s
                  | Inr (Request request) \<Rightarrow> Some (service_send (OutRequest addr request) s)
                  | Inr (Response response) \<Rightarrow>
                      if sess_awaiting_enr session = Some (resp_id response) then
                        let s = session_put H addr (session\<lparr>sess_awaiting_enr := None\<rparr>) s
                        in case awaited_enr response of
                             Some enr \<Rightarrow>
                               if verify_enr (he_enr_ops H) enr addr
                               then Some (service_send (OutEstablished enr (na_socket_addr addr) Outgoing) s)
                               else fail_session H addr RInvalidRemoteEnr True s
                           | None \<Rightarrow> fail_session H addr RInvalidRemoteEnr True s
                      else handle_response H addr response s))"

definition ping_request where
  "ping_request H session nonce message aad =
     (case fst (session_decrypt (he_crypto H) nonce message aad session :: (unit disc_error + _) \<times> _) of
        Inr m \<Rightarrow>
          (case rpc_decode (he_rlp H) m of
             Inr (Request request) \<Rightarrow> if request_msg_type (req_body request) = 1 then Some request else None
           | _ \<Rightarrow> None)
      | Inl e \<Rightarrow> None)"

definition handle_auth_message where
  "handle_auth_message H addr nonce id_nonce_sig ephem_pubkey enr_record message aad s =
     (case dm_remove (he_challenge_map H) addr (h_active_challenges s) of
        (None, challenges) \<Rightarrow> Some (s\<lparr>h_active_challenges := challenges\<rparr>)
      | (Some challenge, challenges) \<Rightarrow>
          let s = s\<lparr>h_active_challenges := challenges\<rparr>
          in do {
            r \<leftarrow> establish_from_challenge (he_crypto H) (he_enr_ops H) (h_key s) (h_node_id s) (na_node_id addr)
              challenge id_nonce_sig ephem_pubkey enr_record;
            case r of
              Inr (session, enr) \<Rightarrow>
                let s = remove_expected_response (na_socket_addr addr) s
                in if verify_enr (he_enr_ops H) enr addr then do {
                     let s = service_send (OutEstablished enr (na_socket_addr addr) Incoming) s;
                     s \<leftarrow> new_session H addr session None s;
                     handle_message H addr nonce message aad s
                   }
                   else do {
                     s \<leftarrow> fail_session H addr RInvalidRemoteEnr True s;
                     case ping_request H session nonce message aad of
                       None \<Rightarrow> Some s
                     | Some request \<Rightarrow>
                         let session = snd (session_decrypt (he_crypto H) nonce message aad session
                               :: (unit disc_error + _) \<times> _);
                             (now, s) = tick H s;
                             s = s\<lparr>h_one_time_sessions := lru_insert (he_one_time H) now addr (req_id request, session)
                                     (h_one_time_sessions s)\<rparr>
                         in Some (let s = service_send (OutRequest addr request) s
                                  in if h_service_open s then s
                                     else s\<lparr>h_one_time_sessions :=
                                              snd (lru_remove (he_one_time H) addr (h_one_time_sessions s))\<rparr>)
                   }
            | Inl (EInvalidChallengeSignature challenge) \<Rightarrow>
                let (now, s) = tick H s
                in Some (s\<lparr>h_active_challenges := dm_insert (he_challenge_map H) now addr challenge (h_active_challenges s)\<rparr>)
            | Inl e \<Rightarrow> fail_session H addr RInvalidRemotePacket True s
          })"

definition process_inbound_packet where
  "process_inbound_packet H inbound_packet s =
     (let nonce = message_nonce (ib_header inbound_packet)
      in case header_kind (ib_header inbound_packet) of
           WhoAreYou _ remote_seq \<Rightarrow>
             (case challenge_data_try_from (ib_authenticated_data inbound_packet) of
                Inl _ \<Rightarrow> None
              | Inr challenge_data \<Rightarrow> handle_challenge H (ib_src_address inbound_packet) nonce remote_seq challenge_data s)
         | Handshake src_id id_nonce_sig ephem_pubkey enr_record \<Rightarrow>
             handle_auth_message H \<lparr>na_socket_addr = ib_src_address inbound_packet, na_node_id = src_id\<rparr> nonce
               id_nonce_sig ephem_pubkey enr_record (ib_message inbound_packet) (ib_authenticated_data inbound_packet) s
         | Message src_id \<Rightarrow>
             handle_message H \<lparr>na_socket_addr = ib_src_address inbound_packet, na_node_id = src_id\<rparr> nonce
               (ib_message inbound_packet) (ib_authenticated_data inbound_packet) s)"

section \<open>The loop\<close>

text \<open>The clock is read for every entry of the ban list that has a time.\<close>

definition unban_nodes_check :: "(ip_addr \<Rightarrow> instant) \<Rightarrow> (node_id \<Rightarrow> instant) \<Rightarrow> permit_ban_list \<Rightarrow> permit_ban_list" where
  "unban_nodes_check ip_now node_now l =
     l\<lparr>ban_ips := (\<lambda>ip. case ban_ips l ip of
                      Some (Some time) \<Rightarrow> if ip_now ip < time then Some (Some time) else None
                    | r \<Rightarrow> r),
       ban_nodes := (\<lambda>i. case ban_nodes l i of
                      Some (Some time) \<Rightarrow> if node_now i < time then Some (Some time) else None
                    | r \<Rightarrow> r)\<rparr>"

datatype ('enr, 'pk) handler_event =
    FromService "('enr, 'pk) handler_in"
  | FromSocket "'enr inbound_packet"
  | RequestsTimer
  | ChallengesTimer
  | UnbanTimer "ip_addr \<Rightarrow> instant" "node_id \<Rightarrow> instant"

definition handler_step where
  "handler_step H event s =
     (case event of
        FromService (InRequest contact request) \<Rightarrow> do {
          (r, s) \<leftarrow> send_request H contact (External (req_id request)) (req_body request) s;
          Some (case r of Inl e \<Rightarrow> service_send (OutRequestFailed (req_id request) e) s | Inr _ \<Rightarrow> s)
        }
      | FromService (InResponse dst response) \<Rightarrow> send_response H dst response s
      | FromService (InWhoAreYou wru_ref enr) \<Rightarrow> send_challenge H wru_ref enr s
      | FromSocket inbound_packet \<Rightarrow> process_inbound_packet H inbound_packet s
      | RequestsTimer \<Rightarrow>
          let (now, s) = tick H s
          in do {
            (polled, ar) \<leftarrow> ar_poll_next (he_nonce_map H) now (h_active_requests s);
            let s = s\<lparr>h_active_requests := ar\<rparr>;
            case polled of
              PollExpired addr call \<Rightarrow> handle_request_timeout H addr call s
            | _ \<Rightarrow> Some s
          }
      | ChallengesTimer \<Rightarrow>
          let (now, s) = tick H s;
              (polled, challenges) = dm_poll (he_challenge_map H) now (h_active_challenges s);
              s = s\<lparr>h_active_challenges := challenges\<rparr>
          in (case polled of
                PollExpired addr _ \<Rightarrow> send_pending_requests H addr s
              | _ \<Rightarrow> Some s)
      | UnbanTimer ip_now node_now \<Rightarrow>
          Some (s\<lparr>h_permit_ban := unban_nodes_check ip_now node_now (h_permit_ban s)\<rparr>))"

end
