(* ===== verification/Disc_Handler_Inv.thy ===== *)
theory Disc_Handler_Inv
  imports Disc_Handler "HOL-Library.Sublist"
begin

text \<open>
  The invariant of the handler and what every operation does to it. \<open>env_ok\<close> collects what is assumed of the
  environment: the laws of the other crates, a clock that does not go back nor jump by a session timeout
  between two readings, and that the first \<open>N\<close> random draws give nonces with different last eight bytes,
  for an \<open>N\<close> below the size of the message counter of a session.
\<close>

section \<open>The environment\<close>

definition nonce_tail :: "message_nonce \<Rightarrow> byte list" where
  "nonce_tail n = drop 4 (word_bytes 12 n)"

definition tails where
  "tails H d = {word_bytes 8 (he_random_nonce H d), nonce_tail (he_nonce H d)}"

definition env_ok where
  "env_ok H N ttl \<longleftrightarrow>
     delay_map_laws (he_nonce_map H) \<and> delay_map_laws (he_challenge_map H) \<and>
     lhm_laws (he_sessions H) \<and> lhm_laws (he_one_time H) \<and> crypto_laws (he_crypto H) \<and>
     (\<forall>i. he_clock H i \<le> he_clock H (Suc i) \<and> he_clock H (Suc i) \<le> he_clock H i + ttl) \<and>
     N < 2 ^ 32 \<and> (\<forall>i<N. \<forall>j<i. tails H i \<inter> tails H j = {})"

lemma env_okD:
  assumes "env_ok H N ttl"
  shows "delay_map_laws (he_nonce_map H)" "delay_map_laws (he_challenge_map H)" "lhm_laws (he_sessions H)"
    "lhm_laws (he_one_time H)" "crypto_laws (he_crypto H)" "N < 2 ^ 32"
    "he_clock H i \<le> he_clock H (Suc i)" "he_clock H (Suc i) \<le> he_clock H i + ttl"
  using assms unfolding env_ok_def by blast+

lemma tails_distinct:
  assumes "env_ok H N ttl" "i < N" "j < N" "i \<noteq> j" "t \<in> tails H i"
  shows "t \<notin> tails H j"
proof -
  have *: "tails H i \<inter> tails H j = {}" if "j < i" "i < N" for i j
    using assms(1) that unfolding env_ok_def by blast
  from assms(4) consider "i < j" | "j < i" by linarith
  then show ?thesis using * [of i j] * [of j i] assms(2,3,5) by cases blast+
qed

lemma nonce_tail_session [simp]: "nonce_tail (session_nonce c r) = word_bytes 8 r"
proof -
  have "word_bytes 12 (session_nonce c r) = be_bytes 4 c @ word_bytes 8 r"
    using word_bytes_word [of "be_bytes 4 c @ word_bytes 8 r", where 'a = 96] by (simp add: session_nonce_def)
  then show ?thesis by (simp add: nonce_tail_def)
qed

section \<open>The session cache\<close>

definition cache_ok where
  "cache_ok H ttl r d c \<longleftrightarrow>
     lru_inv (he_sessions H) (he_clock H r) c \<and> lru_ttl c = ttl \<and>
     (\<forall>k v t. (k, v, t) \<in> set (lru_entries (he_sessions H) c) \<longrightarrow> sess_counter v \<le> d)"

definition at_back where
  "at_back H a v t c \<longleftrightarrow> (\<exists>es. lru_entries (he_sessions H) c = es @ [(a, v, t)])"

lemma cache_ok_mono:
  assumes "env_ok H N ttl" "cache_ok H ttl r d c" "d \<le> d'"
  shows "cache_ok H ttl r d' c" "cache_ok H ttl (Suc r) d' c"
proof -
  have "lru_inv (he_sessions H) (he_clock H (Suc r)) c"
    using assms(2) env_okD(7) [OF assms(1), of r]
    by (auto intro: lru_inv_filter [where P = "\<lambda>_. True" and c = c and now = "he_clock H r"] simp: cache_ok_def)
  with assms show "cache_ok H ttl r d' c" "cache_ok H ttl (Suc r) d' c" unfolding cache_ok_def by (meson order_trans)+
qed

lemma cache_get:
  assumes "env_ok H N ttl" "cache_ok H ttl r d c" "lru_get_mut (he_sessions H) (he_clock H r) a c = (res, c')"
  shows "cache_ok H ttl r d c'"
    "res = Some v \<Longrightarrow> sess_counter v \<le> d \<and> at_back H a v (he_clock H r) c'"
proof -
  let ?L = "he_sessions H" and ?now = "he_clock H r"
  let ?es = "filter (fresh (lru_ttl c) ?now) (lru_entries ?L c)"
  have inv: "lru_inv ?L ?now c" and cnt: "\<And>k v t. (k, v, t) \<in> set (lru_entries ?L c) \<Longrightarrow> sess_counter v \<le> d"
    using assms(2) unfolding cache_ok_def by blast+
  note g = lru_get_mut_eq [OF env_okD(3) [OF assms(1)] inv, of ?now a, unfolded assms(3) fst_conv snd_conv]
  have i: "lru_inv ?L ?now c'" using lru_get_mut_inv [OF env_okD(3) [OF assms(1)] inv order_refl, of a] assms(3) by simp
  have t: "lru_ttl c' = lru_ttl c" using assms(3) by (auto simp: lru_get_mut_def Let_def split: option.splits)
  have c: "\<forall>k v t. (k, v, t) \<in> set (lru_entries ?L c') \<longrightarrow> sess_counter v \<le> d"
    by (auto simp: g(2) without_def intro: cnt split: option.splits dest!: map_of_SomeD)
  from i t c assms(2) show "cache_ok H ttl r d c'" by (simp add: cache_ok_def)
  show "sess_counter v \<le> d \<and> at_back H a v ?now c'" if "res = Some v"
  proof -
    from g(1) that have "map_option fst (map_of ?es a) = Some v" by simp
    then obtain t where m: "map_of ?es a = Some (v, t)" by auto
    then have "(a, v, t) \<in> set (lru_entries ?L c)" by (auto dest: map_of_SomeD)
    with cnt m show ?thesis by (auto simp: at_back_def g(2))
  qed
qed

lemma cache_get_back:
  assumes "env_ok H N ttl" "cache_ok H ttl (Suc r) d c" "at_back H a v (he_clock H r) c"
  shows "fst (lru_get_mut (he_sessions H) (he_clock H (Suc r)) a c) = Some v"
proof -
  let ?L = "he_sessions H"
  obtain es where es: "lru_entries ?L c = es @ [(a, v, he_clock H r)]" using assms(3) by (auto simp: at_back_def)
  have inv: "lru_inv ?L (he_clock H (Suc r)) c" and ttl: "lru_ttl c = ttl" using assms(2) by (auto simp: cache_ok_def)
  then have "a \<notin> fst ` set es" by (auto simp: lru_inv_def es)
  then have "map_of (filter (fresh ttl (he_clock H (Suc r))) es) a = None" by (force simp: map_of_eq_None_iff)
  moreover have "fresh ttl (he_clock H (Suc r)) (a, v, he_clock H r)"
    using env_okD(8) [OF assms(1), of r] by (simp add: fresh_def)
  ultimately show ?thesis
    by (simp add: lru_get_mut_eq(1) [OF env_okD(3) [OF assms(1)] inv] ttl es map_add_def)
qed

lemma cache_put:
  assumes "env_ok H N ttl" "cache_ok H ttl r d c" "at_back H a w t c" "sess_counter v \<le> d"
  defines "c' \<equiv> c\<lparr>lru_map := lhm_to_back (he_sessions H) a (\<lambda>(_, t). (v, t)) (lru_map c)\<rparr>"
  shows "cache_ok H ttl r d c' \<and> at_back H a v t c'"
proof -
  let ?L = "he_sessions H"
  obtain es where es: "lru_entries ?L c = es @ [(a, w, t)]" using assms(3) by (auto simp: at_back_def)
  have inv: "lru_inv ?L (he_clock H r) c" using assms(2) by (auto simp: cache_ok_def)
  then have a: "a \<notin> fst ` set es" by (auto simp: lru_inv_def es)
  then have "map_of (lhm_iter ?L (lru_map c)) a = Some (w, t)"
    using es by (simp add: lru_entries_def map_of_append map_of_eq_None_iff [symmetric] map_add_def)
  moreover have "without a (lhm_iter ?L (lru_map c)) = es"
    using es a unfolding lru_entries_def without_def by (simp add: filter_id_conv) (metis image_eqI)
  ultimately have "lru_entries ?L c' = es @ [(a, v, t)]"
    by (simp add: c'_def lru_entries_def lhm_lawsD(9) [OF env_okD(3) [OF assms(1)]])
  then show ?thesis using inv es assms(2,4)
    by (auto simp: cache_ok_def lru_inv_def at_back_def c'_def)
qed

lemma set_tl_subset: "set (tl xs) \<subseteq> set xs"
  by (cases xs) auto

lemma lru_insert_subset:
  assumes "lhm_laws L"
  shows "set (lru_entries L (lru_insert L now k v c)) \<subseteq> insert (k, v, now) (set (lru_entries L c))"
proof -
  let ?es = "without k (lru_entries L c) @ [(k, v, now)]"
  have e: "set ?es \<subseteq> insert (k, v, now) (set (lru_entries L c))" by (auto simp: without_def)
  with set_tl_subset [of ?es] have "set (tl ?es) \<subseteq> insert (k, v, now) (set (lru_entries L c))" by (rule order_trans)
  with e show ?thesis unfolding lru_insert_entries [OF assms] Let_def by (auto simp del: set_append)
qed

lemma cache_insert:
  assumes "env_ok H N ttl" "cache_ok H ttl r d c" "sess_counter v \<le> d"
  shows "cache_ok H ttl r d (lru_insert (he_sessions H) (he_clock H r) a v c)"
  using lru_insert_inv [OF env_okD(3) [OF assms(1)], of "he_clock H r" c "he_clock H r" a v]
    lru_insert_subset [OF env_okD(3) [OF assms(1)], of "he_clock H r" a v c] assms(2,3)
  by (auto simp: cache_ok_def) (auto simp: lru_insert_def Let_def)

lemma cache_remove:
  assumes "env_ok H N ttl" "cache_ok H ttl r d c"
  shows "cache_ok H ttl r d (snd (lru_remove (he_sessions H) a c))"
  using lru_remove_inv [OF env_okD(3) [OF assms(1)], of "he_clock H r" c "he_clock H r" a] assms(2)
  by (auto simp: cache_ok_def lru_remove_def lru_entries_def case_prod_beta without_def lhm_lawsD(6) [OF env_okD(3) [OF assms(1)]])

lemma cache_len:
  assumes "env_ok H N ttl" "cache_ok H ttl r d c"
  shows "cache_ok H ttl r d (snd (lru_len (he_sessions H) (he_clock H r) c))"
  using lru_len_inv [OF env_okD(3) [OF assms(1)], of "he_clock H r" c "he_clock H r"] assms(2)
    remove_expired_entries [OF env_okD(3) [OF assms(1)], of "he_clock H r" c "he_clock H r"]
  by (auto simp: cache_ok_def lru_len_def Let_def)

section \<open>The invariant\<close>

definition calls where
  "calls s a = ar_calls (h_active_requests s) a"

definition pend where
  "pend s a = (case h_pending_requests s a of Some ps \<Rightarrow> ps | None \<Rightarrow> [])"

definition call_ok where
  "call_ok H d a c \<longleftrightarrow> nc_node_address (he_enr_ops H) (rc_contact c) = a \<and> rc_remaining_responses c \<noteq> Some 0 \<and>
     (\<exists>i<d. nonce_tail (rc_nonce c) \<in> tails H i)"

definition ones_ok where
  "ones_ok H d c \<longleftrightarrow> (\<forall>k i v t. (k, (i, v), t) \<in> set (lru_entries (he_one_time H) c) \<longrightarrow> sess_counter v \<le> d)"

definition hinv ::
  "('enr, 'vk, 'sk, 'pt, 'e, 'mn, 'mc, 'ms, 'mo) handler_env \<Rightarrow> nat \<Rightarrow> duration \<Rightarrow> nat
     \<Rightarrow> ('enr, 'vk, 'sk, 'mn, 'mc, 'ms, 'mo) handler \<Rightarrow> bool" where
  "hinv H N ttl k s \<longleftrightarrow>
     ar_inv (he_nonce_map H) (h_active_requests s) \<and>
     cache_ok H ttl (h_reads s) (h_draws s) (h_sessions s) \<and>
     ones_ok H (h_draws s) (h_one_time_sessions s) \<and>
     (\<forall>a c. c \<in> set (calls s a) \<longrightarrow> call_ok H (h_draws s) a c) \<and>
     (\<forall>a p. p \<in> set (pend s a) \<longrightarrow> nc_node_address (he_enr_ops H) (pr_contact p) = a) \<and>
     h_request_retries s \<le> 255 \<and> h_draws s \<le> N \<and> k \<le> length (h_out s)"

text \<open>
  The requests of the service that are accounted for: those that are active or pending, and those reported
  after the first \<open>k\<close> messages to the service. \<open>known s a\<close> are the ids of the requests to an address.
\<close>

fun ext_id :: "handler_req_id \<Rightarrow> request_id set" where
  "ext_id (External i) = {i}"
| "ext_id (Internal i) = {}"

definition reported :: "'enr handler_out list \<Rightarrow> request_id set" where
  "reported ms = {i. (\<exists>e. OutRequestFailed i e \<in> set ms) \<or> (\<exists>a r. OutResponse a r \<in> set ms \<and> resp_id r = i)}"

definition acc where
  "acc k s = {i. \<exists>a c. c \<in> set (calls s a) \<and> i \<in> ext_id (rc_request_id c)} \<union>
     {i. \<exists>a p. p \<in> set (pend s a) \<and> i \<in> ext_id (pr_request_id p)} \<union> reported (drop k (h_out s))"

definition known where
  "known s a = (\<lambda>c. request_id_of (rc_request_id c)) ` set (calls s a) \<union>
     (\<lambda>p. request_id_of (pr_request_id p)) ` set (pend s a)"

definition failures :: "'enr handler_out set" where
  "failures = {OutRequestFailed i e | i e. True}"

text \<open>
  What an operation that does not talk to the service but for failed requests does: it accounts for the
  requests \<open>X\<close> besides all earlier ones, and adds at most the ids \<open>K a\<close> to an address.
\<close>

definition only where
  "only a K b = (if b = a then K else {})"

definition evolve where
  "evolve H N ttl k X K s s' \<longleftrightarrow>
     hinv H N ttl k s' \<and> h_draws s \<le> h_draws s' \<and> X \<union> acc k s \<subseteq> acc k s' \<and>
     (\<forall>a. known s' a \<subseteq> known s a \<union> K a) \<and> (\<exists>fs. h_out s' = h_out s @ fs \<and> set fs \<subseteq> failures)"

lemma evolve_refl: "hinv H N ttl k s \<Longrightarrow> evolve H N ttl k {} (\<lambda>_. {}) s s"
  by (simp add: evolve_def)

lemma evolve_trans:
  assumes "evolve H N ttl k X K s s1" "evolve H N ttl k X' K' s1 s2"
  shows "evolve H N ttl k (X \<union> X') (\<lambda>a. K a \<union> K' a) s s2"
proof -
  from assms obtain fs fs' where "h_out s2 = h_out s @ (fs @ fs')" "set (fs @ fs') \<subseteq> failures"
    by (auto simp: evolve_def)
  then have fs: "\<exists>fs. h_out s2 = h_out s @ fs \<and> set fs \<subseteq> failures" by blast
  have "X \<union> acc k s \<subseteq> acc k s1" "X' \<union> acc k s1 \<subseteq> acc k s2" using assms by (simp_all only: evolve_def)
  then have a: "(X \<union> X') \<union> acc k s \<subseteq> acc k s2" by blast
  have "known s1 b \<subseteq> known s b \<union> K b" "known s2 b \<subseteq> known s1 b \<union> K' b" for b using assms by (simp_all only: evolve_def)
  then have b: "\<forall>b. known s2 b \<subseteq> known s b \<union> (K b \<union> K' b)" by blast
  have "h_draws s \<le> h_draws s2" "hinv H N ttl k s2" using assms unfolding evolve_def by linarith+
  with fs a b show ?thesis unfolding evolve_def by blast
qed

lemmas evolve_quiet = evolve_trans [where X = "{}" and K = "\<lambda>_. {}", simplified]
lemmas evolve_then_quiet = evolve_trans [where X' = "{}" and K' = "\<lambda>_. {}", simplified]

definition core where
  "core s = (h_active_requests s, h_sessions s, h_one_time_sessions s, h_pending_requests s, h_request_retries s,
     h_reads s, h_draws s)"

lemma core_eqD:
  assumes "core s' = core s"
  shows "calls s' = calls s" "pend s' = pend s" "known s' = known s" "h_draws s' = h_draws s" "h_reads s' = h_reads s"
    "h_sessions s' = h_sessions s" "h_active_requests s' = h_active_requests s"
  using assms by (auto simp: core_def calls_def pend_def known_def fun_eq_iff)

lemma hinv_core:
  assumes "hinv H N ttl k s" "core s' = core s" "length (h_out s) \<le> length (h_out s')"
  shows "hinv H N ttl k s'"
  using assms(1,3) core_eqD [OF assms(2)] assms(2) by (simp add: hinv_def core_def)

lemma acc_core:
  assumes "core s' = core s" "k \<le> length (h_out s)" "h_out s' = h_out s @ ms"
  shows "acc k s' = acc k s \<union> reported ms"
  using assms(2,3) core_eqD [OF assms(1)] by (auto simp: acc_def reported_def)

lemma reported_append [simp]: "reported (xs @ ys) = reported xs \<union> reported ys" "reported [] = {}"
  by (auto simp: reported_def)

lemma evolve_core:
  assumes "hinv H N ttl k s" "core s' = core s" "h_out s' = h_out s @ fs" "set fs \<subseteq> failures"
  shows "evolve H N ttl k (reported fs) (\<lambda>_. {}) s s'"
proof -
  have "hinv H N ttl k s'" using hinv_core [OF assms(1,2)] assms(3) by simp
  moreover have "acc k s' = acc k s \<union> reported fs"
    using assms by (intro acc_core) (simp_all add: hinv_def)
  ultimately show ?thesis
    using assms(3,4) core_eqD [OF assms(2)] by (auto simp: evolve_def)
qed

lemma core_simps [simp]:
  "core (service_send m s) = core s" "core (send a p s) = core s" "core (remove_expected_response x s) = core s"
  "core (add_expected_response x s) = core s" "core (report_failure i e s) = core s"
  "core (s\<lparr>h_active_challenges := mc\<rparr>) = core s" "core (s\<lparr>h_permit_ban := pb\<rparr>) = core s"
  by (simp_all add: core_def service_send_def send_def remove_expected_response_def add_expected_response_def)
    (cases i; simp add: core_def service_send_def)

lemma out_simps [simp]:
  "h_out (service_send m s) = h_out s @ [m]" "h_out (send a p s) = h_out s" "h_out (remove_expected_response x s) = h_out s"
  "h_out (add_expected_response x s) = h_out s"
  "h_out (report_failure (External j) e s) = h_out s @ [OutRequestFailed j e]" "h_out (report_failure (Internal j) e s) = h_out s"
  by (simp_all add: service_send_def send_def remove_expected_response_def add_expected_response_def)

lemma report_failure_evolve:
  assumes "hinv H N ttl k s"
  shows "evolve H N ttl k (ext_id i) (\<lambda>_. {}) s (report_failure i e s)"
proof (cases i)
  case (Internal j)
  then show ?thesis using evolve_refl [OF assms] by simp
next
  case (External j)
  show ?thesis
    using evolve_core [OF assms, of "report_failure i e s" "[OutRequestFailed j e]"]
    by (simp add: External failures_def reported_def)
qed

lemma evolve_frame:
  assumes "hinv H N ttl k s" "core s' = core s" "h_out s' = h_out s"
  shows "evolve H N ttl k {} (\<lambda>_. {}) s s'"
  using evolve_core [OF assms(1,2), of "[]"] assms(3) by simp

lemma evolve_weaken:
  "evolve H N ttl k X (\<lambda>_. {}) s s' \<Longrightarrow> evolve H N ttl k X K s s'"
  unfolding evolve_def by blast

lemma evolve_hinv: "evolve H N ttl k X K s s' \<Longrightarrow> hinv H N ttl k s'"
  by (simp add: evolve_def)

text \<open>Changes of the session cache and of the numbers of readings and draws.\<close>

lemma evolve_cache:
  assumes "env_ok H N ttl" "hinv H N ttl k s" "cache_ok H ttl r d c" "h_draws s \<le> d" "d \<le> N"
  shows "evolve H N ttl k {} (\<lambda>_. {}) s (s\<lparr>h_sessions := c, h_reads := r, h_draws := d\<rparr>)" (is "evolve _ _ _ _ _ _ _ ?s")
proof -
  have c: "calls ?s = calls s" "pend ?s = pend s" by (simp_all add: calls_def pend_def fun_eq_iff)
  have "call_ok H d a x" if "x \<in> set (calls s a)" for a x
    using assms(2,4) that unfolding hinv_def call_ok_def by (meson less_le_trans)
  moreover have "ones_ok H d (h_one_time_sessions s)"
    using assms(2,4) unfolding hinv_def ones_ok_def by (meson order_trans)
  ultimately have "hinv H N ttl k ?s" using assms by (simp add: hinv_def c)
  then show ?thesis using assms(4) by (simp add: evolve_def acc_def known_def c)
qed

section \<open>Primitive operations\<close>

lemma tick_evolve:
  assumes "env_ok H N ttl" "hinv H N ttl k s"
  shows "evolve H N ttl k {} (\<lambda>_. {}) s (s\<lparr>h_reads := Suc (h_reads s)\<rparr>)"
proof -
  have "cache_ok H ttl (Suc (h_reads s)) (h_draws s) (h_sessions s)" "h_draws s \<le> N"
    using cache_ok_mono(2) [OF assms(1) _ order_refl] assms(2) by (auto simp: hinv_def)
  from evolve_cache [OF assms this(1) order_refl this(2)] show ?thesis by simp
qed

lemma draw_evolve:
  assumes "env_ok H N ttl" "hinv H N ttl k s" "h_draws s < N"
  shows "evolve H N ttl k {} (\<lambda>_. {}) s (s\<lparr>h_draws := Suc (h_draws s)\<rparr>)"
proof -
  have "cache_ok H ttl (h_reads s) (Suc (h_draws s)) (h_sessions s)"
    using cache_ok_mono(1) [OF assms(1), of "h_reads s" "h_draws s" "h_sessions s"] assms(2) by (auto simp: hinv_def)
  from evolve_cache [OF assms(1,2) this] assms(3) show ?thesis by simp
qed

lemma session_get_spec:
  assumes "env_ok H N ttl" "hinv H N ttl k s" "session_get H a s = (r, s1)"
  shows "evolve H N ttl k {} (\<lambda>_. {}) s s1" "s1 = s\<lparr>h_sessions := h_sessions s1, h_reads := Suc (h_reads s)\<rparr>"
    "r = Some v \<Longrightarrow> sess_counter v \<le> h_draws s \<and> at_back H a v (he_clock H (h_reads s)) (h_sessions s1)"
proof -
  obtain c where c: "lru_get_mut (he_sessions H) (he_clock H (h_reads s)) a (h_sessions s) = (r, c)"
    "s1 = s\<lparr>h_sessions := c, h_reads := Suc (h_reads s)\<rparr>"
    using assms(3) by (auto simp: session_get_def tick_def Let_def split: prod.splits)
  have ok: "cache_ok H ttl (h_reads s) (h_draws s) (h_sessions s)" "h_draws s \<le> N" using assms(2) by (simp_all add: hinv_def)
  note g = cache_get [OF assms(1) ok(1) c(1)]
  from evolve_cache [OF assms(1,2) cache_ok_mono(2) [OF assms(1) g(1) order_refl] order_refl ok(2)]
  show "evolve H N ttl k {} (\<lambda>_. {}) s s1" by (simp add: c(2))
  show "s1 = s\<lparr>h_sessions := h_sessions s1, h_reads := Suc (h_reads s)\<rparr>" by (simp add: c(2))
  show "sess_counter v \<le> h_draws s \<and> at_back H a v (he_clock H (h_reads s)) (h_sessions s1)" if "r = Some v"
    using g(2) [OF that] by (simp add: c(2))
qed

lemma session_put_spec:
  assumes "env_ok H N ttl" "hinv H N ttl k s" "at_back H a w t (h_sessions s)" "sess_counter v \<le> h_draws s"
  shows "evolve H N ttl k {} (\<lambda>_. {}) s (session_put H a v s)" "at_back H a v t (h_sessions (session_put H a v s))"
    "session_put H a v s = s\<lparr>h_sessions := h_sessions (session_put H a v s)\<rparr>"
proof -
  have ok: "cache_ok H ttl (h_reads s) (h_draws s) (h_sessions s)" "h_draws s \<le> N" using assms(2) by (simp_all add: hinv_def)
  note p = cache_put [OF assms(1) ok(1) assms(3,4)]
  from evolve_cache [OF assms(1,2) conjunct1 [OF p] order_refl ok(2)] p
  show "evolve H N ttl k {} (\<lambda>_. {}) s (session_put H a v s)" "at_back H a v t (h_sessions (session_put H a v s))"
    "session_put H a v s = s\<lparr>h_sessions := h_sessions (session_put H a v s)\<rparr>"
    by (simp_all add: session_put_def)
qed

lemma session_message_spec:
  fixes H :: "('enr, 'vk, 'sk, 'pt, 'e, 'mn, 'mc, 'ms, 'mo) handler_env"
  assumes "env_ok H N ttl" "h_draws s < N" "sess_counter v \<le> h_draws s"
  obtains r v' where "session_message H v m s = Some (r, v', s\<lparr>h_draws := Suc (h_draws s)\<rparr>)"
    "sess_counter v' \<le> Suc (h_draws s)" "\<And>p. r = Inr p \<Longrightarrow> nonce_tail (packet_nonce p) \<in> tails H (h_draws s)"
proof -
  have "sess_counter v + 1 < 2 ^ 32" using assms(2,3) env_okD(6) [OF assms(1)] by linarith
  then obtain r :: "'enr challenge disc_error + 'enr packet" where
    r: "session_encrypt (he_crypto H) (he_codec H) (he_protocol H) (he_random_nonce H (h_draws s)) (he_iv H (h_draws s)) (h_node_id s) m v
      = Some (r, v\<lparr>sess_counter := sess_counter v + 1\<rparr>)"
    "\<And>q. r = Inr q \<Longrightarrow> packet_nonce q = session_nonce (sess_counter v + 1) (he_random_nonce H (h_draws s))"
    by (rule session_encrypt_counter) blast
  show thesis
    by (rule that [of r "v\<lparr>sess_counter := sess_counter v + 1\<rparr>"])
      (use r assms(3) in \<open>simp_all add: session_message_def draw_def Let_def tails_def\<close>)
qed

lemma active_insert_spec:
  assumes "env_ok H N ttl" "hinv H N ttl k s" "call_ok H (h_draws s) a c" "\<And>b. rc_nonce c \<notin> rc_nonce ` set (calls s b)"
  shows "evolve H N ttl k (ext_id (rc_request_id c)) (only a {request_id_of (rc_request_id c)}) s (active_insert H a c s)"
    "calls (active_insert H a c s) = (calls s)(a := calls s a @ [c])"
    "pend (active_insert H a c s) = pend s" "h_draws (active_insert H a c s) = h_draws s" "h_out (active_insert H a c s) = h_out s"
proof -
  let ?D = "he_nonce_map H" and ?s = "active_insert H a c s"
  have ar: "ar_inv ?D (h_active_requests s)" using assms(2) by (simp add: hinv_def)
  have "dm_get ?D (rc_nonce c) (ar_nonces (h_active_requests s)) = None"
    using assms(4) ar_invD(1) [OF ar, of "rc_nonce c"] by (auto simp: calls_def simp del: not_None_eq split: option.splits)
  note i = ar_insert_spec [OF env_okD(1) [OF assms(1)] ar this, of "he_clock H (h_reads s)" a]
  show c: "calls ?s = (calls s)(a := calls s a @ [c])" using i by (simp add: calls_def active_insert_def tick_def fun_eq_iff)
  show p: "pend ?s = pend s" "h_draws ?s = h_draws s" "h_out ?s = h_out s"
    by (simp_all add: pend_def active_insert_def tick_def fun_eq_iff)
  have t: "hinv H N ttl k (s\<lparr>h_reads := Suc (h_reads s)\<rparr>)" by (rule evolve_hinv [OF tick_evolve [OF assms(1,2)]])
  have "hinv H N ttl k ?s"
    unfolding hinv_def c p using t i assms(2,3)
    by (auto simp: hinv_def active_insert_def tick_def)
  moreover have "ext_id (rc_request_id c) \<union> acc k s \<subseteq> acc k ?s"
  proof -
    have "set (calls s b) \<subseteq> set (calls ?s b)" "c \<in> set (calls ?s a)" for b by (auto simp: c)
    then show ?thesis unfolding acc_def p by blast
  qed
  moreover have "known ?s b \<subseteq> known s b \<union> only a {request_id_of (rc_request_id c)} b" for b
    by (auto simp: known_def c p only_def)
  ultimately show "evolve H N ttl k (ext_id (rc_request_id c)) (only a {request_id_of (rc_request_id c)}) s ?s"
    by (simp add: evolve_def p)
qed

text \<open>When a state lost requests that the operation that follows accounts for.\<close>

lemma evolve_from:
  assumes "evolve H N ttl k X K s1 s2" "acc k s \<subseteq> X \<union> acc k s1" "\<And>b. known s1 b \<subseteq> known s b" "\<And>b. K b \<subseteq> known s b"
    "h_out s1 = h_out s" "h_draws s1 = h_draws s"
  shows "evolve H N ttl k {} (\<lambda>_. {}) s s2"
proof -
  have "X \<union> acc k s1 \<subseteq> acc k s2" using assms(1) by (simp only: evolve_def)
  with assms(2) have a: "{} \<union> acc k s \<subseteq> acc k s2" by blast
  have "known s2 b \<subseteq> known s1 b \<union> K b" for b using assms(1) by (simp only: evolve_def)
  with assms(3,4) have b: "\<forall>b. known s2 b \<subseteq> known s b \<union> {}" by blast
  show ?thesis using assms(1) a b unfolding evolve_def assms(5,6) by blast
qed

lemma fold_report_evolve:
  assumes "hinv H N ttl k s" "\<And>x s. core (g x s) = core s" "\<And>x s. h_out (g x s) = h_out s"
  shows "evolve H N ttl k (\<Union>x\<in>set xs. ext_id (f x)) (\<lambda>_. {}) s (fold (\<lambda>x s. g x (report_failure (f x) e s)) xs s) \<and>
    core (fold (\<lambda>x s. g x (report_failure (f x) e s)) xs s) = core s"
  using assms(1)
proof (induction xs arbitrary: s)
  case Nil
  then show ?case by (simp add: evolve_refl)
next
  case (Cons x xs)
  let ?s = "g x (report_failure (f x) e s)"
  have h: "hinv H N ttl k (report_failure (f x) e s)" by (rule evolve_hinv [OF report_failure_evolve [OF Cons.prems]])
  have 1: "evolve H N ttl k (ext_id (f x)) (\<lambda>_. {}) s ?s"
    using evolve_then_quiet [OF report_failure_evolve [OF Cons.prems] evolve_frame [OF h assms(2,3)]] .
  from evolve_trans [OF 1 conjunct1 [OF Cons.IH [OF evolve_hinv [OF 1]]]] conjunct2 [OF Cons.IH [OF evolve_hinv [OF 1]]]
  show ?case by (simp add: assms(2))
qed

text \<open>Removing the call found by its nonce or id.\<close>

lemma removed_call:
  assumes "hinv H N ttl k s" "ar_inv (he_nonce_map H) ar" "c \<in> set (calls s a)"
    "ar_calls ar = (ar_calls (h_active_requests s))(a := filter (\<lambda>x. rc_nonce x \<noteq> rc_nonce c) (ar_calls (h_active_requests s) a))"
  defines "s1 \<equiv> s\<lparr>h_active_requests := ar\<rparr>"
  shows "hinv H N ttl k s1" "acc k s \<subseteq> ext_id (rc_request_id c) \<union> acc k s1" "known s1 b \<subseteq> known s b"
    "call_ok H (h_draws s) a c" "rc_nonce c \<notin> rc_nonce ` set (calls s1 b)" "request_id_of (rc_request_id c) \<in> known s a"
    "h_out s1 = h_out s" "h_draws s1 = h_draws s" "pend s1 = pend s" "length (calls s1 b) \<le> length (calls s b)"
proof -
  have ar: "ar_inv (he_nonce_map H) (h_active_requests s)" using assms(1) by (simp add: hinv_def)
  have c: "calls s1 = (calls s)(a := filter (\<lambda>x. rc_nonce x \<noteq> rc_nonce c) (calls s a))"
    using assms(4) by (simp add: calls_def s1_def fun_eq_iff)
  show p: "h_out s1 = h_out s" "h_draws s1 = h_draws s" "pend s1 = pend s" by (simp_all add: s1_def pend_def fun_eq_iff)
  have sub: "set (calls s1 b) \<subseteq> set (calls s b)" for b by (auto simp: c)
  have "\<forall>b x. x \<in> set (calls s1 b) \<longrightarrow> call_ok H (h_draws s) b x" using assms(1) sub unfolding hinv_def by blast
  then show "hinv H N ttl k s1" using assms(1,2) unfolding hinv_def p by (simp add: s1_def)
  have eq: "x = c" if "x \<in> set (calls s a)" "rc_nonce x = rc_nonce c" for x
    using ar_invD(2) [OF ar, of a] that assms(3) by (auto simp: distinct_map calls_def dest: inj_onD)
  have "x \<in> set (calls s1 b) \<or> x = c" if "x \<in> set (calls s b)" for x b using that eq by (auto simp: c)
  then show "acc k s \<subseteq> ext_id (rc_request_id c) \<union> acc k s1" unfolding acc_def p by blast
  show "known s1 b \<subseteq> known s b" using sub unfolding known_def p by blast
  show "call_ok H (h_draws s) a c" using assms(1,3) by (simp add: hinv_def)
  show "request_id_of (rc_request_id c) \<in> known s a" using assms(3) by (auto simp: known_def)
  show "length (calls s1 b) \<le> length (calls s b)" by (simp add: c)
  have "dm_get (he_nonce_map H) (rc_nonce c) (ar_nonces (h_active_requests s)) = Some a"
    using assms(3) ar_invD(1) [OF ar] by (auto simp: calls_def)
  then show "rc_nonce c \<notin> rc_nonce ` set (calls s1 b)"
    using ar_invD(1) [OF ar, of "rc_nonce c" b] by (auto simp: c calls_def)
qed

lemma drop_pending:
  fixes a :: node_address
  assumes "hinv H N ttl k s"
  defines "s1 \<equiv> s\<lparr>h_pending_requests := (h_pending_requests s)(a := None)\<rparr>"
  shows "hinv H N ttl k s1" "acc k s \<subseteq> (\<Union>p\<in>set (pend s a). ext_id (pr_request_id p)) \<union> acc k s1"
    "known s1 b \<subseteq> known s b" "h_out s1 = h_out s" "h_draws s1 = h_draws s" "calls s1 = calls s" "pend s1 = (pend s)(a := [])"
proof -
  show p: "h_out s1 = h_out s" "h_draws s1 = h_draws s" "calls s1 = calls s" "pend s1 = (pend s)(a := [])"
    by (simp_all add: s1_def calls_def pend_def fun_eq_iff)
  have "\<forall>b x. x \<in> set (pend s1 b) \<longrightarrow> nc_node_address (he_enr_ops H) (pr_contact x) = b"
    using assms(1) unfolding hinv_def p by (simp add: fun_upd_def)
  then show "hinv H N ttl k s1" using assms(1) unfolding hinv_def p(1,2,3) by (simp add: s1_def)
  have "x \<in> set (pend s1 b) \<or> x \<in> set (pend s a)" if "x \<in> set (pend s b)" for x b using that by (auto simp: p)
  then show "acc k s \<subseteq> (\<Union>p\<in>set (pend s a). ext_id (pr_request_id p)) \<union> acc k s1" unfolding acc_def p(1,3) by blast
  show "known s1 b \<subseteq> known s b" unfolding known_def p by auto
qed

lemma drop_calls:
  assumes "hinv H N ttl k s" "ar_inv (he_nonce_map H) ar" "ar_calls ar = (ar_calls (h_active_requests s))(a := [])"
  defines "s1 \<equiv> s\<lparr>h_active_requests := ar\<rparr>"
  shows "hinv H N ttl k s1" "acc k s \<subseteq> (\<Union>c\<in>set (calls s a). ext_id (rc_request_id c)) \<union> acc k s1"
    "known s1 b \<subseteq> known s b" "h_out s1 = h_out s" "h_draws s1 = h_draws s" "calls s1 = (calls s)(a := [])" "pend s1 = pend s"
proof -
  show p: "h_out s1 = h_out s" "h_draws s1 = h_draws s" "calls s1 = (calls s)(a := [])" "pend s1 = pend s"
    using assms(3) by (simp_all add: s1_def calls_def pend_def fun_eq_iff)
  have "\<forall>b x. x \<in> set (calls s1 b) \<longrightarrow> call_ok H (h_draws s) b x"
    using assms(1) unfolding hinv_def p by (simp add: fun_upd_def)
  then show "hinv H N ttl k s1" using assms(1,2) unfolding hinv_def p(1,2,4) by (simp add: s1_def)
  have "x \<in> set (calls s1 b) \<or> x \<in> set (calls s a)" if "x \<in> set (calls s b)" for x b using that by (auto simp: p)
  then show "acc k s \<subseteq> (\<Union>c\<in>set (calls s a). ext_id (rc_request_id c)) \<union> acc k s1" unfolding acc_def p(1,4) by blast
  show "known s1 b \<subseteq> known s b" unfolding known_def p by auto
qed

lemma reads_sessions_commute: "s\<lparr>h_reads := x, h_sessions := c\<rparr> = s\<lparr>h_sessions := c, h_reads := x\<rparr>"
  by simp

lemma sessions_len_evolve:
  assumes "env_ok H N ttl" "hinv H N ttl k s"
  shows "evolve H N ttl k {} (\<lambda>_. {}) s (sessions_len H s)"
proof -
  have ok: "cache_ok H ttl (h_reads s) (h_draws s) (h_sessions s)" "h_draws s \<le> N" using assms(2) by (simp_all add: hinv_def)
  from evolve_cache [OF assms cache_ok_mono(2) [OF assms(1) cache_len [OF assms(1) ok(1)] order_refl] order_refl ok(2)]
  show ?thesis by (simp add: sessions_len_def tick_def reads_sessions_commute)
qed

lemma session_remove_evolve:
  assumes "env_ok H N ttl" "hinv H N ttl k s"
  shows "evolve H N ttl k {} (\<lambda>_. {}) s (s\<lparr>h_sessions := snd (lru_remove (he_sessions H) a (h_sessions s))\<rparr>)"
proof -
  have ok: "cache_ok H ttl (h_reads s) (h_draws s) (h_sessions s)" "h_draws s \<le> N" using assms(2) by (simp_all add: hinv_def)
  from evolve_cache [OF assms cache_remove [OF assms(1) ok(1)] order_refl ok(2)] show ?thesis by simp
qed

lemma session_insert_evolve:
  assumes "env_ok H N ttl" "hinv H N ttl k s" "sess_counter v \<le> h_draws s"
  shows "evolve H N ttl k {} (\<lambda>_. {}) s
    (s\<lparr>h_reads := Suc (h_reads s), h_sessions := lru_insert (he_sessions H) (he_clock H (h_reads s)) a v (h_sessions s)\<rparr>)"
proof -
  have ok: "cache_ok H ttl (h_reads s) (h_draws s) (h_sessions s)" "h_draws s \<le> N" using assms(2) by (simp_all add: hinv_def)
  from evolve_cache [OF assms(1,2) cache_ok_mono(2) [OF assms(1) cache_insert [OF assms(1) ok(1) assms(3)] order_refl] order_refl ok(2)]
  show ?thesis by (simp add: reads_sessions_commute)
qed

section \<open>Failing\<close>

lemma fail_session_spec:
  assumes "env_ok H N ttl" "hinv H N ttl k s"
  obtains s' where "fail_session H a e rm s = Some s'" "evolve H N ttl k {} (\<lambda>_. {}) s s'"
    "calls s' = (calls s)(a := [])" "pend s' = (pend s)(a := [])" "h_draws s' = h_draws s"
proof -
  let ?X = "\<lambda>ps. \<Union>p\<in>set ps. ext_id (pr_request_id p)"
  define s1 where "s1 = (if rm then sessions_len H (s\<lparr>h_sessions := snd (lru_remove (he_sessions H) a (h_sessions s))\<rparr>) else s)"
  have e1: "evolve H N ttl k {} (\<lambda>_. {}) s s1"
    using evolve_quiet [OF session_remove_evolve sessions_len_evolve [OF _ evolve_hinv [OF session_remove_evolve]]] evolve_refl
      assms by (auto simp: s1_def)
  have c1: "calls s1 = calls s" "pend s1 = pend s" "h_draws s1 = h_draws s"
    by (auto simp: s1_def sessions_len_def tick_def calls_def pend_def fun_eq_iff)
  define s2 where "s2 = s1\<lparr>h_pending_requests := (h_pending_requests s1)(a := None)\<rparr>"
  define s3 where "s3 = fold (\<lambda>p. report_failure (pr_request_id p) e) (pend s1 a) s2"
  note d = drop_pending [OF evolve_hinv [OF e1], of a, folded s2_def]
  have e3: "evolve H N ttl k (?X (pend s1 a)) (\<lambda>_. {}) s2 s3" "core s3 = core s2"
    using fold_report_evolve [OF d(1), where g = "\<lambda>_ s. s" and f = pr_request_id and e = e and xs = "pend s1 a"]
    by (simp_all add: s3_def)
  have e13: "evolve H N ttl k {} (\<lambda>_. {}) s1 s3" by (rule evolve_from [OF e3(1) d(2,3) _ d(4,5)]) simp
  note c3 = core_eqD [OF e3(2)]
  have s3: "(case h_pending_requests s1 a of Some r \<Rightarrow> fold (\<lambda>p. report_failure (pr_request_id p) e) r s2 | None \<Rightarrow> s1) = s3"
    by (auto simp: s3_def s2_def pend_def fun_upd_idem split: option.split)
  have ar: "ar_inv (he_nonce_map H) (h_active_requests s3)" using evolve_hinv [OF e13] by (simp add: hinv_def)
  obtain ar where ar': "ar_remove_requests (he_nonce_map H) a (h_active_requests s3) = Some (keep_nonempty (ar_calls (h_active_requests s3) a), ar)"
    "ar_inv (he_nonce_map H) ar" "ar_calls ar = (ar_calls (h_active_requests s3))(a := [])"
    by (rule ar_remove_requests_spec [OF env_okD(1) [OF assms(1)] ar])
  define s4 where "s4 = s3\<lparr>h_active_requests := ar\<rparr>"
  define s5 where "s5 = fold (\<lambda>req s. remove_expected_response (na_socket_addr a) (report_failure (rc_request_id req) e s)) (calls s3 a) s4"
  note d4 = drop_calls [OF evolve_hinv [OF e13] ar'(2,3), folded s4_def]
  have e5: "evolve H N ttl k (\<Union>c\<in>set (calls s3 a). ext_id (rc_request_id c)) (\<lambda>_. {}) s4 s5" "core s5 = core s4"
    using fold_report_evolve [OF d4(1), where g = "\<lambda>_. remove_expected_response (na_socket_addr a)" and f = rc_request_id
        and e = e and xs = "calls s3 a"] by (simp_all add: s5_def)
  have e35: "evolve H N ttl k {} (\<lambda>_. {}) s3 s5" by (rule evolve_from [OF e5(1) d4(2,3) _ d4(4,5)]) simp
  have r: "fail_session H a e rm s = Some s5"
    unfolding fail_session_def Let_def s1_def [symmetric] s2_def [symmetric] s3
    by (simp add: ar'(1) s5_def s4_def calls_def)
  show thesis
    by (rule that [OF r evolve_quiet [OF evolve_quiet [OF e1 e13] e35]])
      (simp_all add: core_eqD [OF e5(2)] d4 c3 d c1)
qed

lemma fail_request_spec:
  assumes "env_ok H N ttl" "hinv H N ttl k s"
  obtains s' where "fail_request H c e rm s = Some s'" "evolve H N ttl k (ext_id (rc_request_id c)) (\<lambda>_. {}) s s'" "h_draws s' = h_draws s"
proof -
  note r = report_failure_evolve [OF assms(2), of "rc_request_id c" e]
  obtain s' where s': "fail_session H (nc_node_address (he_enr_ops H) (rc_contact c)) e rm (report_failure (rc_request_id c) e s) = Some s'"
    "evolve H N ttl k {} (\<lambda>_. {}) (report_failure (rc_request_id c) e s) s'" "h_draws s' = h_draws (report_failure (rc_request_id c) e s)"
    by (rule fail_session_spec [OF assms(1) evolve_hinv [OF r]])
  have "core (report_failure (rc_request_id c) e s) = core s" by simp
  from core_eqD(4) [OF this] s' show thesis
    by (intro that [of s'] evolve_then_quiet [OF r]) (simp_all add: fail_request_def)
qed

lemma request_timeout_spec:
  assumes "env_ok H N ttl" "hinv H N ttl k s" "call_ok H (h_draws s) a c" "\<And>b. rc_nonce c \<notin> rc_nonce ` set (calls s b)"
  obtains s' where "handle_request_timeout H a c s = Some s'" "h_draws s' = h_draws s"
    "evolve H N ttl k (ext_id (rc_request_id c)) (only a {request_id_of (rc_request_id c)}) s s'"
proof (cases "h_request_retries s \<le> rc_retries c")
  case True
  let ?s = "remove_expected_response (na_socket_addr a) s"
  have f: "evolve H N ttl k {} (\<lambda>_. {}) s ?s" by (rule evolve_frame [OF assms(2)]) simp_all
  obtain s' where s': "fail_request H c RTimeout False ?s = Some s'"
    "evolve H N ttl k (ext_id (rc_request_id c)) (\<lambda>_. {}) ?s s'" "h_draws s' = h_draws ?s"
    by (rule fail_request_spec [OF assms(1) evolve_hinv [OF f]])
  have e: "evolve H N ttl k (ext_id (rc_request_id c)) (\<lambda>_. {}) s s'" by (rule evolve_quiet [OF f s'(2)])
  show thesis
    by (rule that [of s']) (use s'(1,3) True e in \<open>auto simp: handle_request_timeout_def evolve_def remove_expected_response_def\<close>)
next
  case False
  let ?c = "c\<lparr>rc_retries := rc_retries c + 1\<rparr>" and ?s = "send a (rc_packet c) s"
  have f: "evolve H N ttl k {} (\<lambda>_. {}) s ?s" by (rule evolve_frame [OF assms(2)]) simp_all
  have "core ?s = core s" by simp
  note c = core_eqD [OF this]
  have n: "rc_nonce ?c = rc_nonce c" by (simp add: rc_nonce_def)
  have ok: "call_ok H (h_draws ?s) a ?c" using assms(3) unfolding c call_ok_def n by simp
  note i = active_insert_spec [OF assms(1) evolve_hinv [OF f] ok, unfolded n c, OF assms(4)]
  have "rc_retries c < 255" using False assms(2) by (simp add: hinv_def)
  then have "handle_request_timeout H a c s = Some (active_insert H a ?c ?s)"
    using False by (simp add: handle_request_timeout_def increment_retries_def)
  from that [OF this] i(4) evolve_quiet [OF f i(1)] show thesis by simp
qed

section \<open>Sending requests\<close>

lemma fresh_nonce:
  assumes "env_ok H N ttl" "hinv H N ttl k s" "nonce_tail n \<in> tails H d" "h_draws s \<le> d" "d < N"
  shows "n \<notin> rc_nonce ` set (calls s b)"
proof
  assume "n \<in> rc_nonce ` set (calls s b)"
  then obtain c where c: "c \<in> set (calls s b)" "rc_nonce c = n" by blast
  with assms(2) have "call_ok H (h_draws s) b c" by (simp add: hinv_def)
  with c obtain i where "i < h_draws s" "nonce_tail n \<in> tails H i" by (auto simp: call_ok_def)
  with tails_distinct [OF assms(1), of i d "nonce_tail n"] assms(3,4,5) show False by simp
qed

lemma request_packet_spec:
  fixes H :: "('enr, 'vk, 'sk, 'pt, 'e, 'mn, 'mc, 'ms, 'mo) handler_env"
  assumes "env_ok H N ttl" "hinv H N ttl k s" "h_draws s < N"
  obtains r s' where "request_packet H a rid req s = Some (r, s')" "evolve H N ttl k {} (\<lambda>_. {}) s s'"
    "h_draws s' = Suc (h_draws s)" "calls s' = calls s" "pend s' = pend s"
    "\<And>p b. r = Inr (p, b) \<Longrightarrow> nonce_tail (packet_nonce p) \<in> tails H (h_draws s)"
proof -
  obtain res s1 where g: "session_get H a s = (res, s1)" by fastforce
  note g1 = session_get_spec [OF assms(1,2) g]
  have f1: "h_draws s1 = h_draws s" "calls s1 = calls s" "pend s1 = pend s"
    by (subst g1(2); simp add: calls_def pend_def fun_eq_iff)+
  let ?s2 = "s1\<lparr>h_draws := Suc (h_draws s1)\<rparr>"
  have e2: "evolve H N ttl k {} (\<lambda>_. {}) s ?s2"
    using evolve_quiet [OF g1(1) draw_evolve [OF assms(1) evolve_hinv [OF g1(1)]]] assms(3) by (simp add: f1)
  have f2: "calls ?s2 = calls s1" "pend ?s2 = pend s1" by (simp_all add: calls_def pend_def fun_eq_iff)
  show thesis
  proof (cases res)
    case None
    let ?r = "new_random (he_fill H (h_draws s)) (he_nonce H (h_draws s)) (he_iv H (h_draws s)) (h_node_id s1) :: string + 'enr packet"
    have t: "nonce_tail (packet_nonce p) \<in> tails H (h_draws s)" if "?r = Inr p" for p
      using that by (auto simp: new_random_def new_message_def packet_nonce_def tails_def split: option.splits)
    show thesis
    proof (cases ?r)
      case (Inl e)
      show thesis
        by (rule that [OF _ e2, of "Inl (REntropyFailure e)"])
          (use g None Inl f1 f2 in \<open>simp_all add: request_packet_def draw_def\<close>)
    next
      case (Inr p)
      show thesis
        by (rule that [OF _ e2, of "Inr (p, True)"])
          (use g None Inr f1 f2 t in \<open>auto simp: request_packet_def draw_def\<close>)
    qed
  next
    case (Some v)
    have v: "sess_counter v \<le> h_draws s1" "at_back H a v (he_clock H (h_reads s)) (h_sessions ?s2)" using g1(3) [OF Some] f1 by simp_all
    let ?m = "request_encode (he_rlp H) \<lparr>req_id = request_id_of rid, req_body = req\<rparr>"
    obtain r v' where m: "session_message H v ?m s1 = Some (r, v', ?s2)" "sess_counter v' \<le> h_draws ?s2"
      "\<And>p. r = Inr p \<Longrightarrow> nonce_tail (packet_nonce p) \<in> tails H (h_draws s1)"
      using assms(3) f1(1) by (auto intro: session_message_spec [OF assms(1) _ v(1), of ?m])
    note p = session_put_spec [OF assms(1) evolve_hinv [OF e2] v(2) m(2)]
    have f3: "h_draws (session_put H a v' ?s2) = h_draws ?s2" "calls (session_put H a v' ?s2) = calls ?s2" "pend (session_put H a v' ?s2) = pend ?s2"
      by (simp_all add: session_put_def calls_def pend_def fun_eq_iff)
    show thesis
      by (rule that [OF _ evolve_quiet [OF e2 p(1)], of "case r of Inl e \<Rightarrow> Inl (REncryptionFailed (he_debug H e)) | Inr p \<Rightarrow> Inr (p, False)"])
        (use g Some m f1 f2 f3 in \<open>auto simp: request_packet_def split: sum.splits\<close>)
  qed
qed

definition load where
  "load s b = length (calls s b) + length (pend s b)"

lemma push_pending:
  fixes a :: node_address
  assumes "hinv H N ttl k s" "nc_node_address (he_enr_ops H) (pr_contact p) = a"
  defines "s1 \<equiv> s\<lparr>h_pending_requests := (h_pending_requests s)(a \<mapsto>
     (case h_pending_requests s a of Some ps \<Rightarrow> ps | None \<Rightarrow> []) @ [p])\<rparr>"
  shows "evolve H N ttl k (ext_id (pr_request_id p)) (only a {request_id_of (pr_request_id p)}) s s1"
    "calls s1 = calls s" "pend s1 = (pend s)(a := pend s a @ [p])" "h_draws s1 = h_draws s"
proof -
  show p: "calls s1 = calls s" "pend s1 = (pend s)(a := pend s a @ [p])" and d: "h_draws s1 = h_draws s"
    by (simp_all add: s1_def calls_def pend_def fun_eq_iff)
  have o: "h_out s1 = h_out s" by (simp add: s1_def)
  have "\<forall>b x. x \<in> set (pend s1 b) \<longrightarrow> nc_node_address (he_enr_ops H) (pr_contact x) = b"
    using assms(1,2) unfolding hinv_def p by (simp add: fun_upd_def)
  then have "hinv H N ttl k s1" using assms(1) unfolding hinv_def p(1) d o by (simp add: s1_def)
  moreover have "set (pend s b) \<subseteq> set (pend s1 b)" "p \<in> set (pend s1 a)" for b by (auto simp: p)
  then have "ext_id (pr_request_id p) \<union> acc k s \<subseteq> acc k s1" unfolding acc_def p(1) o by blast
  moreover have "known s1 b \<subseteq> known s b \<union> only a {request_id_of (pr_request_id p)} b" for b
    by (auto simp: known_def p only_def)
  ultimately show "evolve H N ttl k (ext_id (pr_request_id p)) (only a {request_id_of (pr_request_id p)}) s s1"
    by (simp add: evolve_def d o)
qed

lemma awaiting_spec:
  assumes "env_ok H N ttl" "hinv H N ttl k s"
  obtains b s1 where "is_awaiting_session_to_be_established H a s = (b, s1)" "evolve H N ttl k {} (\<lambda>_. {}) s s1"
    "calls s1 = calls s" "pend s1 = pend s" "h_draws s1 = h_draws s"
proof -
  obtain res s1 where g: "session_get H a s = (res, s1)" by fastforce
  note g1 = session_get_spec [OF assms g]
  have "h_draws s1 = h_draws s" "calls s1 = calls s" "pend s1 = pend s"
    by (subst g1(2); simp add: calls_def pend_def fun_eq_iff)+
  moreover obtain b where "is_awaiting_session_to_be_established H a s = (b, s1)"
    by (simp add: is_awaiting_session_to_be_established_def g)
  ultimately show thesis using that g1(1) by blast
qed

lemma send_request_spec:
  assumes "env_ok H N ttl" "hinv H N ttl k s" "h_draws s < N" "nc_node_address (he_enr_ops H) contact = a"
  obtains r s' where "send_request H contact rid req s = Some (r, s')" "h_draws s' \<le> Suc (h_draws s)"
    "evolve H N ttl k (case r of Inl _ \<Rightarrow> {} | Inr _ \<Rightarrow> ext_id rid) (only a {request_id_of rid}) s s'"
    "\<And>b. load s' b \<le> load s b + (if b = a then 1 else 0)"
proof (cases "na_socket_addr a \<in> set (h_listen_sockets s)")
  case True
  then show thesis using evolve_refl [OF assms(2)]
    by (intro that [of "Inl RSelfRequest" s]) (simp_all add: send_request_def assms(4) Let_def evolve_def)
next
  case False
  obtain queued s1 where q: "(if dm_get (he_challenge_map H) a (h_active_challenges s) \<noteq> None then (True, s)
      else is_awaiting_session_to_be_established H a s) = (queued, s1)"
    "evolve H N ttl k {} (\<lambda>_. {}) s s1" "calls s1 = calls s" "pend s1 = pend s" "h_draws s1 = h_draws s"
  proof (cases "dm_get (he_challenge_map H) a (h_active_challenges s) \<noteq> None")
    case True
    then show thesis using that [of True s] evolve_refl [OF assms(2)] by (simp del: not_None_eq)
  next
    case False
    then show thesis using awaiting_spec [OF assms(1,2), of a] that by (metis (full_types))
  qed
  show thesis
  proof (cases queued)
    case True
    let ?p = "\<lparr>pr_contact = contact, pr_request_id = rid, pr_request = req\<rparr>"
    have "nc_node_address (he_enr_ops H) (pr_contact ?p) = a" using assms(4) by simp
    note pp = push_pending [OF evolve_hinv [OF q(2)] this]
    have r: "send_request H contact rid req s = Some (Inr (), s1\<lparr>h_pending_requests := (h_pending_requests s1)(a \<mapsto>
        (case h_pending_requests s1 a of Some ps \<Rightarrow> ps | None \<Rightarrow> []) @ [?p])\<rparr>)"
      using False True q(1) by (simp add: send_request_def assms(4) Let_def del: not_None_eq)
    show thesis
      by (rule that [OF r]) (use pp(2-4) q(3-5) evolve_quiet [OF q(2) pp(1)] in \<open>simp_all add: load_def\<close>)
  next
    case queued: False
    obtain r s2 where r: "request_packet H a rid req s1 = Some (r, s2)" "evolve H N ttl k {} (\<lambda>_. {}) s1 s2"
      "h_draws s2 = Suc (h_draws s1)" "calls s2 = calls s1" "pend s2 = pend s1"
      "\<And>p b. r = Inr (p, b) \<Longrightarrow> nonce_tail (packet_nonce p) \<in> tails H (h_draws s1)"
      using request_packet_spec [OF assms(1) evolve_hinv [OF q(2)], of a rid req] assms(3) q(5) by metis
    show thesis
    proof (cases r)
      case (Inl e)
      have "send_request H contact rid req s = Some (Inl e, s2)"
        using False queued q(1) r(1) Inl by (simp add: send_request_def assms(4) Let_def del: not_None_eq)
      then show thesis
        by (rule that) (use r(3-5) q(3-5) evolve_weaken [OF evolve_quiet [OF q(2) r(2)]] in \<open>simp_all add: load_def\<close>)
    next
      case (Inr pi)
      obtain p i where pi: "pi = (p, i)" by fastforce
      let ?c = "rc_new contact p rid req i"
      define s3 where "s3 = send a p (add_expected_response (na_socket_addr a) s2)"
      have n: "rc_nonce ?c = packet_nonce p" "rc_request_id ?c = rid" "rc_contact ?c = contact" "rc_remaining_responses ?c = None"
        by (simp_all add: rc_new_def rc_nonce_def)
      have f: "evolve H N ttl k {} (\<lambda>_. {}) s2 s3" by (rule evolve_frame [OF evolve_hinv [OF r(2)]]) (simp_all add: s3_def)
      have "core s3 = core s2" by (simp add: s3_def)
      note c = core_eqD [OF this]
      have t: "nonce_tail (packet_nonce p) \<in> tails H (h_draws s)" using r(6) q(5) Inr pi by simp
      have "h_draws s3 = Suc (h_draws s)" using c r(3) q(5) by simp
      then have ok: "call_ok H (h_draws s3) a ?c" using t assms(4) by (auto simp: call_ok_def n)
      have "rc_nonce ?c \<notin> rc_nonce ` set (calls s3 b)" for b
        using fresh_nonce [OF assms(1,2) t order_refl assms(3)] by (simp add: n c r(4) q(3))
      note ins = active_insert_spec [OF assms(1) evolve_hinv [OF f] ok this]
      have "send_request H contact rid req s = Some (Inr (), active_insert H a ?c s3)"
        using False queued q(1) r(1) Inr pi by (simp add: send_request_def assms(4) Let_def s3_def del: not_None_eq)
      from that [OF this] ins(2-4) evolve_quiet [OF evolve_quiet [OF evolve_quiet [OF q(2) r(2)] f] ins(1)]
      show thesis using c r(3-5) q(3-5) by (simp add: n load_def)
    qed
  qed
qed

section \<open>Pending requests and replays\<close>

lemma send_pending_loop_spec:
  assumes "env_ok H N ttl" "hinv H N ttl k s" "h_draws s + length ps \<le> N"
    "\<And>p. p \<in> set ps \<Longrightarrow> nc_node_address (he_enr_ops H) (pr_contact p) = a"
  obtains s' where "send_pending_loop H ps s = Some s'" "h_draws s' \<le> h_draws s + length ps"
    "evolve H N ttl k (\<Union>p\<in>set ps. ext_id (pr_request_id p)) (only a ((\<lambda>p. request_id_of (pr_request_id p)) ` set ps)) s s'"
  using assms(2-4)
proof (induction ps arbitrary: s thesis)
  case Nil
  show ?case by (rule Nil(1) [of s]) (use evolve_refl [OF Nil(2)] in \<open>simp_all add: only_def evolve_def\<close>)
next
  case (Cons p ps)
  have d: "h_draws s < N" and pa: "nc_node_address (he_enr_ops H) (pr_contact p) = a" using Cons.prems(3,4) by simp_all
  obtain r s1 where r: "send_request H (pr_contact p) (pr_request_id p) (pr_request p) s = Some (r, s1)" "h_draws s1 \<le> Suc (h_draws s)"
    "evolve H N ttl k (case r of Inl _ \<Rightarrow> {} | Inr _ \<Rightarrow> ext_id (pr_request_id p)) (only a {request_id_of (pr_request_id p)}) s s1"
    by (rule send_request_spec [OF assms(1) Cons.prems(2) d pa, of "pr_request_id p" "pr_request p"])
  define s2 where "s2 = (case r of Inl e \<Rightarrow> report_failure (pr_request_id p) e s1 | Inr _ \<Rightarrow> s1)"
  have e: "evolve H N ttl k (ext_id (pr_request_id p)) (only a {request_id_of (pr_request_id p)}) s s2"
  proof (cases r)
    case (Inl e)
    with evolve_trans [OF r(3) report_failure_evolve [OF evolve_hinv [OF r(3)], of "pr_request_id p" e]]
    show ?thesis by (simp add: s2_def)
  next
    case (Inr u)
    with r(3) show ?thesis by (simp add: s2_def)
  qed
  have "core s2 = core s1" by (simp add: s2_def split: sum.split)
  note c = core_eqD [OF this]
  have "h_draws s2 + length ps \<le> N" using c r(2) Cons.prems(3) by simp
  then obtain s' where s': "send_pending_loop H ps s2 = Some s'" "h_draws s' \<le> h_draws s2 + length ps"
    "evolve H N ttl k (\<Union>p\<in>set ps. ext_id (pr_request_id p)) (only a ((\<lambda>p. request_id_of (pr_request_id p)) ` set ps)) s2 s'"
    using Cons.IH [OF _ evolve_hinv [OF e]] Cons.prems(4) by (metis list.set_intros(2))
  show ?case
  proof (rule Cons.prems(1))
    show "send_pending_loop H (p # ps) s = Some s'" using r(1) s'(1) by (simp add: s2_def)
    show "h_draws s' \<le> h_draws s + length (p # ps)" using s'(2) c r(2) by simp
    have "(\<lambda>b. only a {request_id_of (pr_request_id p)} b \<union> only a ((\<lambda>p. request_id_of (pr_request_id p)) ` set ps) b) =
      only a ((\<lambda>p. request_id_of (pr_request_id p)) ` set (p # ps))" by (auto simp: only_def fun_eq_iff)
    with evolve_trans [OF e s'(3)]
    show "evolve H N ttl k (\<Union>p\<in>set (p # ps). ext_id (pr_request_id p)) (only a ((\<lambda>p. request_id_of (pr_request_id p)) ` set (p # ps))) s s'"
      by simp
  qed
qed

lemma send_pending_requests_spec:
  assumes "env_ok H N ttl" "hinv H N ttl k s" "h_draws s + length (pend s a) \<le> N"
  obtains s' where "send_pending_requests H a s = Some s'" "h_draws s' \<le> h_draws s + length (pend s a)"
    "evolve H N ttl k {} (\<lambda>_. {}) s s'"
proof -
  define s1 where "s1 = s\<lparr>h_pending_requests := (h_pending_requests s)(a := None)\<rparr>"
  note d = drop_pending [OF assms(2), of a, folded s1_def]
  have "nc_node_address (he_enr_ops H) (pr_contact p) = a" if "p \<in> set (pend s a)" for p
    using assms(2) that by (simp add: hinv_def)
  then obtain s' where s': "send_pending_loop H (pend s a) s1 = Some s'" "h_draws s' \<le> h_draws s1 + length (pend s a)"
    "evolve H N ttl k (\<Union>p\<in>set (pend s a). ext_id (pr_request_id p)) (only a ((\<lambda>p. request_id_of (pr_request_id p)) ` set (pend s a))) s1 s'"
    using send_pending_loop_spec [OF assms(1) d(1), of "pend s a" a] assms(3) d(5) by metis
  have "evolve H N ttl k {} (\<lambda>_. {}) s s'"
    by (rule evolve_from [OF s'(3) d(2,3) _ d(4,5)]) (auto simp: only_def known_def)
  with s' show thesis by (intro that [of s']) (simp_all add: send_pending_requests_def s1_def pend_def)
qed

definition replayed where
  "replayed H d0 d cs ps v \<longleftrightarrow>
     d0 \<le> d \<and> d \<le> d0 + length cs \<and> sess_counter v \<le> d \<and> subseq (map fst ps) (map rc_nonce cs) \<and>
     (\<forall>p\<in>set ps. \<exists>j. d0 \<le> j \<and> j < d \<and> nonce_tail (packet_nonce (snd p)) \<in> tails H j) \<and>
     distinct (map (\<lambda>p. packet_nonce (snd p)) ps)"

lemma replayed_skip:
  assumes "replayed H d0 d cs ps v" "d0' \<le> d0" "d0 \<le> Suc d0'"
  shows "replayed H d0' d (c # cs) ps v"
proof -
  have "\<exists>j. d0' \<le> j \<and> j < d \<and> nonce_tail (packet_nonce (snd q)) \<in> tails H j" if q: "q \<in> set ps" for q
    using assms(1,2) q unfolding replayed_def by (meson order_trans)
  with assms show ?thesis by (auto simp: replayed_def)
qed

lemma replayed_Cons:
  assumes "env_ok H N ttl" "replayed H (Suc d0) d cs ps v" "d \<le> N" "nonce_tail (packet_nonce p) \<in> tails H d0"
  shows "replayed H d0 d (c # cs) ((rc_nonce c, p) # ps) v"
proof -
  have "packet_nonce (snd q) \<noteq> packet_nonce p" if q: "q \<in> set ps" for q
  proof -
    obtain j where "Suc d0 \<le> j" "j < d" "nonce_tail (packet_nonce (snd q)) \<in> tails H j"
      using assms(2) q unfolding replayed_def by blast
    with tails_distinct [OF assms(1), of j d0 "nonce_tail (packet_nonce (snd q))"] assms(3,4) show ?thesis by auto
  qed
  then have "packet_nonce p \<notin> (\<lambda>p. packet_nonce (snd p)) ` set ps" by (metis imageE)
  moreover have "\<exists>j. d0 \<le> j \<and> j < d \<and> nonce_tail (packet_nonce (snd q)) \<in> tails H j" if q: "q \<in> set ps" for q
    using assms(2) q unfolding replayed_def by (meson Suc_leD)
  moreover have "\<exists>j. d0 \<le> j \<and> j < d \<and> nonce_tail (packet_nonce p) \<in> tails H j"
    using assms(2,4) by (intro exI [of _ d0]) (simp add: replayed_def)
  ultimately show ?thesis using assms(2,4) unfolding replayed_def by simp
qed

lemma replay_encrypt_spec:
  assumes "env_ok H N ttl" "h_draws s + length cs \<le> N" "sess_counter v \<le> h_draws s"
  shows "\<exists>ps v' d. replay_encrypt H n cs v s = Some (ps, v', s\<lparr>h_draws := d\<rparr>) \<and> replayed H (h_draws s) d cs ps v'"
  using assms(2,3)
proof (induction cs arbitrary: s v)
  case Nil
  then show ?case by (simp add: replayed_def) (metis handler.surjective handler.update_convs(17) order_refl)
next
  case (Cons c cs)
  show ?case
  proof (cases "n = Some (rc_nonce c)")
    case True
    from Cons.prems have "h_draws s + length cs \<le> N" by simp
    from Cons.IH [OF this Cons.prems(2)] obtain ps v' d where *: "replay_encrypt H n cs v s = Some (ps, v', s\<lparr>h_draws := d\<rparr>)"
      "replayed H (h_draws s) d cs ps v'" by blast
    have "replay_encrypt H n (c # cs) v s = Some (ps, v', s\<lparr>h_draws := d\<rparr>)" using * True by simp
    moreover have "replayed H (h_draws s) d (c # cs) ps v'" by (rule replayed_skip [OF *(2)]) simp_all
    ultimately show ?thesis by blast
  next
    case False
    let ?s = "s\<lparr>h_draws := Suc (h_draws s)\<rparr>"
    have "h_draws s < N" using Cons.prems(1) by simp
    then obtain r v1 where m: "session_message H v (rc_encode (he_rlp H) c) s = Some (r, v1, ?s)" "sess_counter v1 \<le> h_draws ?s"
      "\<And>p. r = Inr p \<Longrightarrow> nonce_tail (packet_nonce p) \<in> tails H (h_draws s)"
      using session_message_spec [OF assms(1) _ Cons.prems(2), of "rc_encode (he_rlp H) c"] by auto
    have "h_draws ?s + length cs \<le> N" using Cons.prems(1) by simp
    from Cons.IH [OF this m(2)] obtain ps v' d where *: "replay_encrypt H n cs v1 ?s = Some (ps, v', s\<lparr>h_draws := d\<rparr>)"
      "replayed H (Suc (h_draws s)) d cs ps v'" by auto
    have d: "d \<le> N" using *(2) Cons.prems(1) by (simp add: replayed_def)
    show ?thesis
    proof (cases r)
      case (Inl e)
      have "replay_encrypt H n (c # cs) v s = Some (ps, v', s\<lparr>h_draws := d\<rparr>)" using *(1) m(1) False Inl by simp
      moreover have "replayed H (h_draws s) d (c # cs) ps v'" by (rule replayed_skip [OF *(2)]) simp_all
      ultimately show ?thesis by blast
    next
      case (Inr p)
      have "replay_encrypt H n (c # cs) v s = Some ((rc_nonce c, p) # ps, v', s\<lparr>h_draws := d\<rparr>)" using *(1) m(1) False Inr by simp
      with replayed_Cons [OF assms(1) *(2) d m(3) [OF Inr], of c] show ?thesis by blast
    qed
  qed
qed

lemma replay_update_spec:
  assumes "env_ok H N ttl" "hinv H N ttl k s" "old \<in> rc_nonce ` set (calls s a)"
    "\<And>b. packet_nonce p \<notin> rc_nonce ` set (calls s b)" "i < h_draws s" "nonce_tail (packet_nonce p) \<in> tails H i"
  obtains ar where "ar_update_packet (he_nonce_map H) now old p (h_active_requests s) = Some ar"
    "evolve H N ttl k {} (\<lambda>_. {}) s (s\<lparr>h_active_requests := ar\<rparr>)"
    "\<forall>b. rc_nonce ` set (calls (s\<lparr>h_active_requests := ar\<rparr>) b) \<subseteq> insert (packet_nonce p) (rc_nonce ` set (calls s b))"
    "rc_nonce ` set (calls s a) - {old} \<subseteq> rc_nonce ` set (calls (s\<lparr>h_active_requests := ar\<rparr>) a)"
proof -
  let ?D = "he_nonce_map H" and ?f = "\<lambda>c. if rc_nonce c = old then rc_update_packet p c else c"
  have ar: "ar_inv ?D (h_active_requests s)" using assms(2) by (simp add: hinv_def)
  have n: "dm_get ?D (packet_nonce p) (ar_nonces (h_active_requests s)) = None"
    using assms(4) ar_invD(1) [OF ar, of "packet_nonce p"]
    by (cases "dm_get ?D (packet_nonce p) (ar_nonces (h_active_requests s))") (auto simp: calls_def)
  have old: "old \<in> rc_nonce ` set (ar_calls (h_active_requests s) a)" using assms(3) by (simp add: calls_def)
  obtain ar' where u: "ar_update_packet ?D now old p (h_active_requests s) = Some ar'" "ar_inv ?D ar'"
    "ar_calls ar' = (ar_calls (h_active_requests s))(a := map ?f (ar_calls (h_active_requests s) a))"
    by (rule ar_update_packet_spec [OF env_okD(1) [OF assms(1)] ar old n])
  let ?s = "s\<lparr>h_active_requests := ar'\<rparr>"
  have c: "calls ?s = (calls s)(a := map ?f (calls s a))" using u(3) by (simp add: calls_def fun_eq_iff)
  have o: "pend ?s = pend s" "h_out ?s = h_out s" "h_draws ?s = h_draws s" by (simp_all add: pend_def fun_eq_iff)
  have f: "rc_request_id (?f x) = rc_request_id x" "rc_nonce (rc_update_packet p x) = packet_nonce p" for x
    by (simp_all add: rc_update_packet_def rc_nonce_def)
  have fc: "call_ok H (h_draws s) b (rc_update_packet p x)" if "call_ok H (h_draws s) b x" for b x
    using that assms(5,6) unfolding call_ok_def f(2) by (auto simp: rc_update_packet_def)
  have "\<forall>b x. x \<in> set (calls ?s b) \<longrightarrow> call_ok H (h_draws s) b x"
    using assms(2) fc by (auto simp: c hinv_def)
  then have "hinv H N ttl k ?s" using assms(2) u(2) unfolding hinv_def o by simp
  moreover have i: "rc_request_id ` set (calls ?s b) = rc_request_id ` set (calls s b)" for b
    by (cases "b = a") (simp_all only: c fun_upd_same fun_upd_other set_map image_image f(1) not_False_eq_True)
  have ids: "(\<exists>x. x \<in> set (calls t b) \<and> j \<in> ext_id (rc_request_id x)) \<longleftrightarrow> (\<exists>i\<in>rc_request_id ` set (calls t b). j \<in> ext_id i)" for j b t
    by blast
  have "acc k ?s = acc k s" unfolding acc_def o ids i ..
  moreover have kn: "(\<lambda>c. request_id_of (rc_request_id c)) ` set (calls t b) = request_id_of ` rc_request_id ` set (calls t b)" for t b
    by (simp add: image_image)
  have "known ?s b = known s b" for b unfolding known_def o kn i ..
  ultimately have "evolve H N ttl k {} (\<lambda>_. {}) s ?s" by (simp add: evolve_def)
  moreover have "rc_nonce ` set (calls ?s b) \<subseteq> insert (packet_nonce p) (rc_nonce ` set (calls s b))" for b
    by (auto simp: c f(2))
  moreover have "rc_nonce ` set (calls s a) - {old} \<subseteq> rc_nonce ` set (calls ?s a)"
  proof
    fix n assume "n \<in> rc_nonce ` set (calls s a) - {old}"
    then obtain x where "x \<in> set (calls s a)" "rc_nonce x = n" "?f x = x" by auto
    then show "n \<in> rc_nonce ` set (calls ?s a)" unfolding c fun_upd_same set_map
      by (intro image_eqI [where x = x]) (simp_all only:)
  qed
  ultimately show thesis using that [of ar'] u(1) by simp
qed

lemma replay_send_spec:
  assumes "env_ok H N ttl" "hinv H N ttl k s" "set (map fst ps) \<subseteq> rc_nonce ` set (calls s a)" "distinct (map fst ps)"
    "distinct (map (\<lambda>p. packet_nonce (snd p)) ps)"
    "\<And>p b. p \<in> set ps \<Longrightarrow> packet_nonce (snd p) \<notin> rc_nonce ` set (calls s b)"
    "\<And>p. p \<in> set ps \<Longrightarrow> \<exists>i<h_draws s. nonce_tail (packet_nonce (snd p)) \<in> tails H i"
  obtains s' where "replay_send H a ps s = Some s'" "evolve H N ttl k {} (\<lambda>_. {}) s s'"
  using assms(2-7)
proof (induction ps arbitrary: s thesis)
  case Nil
  show ?case by (rule Nil(1) [of s]) (simp_all add: evolve_refl [OF Nil(2)])
next
  case (Cons q ps)
  obtain old p where q: "q = (old, p)" by fastforce
  define s1 where "s1 = s\<lparr>h_reads := Suc (h_reads s)\<rparr>"
  have e1: "evolve H N ttl k {} (\<lambda>_. {}) s s1" unfolding s1_def by (rule tick_evolve [OF assms(1) Cons.prems(2)])
  have c1: "calls s1 = calls s" "h_draws s1 = h_draws s" by (simp_all add: s1_def calls_def fun_eq_iff)
  have old: "old \<in> rc_nonce ` set (calls s1 a)" using Cons.prems(3) by (simp add: q c1)
  have n: "packet_nonce p \<notin> rc_nonce ` set (calls s1 b)" for b using Cons.prems(6) [of q b] by (simp add: q c1)
  obtain i where i: "i < h_draws s1" "nonce_tail (packet_nonce p) \<in> tails H i" using Cons.prems(7) [of q] by (auto simp: q c1)
  obtain ar where ar: "ar_update_packet (he_nonce_map H) (he_clock H (h_reads s)) old p (h_active_requests s1) = Some ar"
    "evolve H N ttl k {} (\<lambda>_. {}) s1 (s1\<lparr>h_active_requests := ar\<rparr>)"
    "\<forall>b. rc_nonce ` set (calls (s1\<lparr>h_active_requests := ar\<rparr>) b) \<subseteq> insert (packet_nonce p) (rc_nonce ` set (calls s1 b))"
    "rc_nonce ` set (calls s1 a) - {old} \<subseteq> rc_nonce ` set (calls (s1\<lparr>h_active_requests := ar\<rparr>) a)"
    by (rule replay_update_spec [OF assms(1) evolve_hinv [OF e1] old n i, where now = "he_clock H (h_reads s)"])
  define s2 where "s2 = send a p (s1\<lparr>h_active_requests := ar\<rparr>)"
  have e2: "evolve H N ttl k {} (\<lambda>_. {}) s s2"
    unfolding s2_def by (rule evolve_quiet [OF evolve_quiet [OF e1 ar(2)] evolve_frame [OF evolve_hinv [OF ar(2)]]]) simp_all
  have "core s2 = core (s1\<lparr>h_active_requests := ar\<rparr>)" by (simp add: s2_def)
  note c2 = core_eqD [OF this]
  have d2: "h_draws s2 = h_draws s" using c2 c1 by simp
  obtain s' where s': "replay_send H a ps s2 = Some s'" "evolve H N ttl k {} (\<lambda>_. {}) s2 s'"
  proof (rule Cons.IH [OF _ evolve_hinv [OF e2]])
    have "set (map fst ps) \<subseteq> rc_nonce ` set (calls s1 a) - {old}" using Cons.prems(3,4) unfolding q c1 list.map fst_conv list.set distinct.simps by blast
    with ar(4) show "set (map fst ps) \<subseteq> rc_nonce ` set (calls s2 a)" unfolding c2 by (rule order_trans [rotated])
    show "distinct (map fst ps)" "distinct (map (\<lambda>p. packet_nonce (snd p)) ps)" using Cons.prems(4,5) by simp_all
    fix p' assume p': "p' \<in> set ps"
    then show "\<exists>i<h_draws s2. nonce_tail (packet_nonce (snd p')) \<in> tails H i" using Cons.prems(7) by (simp add: d2)
    fix b
    have "packet_nonce (snd p') \<noteq> packet_nonce p" using Cons.prems(5) p' by (simp add: q) (metis image_eqI)
    moreover have "packet_nonce (snd p') \<notin> rc_nonce ` set (calls s1 b)" using Cons.prems(6) [of p' b] p' by (simp add: c1)
    ultimately show "packet_nonce (snd p') \<notin> rc_nonce ` set (calls s2 b)" using ar(3) unfolding c2 by blast
  qed
  have "replay_send H a (q # ps) s = Some s'" using ar(1) s'(1) by (simp add: q tick_def s1_def s2_def)
  from Cons.prems(1) [OF this evolve_quiet [OF e2 s'(2)]] show ?case .
qed

lemma replay_active_requests_spec:
  assumes "env_ok H N ttl" "hinv H N ttl k s" "at_back H a v (he_clock H r) (h_sessions s)" "h_reads s = Suc r"
    "h_draws s + length (calls s a) \<le> N"
  obtains s' where "replay_active_requests H a n s = Some s'" "evolve H N ttl k {} (\<lambda>_. {}) s s'"
proof -
  obtain res s1 where g: "session_get H a s = (res, s1)" by fastforce
  note g1 = session_get_spec [OF assms(1,2) g]
  have "cache_ok H ttl (Suc r) (h_draws s) (h_sessions s)" using assms(2,4) by (simp add: hinv_def)
  from cache_get_back [OF assms(1) this assms(3)] g have res: "res = Some v"
    by (simp add: session_get_def tick_def Let_def assms(4) split: prod.splits)
  have f1: "h_draws s1 = h_draws s" "calls s1 = calls s" "pend s1 = pend s"
    by (subst g1(2); simp add: calls_def pend_def fun_eq_iff)+
  have v: "sess_counter v \<le> h_draws s1" "at_back H a v (he_clock H (h_reads s)) (h_sessions s1)" using g1(3) [OF res] f1 by simp_all
  have "h_draws s1 + length (calls s a) \<le> N" using assms(5) f1 by simp
  from replay_encrypt_spec [OF assms(1) this v(1), of n] obtain ps v' d where
    e: "replay_encrypt H n (calls s a) v s1 = Some (ps, v', s1\<lparr>h_draws := d\<rparr>)" "replayed H (h_draws s1) d (calls s a) ps v'" by blast
  have d: "h_draws s1 \<le> d" "d \<le> N" "sess_counter v' \<le> d" "subseq (map fst ps) (map rc_nonce (calls s a))"
    "distinct (map (\<lambda>p. packet_nonce (snd p)) ps)" using e(2) assms(5) f1 by (auto simp: replayed_def)
  let ?s2 = "s1\<lparr>h_draws := d\<rparr>"
  have ok1: "cache_ok H ttl (h_reads s1) d (h_sessions s1)"
    using cache_ok_mono(1) [OF assms(1) _ d(1)] evolve_hinv [OF g1(1)] by (simp add: hinv_def)
  have e2: "evolve H N ttl k {} (\<lambda>_. {}) s1 ?s2" using evolve_cache [OF assms(1) evolve_hinv [OF g1(1)] ok1 d(1,2)] by simp
  have "at_back H a v (he_clock H (h_reads s)) (h_sessions ?s2)" "sess_counter v' \<le> h_draws ?s2" using v d by simp_all
  note p = session_put_spec [OF assms(1) evolve_hinv [OF e2] this]
  define s3 where "s3 = session_put H a v' ?s2"
  have e3: "evolve H N ttl k {} (\<lambda>_. {}) s s3" unfolding s3_def by (rule evolve_quiet [OF evolve_quiet [OF g1(1) e2] p(1)])
  have f3: "calls s3 = calls s" "h_draws s3 = d" using f1 by (simp_all add: s3_def session_put_def calls_def fun_eq_iff)
  have nn: "distinct (map rc_nonce (calls s a))"
    using ar_invD(2) [of "he_nonce_map H" "h_active_requests s" a] assms(2) by (simp add: hinv_def calls_def)
  have t: "\<exists>j. h_draws s \<le> j \<and> j < d \<and> nonce_tail (packet_nonce (snd q)) \<in> tails H j" if "q \<in> set ps" for q
    using e(2) that f1(1) by (simp add: replayed_def)
  obtain s' where s': "replay_send H a ps s3 = Some s'" "evolve H N ttl k {} (\<lambda>_. {}) s3 s'"
  proof (rule replay_send_spec [OF assms(1) evolve_hinv [OF e3] _ _ d(5)])
    show "set (map fst ps) \<subseteq> rc_nonce ` set (calls s3 a)" 
    proof
      fix x assume "x \<in> set (map fst ps)"
      then obtain y where "y \<in> set (map rc_nonce (calls s a))" "x = y" by (rule list_emb_set [OF d(4)])
      then show "x \<in> rc_nonce ` set (calls s3 a)" by (simp add: f3)
    qed
    show "distinct (map fst ps)" using d(4) nn by (auto simp: subseq_conv_nths)
    show "packet_nonce (snd q) \<notin> rc_nonce ` set (calls s3 b)" if q: "q \<in> set ps" for q b
    proof -
      obtain j where "h_draws s \<le> j" "j < N" "nonce_tail (packet_nonce (snd q)) \<in> tails H j" using t [OF q] d(2) by auto
      from fresh_nonce [OF assms(1,2) this(3,1,2)] show ?thesis by (simp add: f3)
    qed
    show "\<exists>i<h_draws s3. nonce_tail (packet_nonce (snd q)) \<in> tails H i" if "q \<in> set ps" for q using t [OF that] f3 by auto
  qed
  have c: "(case ar_get a (h_active_requests s1) of Some cs \<Rightarrow> cs | None \<Rightarrow> []) = calls s a"
    using f1(2) by (simp add: calls_def ar_calls_def ar_get_def fun_eq_iff)
  have "replay_active_requests H a n s = Some s'" using e(1) s'(1) by (simp add: replay_active_requests_def g res c s3_def)
  from that [OF this evolve_quiet [OF e3 s'(2)]] show thesis .
qed

lemma new_session_spec:
  assumes "env_ok H N ttl" "hinv H N ttl k s" "h_draws s + load s a \<le> N" "sess_counter v \<le> h_draws s"
  obtains s' where "new_session H a v n s = Some s'" "evolve H N ttl k {} (\<lambda>_. {}) s s'"
proof -
  obtain res s1 where g: "session_get H a s = (res, s1)" by fastforce
  note g1 = session_get_spec [OF assms(1,2) g]
  have f1: "h_draws s1 = h_draws s" "calls s1 = calls s" "pend s1 = pend s" "h_reads s1 = Suc (h_reads s)"
    by (subst g1(2); simp add: calls_def pend_def fun_eq_iff)+
  show thesis
  proof (cases res)
    case (Some w)
    let ?v = "session_update v w"
    have w: "at_back H a w (he_clock H (h_reads s)) (h_sessions s1)" "sess_counter ?v \<le> h_draws s1"
      using g1(3) [OF Some] assms(4) f1 by (simp_all)
    note p = session_put_spec [OF assms(1) evolve_hinv [OF g1(1)] w]
    have f2: "h_reads (session_put H a ?v s1) = Suc (h_reads s)" "h_draws (session_put H a ?v s1) = h_draws s"
      "calls (session_put H a ?v s1) = calls s"
      using f1 by (simp_all add: session_put_def calls_def fun_eq_iff)
    have "h_draws (session_put H a ?v s1) + length (calls (session_put H a ?v s1) a) \<le> N" using assms(3) f2 by (simp add: load_def)
    then obtain s' where s': "replay_active_requests H a n (session_put H a ?v s1) = Some s'"
      "evolve H N ttl k {} (\<lambda>_. {}) (session_put H a ?v s1) s'"
      by (rule replay_active_requests_spec [OF assms(1) evolve_hinv [OF p(1)] p(2) f2(1)])
    have "new_session H a v n s = Some s'" using s'(1) by (simp add: new_session_def g Some)
    from that [OF this evolve_quiet [OF evolve_quiet [OF g1(1) p(1)] s'(2)]] show thesis .
  next
    case None
    define s2 where "s2 = s1\<lparr>h_reads := Suc (h_reads s1), h_sessions := lru_insert (he_sessions H) (he_clock H (h_reads s1)) a v (h_sessions s1)\<rparr>"
    have "sess_counter v \<le> h_draws s1" using assms(4) f1 by simp
    from session_insert_evolve [OF assms(1) evolve_hinv [OF g1(1)] this]
    have e2: "evolve H N ttl k {} (\<lambda>_. {}) s1 s2" by (simp only: s2_def)
    note e3 = sessions_len_evolve [OF assms(1) evolve_hinv [OF e2]]
    have f3: "h_draws (sessions_len H s2) = h_draws s" "pend (sessions_len H s2) = pend s"
      using f1 by (simp_all add: sessions_len_def tick_def s2_def pend_def fun_eq_iff)
    have "h_draws (sessions_len H s2) + length (pend (sessions_len H s2) a) \<le> N" using assms(3) f3 by (simp add: load_def)
    then obtain s' where s': "send_pending_requests H a (sessions_len H s2) = Some s'"
      "evolve H N ttl k {} (\<lambda>_. {}) (sessions_len H s2) s'"
      by (rule send_pending_requests_spec [OF assms(1) evolve_hinv [OF e3]])
    have "new_session H a v n s = Some s'" using s'(1) by (simp add: new_session_def g None tick_def s2_def)
    from that [OF this evolve_quiet [OF evolve_quiet [OF evolve_quiet [OF g1(1) e2] e3] s'(2)]] show thesis .
  qed
qed

end
