(* ===== verification/Disc_Handler_Keys.thy ===== *)
theory Disc_Handler_Keys
  imports Disc_Handler_Inv
begin

text \<open>
  The keys of the sessions of the handler: sending and replaying requests changes the counter of a session
  and nothing else of it, so that after \<open>new_session\<close> the session with an address has the new keys, the keys
  it had before as its old ones, and does not wait for a record.
\<close>

section \<open>What holds of every session\<close>

definition static :: "session \<Rightarrow> session" where
  "static v = v\<lparr>sess_counter := 0\<rparr>"

lemma static_fields [simp]:
  "sess_keys (static v) = sess_keys v" "sess_old_keys (static v) = sess_old_keys v"
  "sess_awaiting_enr (static v) = sess_awaiting_enr v"
  by (simp_all add: static_def)

definition entries_of where
  "entries_of H s = lru_entries (he_sessions H) (h_sessions s)"

definition every_session where
  "every_session H P s \<longleftrightarrow> (\<forall>a v t. (a, v, t) \<in> set (entries_of H s) \<longrightarrow> P a (static v))"

lemma every_session_cong: "h_sessions s' = h_sessions s \<Longrightarrow> every_session H P s' = every_session H P s"
  by (simp add: every_session_def entries_of_def)

lemma every_session_subset:
  "set (entries_of H s') \<subseteq> set (entries_of H s) \<Longrightarrow> every_session H P s \<Longrightarrow> every_session H P s'"
  by (auto simp: every_session_def)

lemma remove_expired_subset:
  "lhm_laws L \<Longrightarrow> set (lru_entries L (remove_expired_values L now c)) \<subseteq> set (lru_entries L c)"
  by (auto simp: remove_expired_values_def lru_entries_def fold_remove)

lemma to_back_entries:
  assumes "lhm_laws L" "map_of (lhm_iter L m) k = Some e"
  shows "set (lhm_iter L (lhm_to_back L k f m)) = {x \<in> set (lhm_iter L m). fst x \<noteq> k} \<union> {(k, f e)}"
    "map_of (lhm_iter L (lhm_to_back L k f m)) k = Some (f e)"
  by (auto simp: lhm_lawsD(9) [OF assms] without_def map_add_def split: option.split)
    (auto simp: map_of_eq_None_iff dest!: map_of_SomeD)

lemma session_get_every:
  assumes "lhm_laws (he_sessions H)" "session_get H a s = (r, s1)" "every_session H P s"
  shows "every_session H P s1" "r = Some v \<Longrightarrow> P a (static v)"
    "r = Some v \<Longrightarrow> \<exists>t. map_of (entries_of H s1) a = Some (v, t)"
proof -
  let ?L = "he_sessions H"
  define c where "c = remove_expired_values ?L (he_clock H (h_reads s)) (h_sessions s)"
  have sub: "set (lru_entries ?L c) \<subseteq> set (entries_of H s)" unfolding c_def entries_of_def by (rule remove_expired_subset [OF assms(1)])
  have "every_session H P s1 \<and> (\<forall>v. r = Some v \<longrightarrow> P a (static v) \<and> (\<exists>t. map_of (entries_of H s1) a = Some (v, t)))"
  proof (cases "map_of (lru_entries ?L c) a")
    case None
    then have "r = None" "entries_of H s1 = lru_entries ?L c"
      using assms(2) by (auto simp: session_get_def tick_def lru_get_mut_def Let_def c_def [symmetric] lhm_lawsD(7) [OF assms(1)] lru_entries_def entries_of_def)
    with every_session_subset [OF _ assms(3), of s1] sub show ?thesis by simp
  next
    case (Some e)
    obtain w t where e: "e = (w, t)" by fastforce
    note m = Some [unfolded e lru_entries_def]
    have r: "r = Some w" "h_sessions s1 = c\<lparr>lru_map := lhm_to_back ?L a (\<lambda>(v, _). (v, he_clock H (h_reads s))) (lru_map c)\<rparr>"
      using assms(2) m by (auto simp: session_get_def tick_def lru_get_mut_def Let_def c_def [symmetric] lhm_lawsD(7) [OF assms(1)])
    note b = to_back_entries [OF assms(1) m, of "\<lambda>(v, _). (v, he_clock H (h_reads s))", simplified]
    have "(a, w, t) \<in> set (entries_of H s)" using map_of_SomeD [OF m] sub by (auto simp: lru_entries_def)
    then have w: "P a (static w)" using assms(3) by (auto simp: every_session_def)
    have "set (entries_of H s1) = {x \<in> set (lru_entries ?L c). fst x \<noteq> a} \<union> {(a, w, he_clock H (h_reads s))}"
      using b(1) by (simp add: entries_of_def r(2) lru_entries_def)
    with w sub assms(3) have "every_session H P s1" unfolding every_session_def by blast
    with w b(2) show ?thesis by (simp add: r entries_of_def lru_entries_def)
  qed
  then show "every_session H P s1" "r = Some v \<Longrightarrow> P a (static v)" "r = Some v \<Longrightarrow> \<exists>t. map_of (entries_of H s1) a = Some (v, t)" by blast+
qed

lemma session_put_entries:
  assumes "lhm_laws (he_sessions H)" "map_of (entries_of H s) a = Some (w, t)"
  shows "set (entries_of H (session_put H a v s)) = {x \<in> set (entries_of H s). fst x \<noteq> a} \<union> {(a, v, t)}"
  using to_back_entries(1) [OF assms(1), of "lru_map (h_sessions s)" a "(w, t)" "\<lambda>(_, t). (v, t)"] assms(2)
  by (simp add: entries_of_def session_put_def lru_entries_def)

lemma session_put_every:
  assumes "lhm_laws (he_sessions H)" "map_of (entries_of H s) a = Some e" "every_session H P s" "P a (static v)"
  shows "every_session H P (session_put H a v s)"
proof -
  obtain w t where "e = (w, t)" by fastforce
  with session_put_entries [OF assms(1), of s a w t v] assms(2-4) show ?thesis by (auto simp: every_session_def)
qed

lemma session_put_only:
  assumes "lhm_laws (he_sessions H)" "map_of (entries_of H s) a = Some e" "Q (static v)"
  shows "every_session H (\<lambda>b w. b = a \<longrightarrow> Q w) (session_put H a v s)"
proof -
  obtain w t where "e = (w, t)" by fastforce
  with session_put_entries [OF assms(1), of s a w t v] assms(2,3) show ?thesis by (auto simp: every_session_def)
qed

section \<open>Sending keeps the keys\<close>

lemma session_message_static:
  assumes "session_message H v m s = Some (r, v', s')"
  shows "static v' = static v" "h_sessions s' = h_sessions s"
  using assms
  by (auto simp: session_message_def draw_def Let_def session_encrypt_def static_def bind_eq_Some_conv split: if_splits sum.splits)

lemma sessions_len_every: "lhm_laws (he_sessions H) \<Longrightarrow> every_session H P s \<Longrightarrow> every_session H P (sessions_len H s)"
  by (erule every_session_subset [rotated])
    (simp add: sessions_len_def tick_def lru_len_def Let_def entries_of_def remove_expired_subset)

lemma report_failure_sessions [simp]: "h_sessions (report_failure i e s) = h_sessions s"
  by (cases i) (simp_all add: service_send_def)

lemma active_insert_sessions [simp]: "h_sessions (active_insert H a c s) = h_sessions s"
  by (simp add: active_insert_def tick_def)

lemma request_packet_every:
  assumes "lhm_laws (he_sessions H)" "every_session H P s" "request_packet H a i q s = Some (r, s')"
  shows "every_session H P s'"
proof -
  obtain res s1 where g: "session_get H a s = (res, s1)" by fastforce
  note g1 = session_get_every [OF assms(1) g assms(2)]
  show ?thesis
  proof (cases res)
    case None
    with assms(3) have "h_sessions s' = h_sessions s1"
      by (auto simp: request_packet_def g draw_def Let_def split: sum.splits)
    with g1(1) show ?thesis using every_session_cong by blast
  next
    case (Some v)
    from assms(3) Some obtain r' v' s2 where m: "session_message H v (request_encode (he_rlp H) \<lparr>req_id = request_id_of i, req_body = q\<rparr>) s1 = Some (r', v', s2)"
      "(case r' of Inl e \<Rightarrow> Some (Inl (REncryptionFailed (he_debug H e)), session_put H a v' s2)
        | Inr packet \<Rightarrow> Some (Inr (packet, False), session_put H a v' s2)) = Some (r, s')"
      by (auto simp: request_packet_def g Let_def bind_eq_Some_conv)
    then have put: "s' = session_put H a v' s2" by (cases r') simp_all
    note st = session_message_static [OF m(1)]
    from g1(3) [OF Some] obtain t where "map_of (entries_of H s2) a = Some (v, t)" by (auto simp: entries_of_def st(2))
    moreover have "every_session H P s2" using g1(1) every_session_cong [OF st(2)] by blast
    moreover have "P a (static v')" using g1(2) [OF Some] st(1) by simp
    ultimately show ?thesis unfolding put by (rule session_put_every [OF assms(1)])
  qed
qed

lemma send_request_every:
  assumes "lhm_laws (he_sessions H)" "every_session H P s" "send_request H contact i q s = Some (r, s')"
  shows "every_session H P s'"
proof -
  let ?a = "nc_node_address (he_enr_ops H) contact"
  obtain queued s1 where w: "(if dm_get (he_challenge_map H) ?a (h_active_challenges s) \<noteq> None then (True, s)
      else is_awaiting_session_to_be_established H ?a s) = (queued, s1)" by fastforce
  have s1: "every_session H P s1"
  proof (cases "dm_get (he_challenge_map H) ?a (h_active_challenges s) \<noteq> None")
    case False
    obtain res s2 where g: "session_get H ?a s = (res, s2)" by fastforce
    with session_get_every(1) [OF assms(1) g assms(2)] w False show ?thesis
      by (simp add: is_awaiting_session_to_be_established_def)
  qed (use w assms(2) in simp)
  have "every_session H P s'" if "na_socket_addr ?a \<notin> set (h_listen_sockets s)" "\<not> queued"
  proof -
    let ?rest = "\<lambda>r s. case r of Inl e \<Rightarrow> Some (Inl e, s)
      | Inr (packet, initiating_session) \<Rightarrow> Some (Inr (), active_insert H ?a (rc_new contact packet i q initiating_session)
          (send ?a packet (add_expected_response (na_socket_addr ?a) s)))"
    have "send_request H contact i q s = do { (r, s) \<leftarrow> request_packet H ?a i q s1; ?rest r s }"
      using that w unfolding send_request_def Let_def by simp
    with assms(3) obtain r' s2 where p: "request_packet H ?a i q s1 = Some (r', s2)" "?rest r' s2 = Some (r, s')"
      by (auto simp: bind_eq_Some_conv)
    from p(2) have "h_sessions s' = h_sessions s2" by (cases r') (auto simp: add_expected_response_def send_def)
    with request_packet_every [OF assms(1) s1 p(1)] show ?thesis using every_session_cong by blast
  qed
  moreover have "every_session H P s'" if "na_socket_addr ?a \<in> set (h_listen_sockets s)" using assms(2,3) that by (auto simp: send_request_def)
  moreover have "every_session H P s'" if "na_socket_addr ?a \<notin> set (h_listen_sockets s)" queued
  proof -
    have "h_sessions s' = h_sessions s1" using assms(3) that w by (auto simp: send_request_def Let_def)
    with s1 show ?thesis using every_session_cong by blast
  qed
  ultimately show ?thesis by blast
qed

lemma send_pending_loop_every:
  "lhm_laws (he_sessions H) \<Longrightarrow> every_session H P s \<Longrightarrow> send_pending_loop H reqs s = Some s' \<Longrightarrow> every_session H P s'"
proof (induction reqs arbitrary: s)
  case (Cons req reqs)
  from Cons.prems(3) obtain r s1 where r: "send_request H (pr_contact req) (pr_request_id req) (pr_request req) s = Some (r, s1)"
    "send_pending_loop H reqs (case r of Inl e \<Rightarrow> report_failure (pr_request_id req) e s1 | Inr _ \<Rightarrow> s1) = Some s'"
    by (auto simp: bind_eq_Some_conv)
  have "h_sessions (case r of Inl e \<Rightarrow> report_failure (pr_request_id req) e s1 | Inr _ \<Rightarrow> s1) = h_sessions s1" by (simp split: sum.split)
  with send_request_every [OF Cons.prems(1,2) r(1)] have "every_session H P (case r of Inl e \<Rightarrow> report_failure (pr_request_id req) e s1 | Inr _ \<Rightarrow> s1)"
    using every_session_cong by blast
  from Cons.IH [OF Cons.prems(1) this r(2)] show ?case .
qed simp

lemma send_pending_requests_every:
  assumes "lhm_laws (he_sessions H)" "every_session H P s" "send_pending_requests H a s = Some s'"
  shows "every_session H P s'"
  using send_pending_loop_every [OF assms(1) _ assms(3) [unfolded send_pending_requests_def]] assms(2)
  by (simp add: every_session_def entries_of_def)

lemma replay_encrypt_static:
  "replay_encrypt H n cs v s = Some (ps, v', s') \<Longrightarrow> static v' = static v \<and> h_sessions s' = h_sessions s"
proof (induction cs arbitrary: v s ps)
  case (Cons c cs)
  show ?case
  proof (cases "n = Some (rc_nonce c)")
    case False
    with Cons.prems obtain r w s1 qs where "session_message H v (rc_encode (he_rlp H) c) s = Some (r, w, s1)"
      "replay_encrypt H n cs w s1 = Some (qs, v', s')"
      by (auto simp: bind_eq_Some_conv split: prod.splits)
    with session_message_static [OF this(1)] Cons.IH [OF this(2)] show ?thesis by simp
  qed (use Cons in simp)
qed simp

lemma replay_send_sessions: "replay_send H a ps s = Some s' \<Longrightarrow> h_sessions s' = h_sessions s"
  by (induction H a ps s rule: replay_send.induct) (auto simp: tick_def send_def bind_eq_Some_conv)

lemma replay_active_requests_every:
  assumes "lhm_laws (he_sessions H)" "every_session H P s" "replay_active_requests H a n s = Some s'"
  shows "every_session H P s'"
proof -
  obtain res s1 where g: "session_get H a s = (res, s1)" by fastforce
  note g1 = session_get_every [OF assms(1) g assms(2)]
  from assms(3) obtain v where res: "res = Some v" by (cases res) (auto simp: replay_active_requests_def g)
  with assms(3) obtain ps v' s2 where e: "replay_encrypt H n (case ar_get a (h_active_requests s1) of Some cs \<Rightarrow> cs | None \<Rightarrow> []) v s1 = Some (ps, v', s2)"
    "replay_send H a ps (session_put H a v' s2) = Some s'"
    by (auto simp: replay_active_requests_def g bind_eq_Some_conv)
  note st = replay_encrypt_static [OF e(1)]
  from g1(3) [OF res] st obtain t where "map_of (entries_of H s2) a = Some (v, t)" by (auto simp: entries_of_def)
  moreover have "every_session H P s2" using g1(1) every_session_cong st by blast
  moreover have "P a (static v')" using g1(2) [OF res] st by simp
  ultimately have "every_session H P (session_put H a v' s2)" by (rule session_put_every [OF assms(1)])
  then show ?thesis using every_session_cong [OF replay_send_sessions [OF e(2)]] by blast
qed

section \<open>A new session\<close>

text \<open>
  A session that can be used: one in the cache that has not expired.
\<close>

definition live_session where
  "live_session H s a v \<longleftrightarrow> (\<exists>t. (a, v, t) \<in> set (lru_entries (he_sessions H) (h_sessions s)) \<and>
     he_clock H (h_reads s) \<le> t + lru_ttl (h_sessions s))"

lemma session_get_live:
  assumes "env_ok H N ttl" "hinv H N ttl k s" "session_get H a s = (Some v, s1)"
  shows "live_session H s a v"
proof -
  let ?L = "he_sessions H" and ?now = "he_clock H (h_reads s)"
  have "lru_inv ?L ?now (h_sessions s)" using assms(2) by (simp add: hinv_def cache_ok_def)
  note g = lru_get_mut_eq(1) [OF env_okD(3) [OF assms(1)] this, of ?now a]
  from assms(3) have "fst (lru_get_mut ?L ?now a (h_sessions s)) = Some v"
    by (auto simp: session_get_def tick_def Let_def split: prod.splits)
  with g have "map_option fst (map_of (filter (fresh (lru_ttl (h_sessions s)) ?now) (lru_entries ?L (h_sessions s))) a) = Some v" by simp
  then obtain t where "map_of (filter (fresh (lru_ttl (h_sessions s)) ?now) (lru_entries ?L (h_sessions s))) a = Some (v, t)" by auto
  from map_of_SomeD [OF this] show ?thesis by (auto simp: live_session_def fresh_def)
qed

text \<open>The old keys are those of the session there was, if there was one.\<close>

definition renewed where
  "renewed H s a v w \<longleftrightarrow> sess_keys w = sess_keys v \<and> sess_awaiting_enr w = sess_awaiting_enr v \<and>
     (sess_old_keys w = sess_old_keys v \<or> (\<exists>v0. live_session H s a v0 \<and> sess_old_keys w = Some (sess_keys v0)))"

lemma new_session_renewed:
  assumes "env_ok H N ttl" "hinv H N ttl k s" "new_session H a v n s = Some s'" "live_session H s' a w"
  shows "renewed H s a v w"
proof -
  note L = env_okD(3) [OF assms(1)]
  obtain res s1 where g: "session_get H a s = (res, s1)" by fastforce
  have "every_session H (\<lambda>b w. b = a \<longrightarrow> renewed H s a v w) s'"
  proof (cases res)
    case None
    define s2 where "s2 = s1\<lparr>h_reads := Suc (h_reads s1), h_sessions := lru_insert (he_sessions H) (he_clock H (h_reads s1)) a v (h_sessions s1)\<rparr>"
    let ?es = "without a (entries_of H s1) @ [(a, v, he_clock H (h_reads s1))]"
    have "set (entries_of H s2) \<subseteq> set ?es"
      using set_tl_subset [of ?es] unfolding entries_of_def s2_def by (simp add: lru_insert_entries [OF L] Let_def del: set_append)
    then have "every_session H (\<lambda>b w. b = a \<longrightarrow> renewed H s a v w) s2"
      unfolding every_session_def without_def renewed_def by fastforce
    moreover have "send_pending_requests H a (sessions_len H s2) = Some s'"
      using assms(3) g None by (simp add: new_session_def tick_def s2_def)
    ultimately show ?thesis using send_pending_requests_every [OF L] sessions_len_every [OF L] by blast
  next
    case (Some v0)
    obtain t where t: "map_of (entries_of H s1) a = Some (v0, t)"
      using session_get_every(3) [OF L g, of "\<lambda>_ _. True"] Some by (auto simp: every_session_def)
    have "renewed H s a v (static (session_update v v0))"
      using session_get_live [OF assms(1,2), of a v0 s1] g Some by (auto simp: renewed_def session_update_def)
    note p = session_put_only [where Q = "renewed H s a v", OF L t this]
    from assms(3) g Some have "replay_active_requests H a n (session_put H a (session_update v v0) s1) = Some s'"
      by (simp add: new_session_def)
    from replay_active_requests_every [OF L p this] show ?thesis .
  qed
  with assms(4) have "renewed H s a v (static w)" by (auto simp: every_session_def live_session_def entries_of_def)
  then show ?thesis by (simp add: renewed_def)
qed

end
