(* ===== verification/Disc_Handler_Safety.thy ===== *)
theory Disc_Handler_Safety
  imports Disc_Handler_Keys "HOL-Library.Multiset"
begin

text \<open>
  What the handlers of packets and the loop of the handler do: they never panic, they keep the invariant, no
  request of the service is lost, and a packet from the network makes the handler tell the service something
  only when it is authenticated.
\<close>

section \<open>Operations that talk to the service\<close>

definition progress where
  "progress H N ttl k X K M s s' \<longleftrightarrow>
     hinv H N ttl k s' \<and> h_draws s \<le> h_draws s' \<and> X \<union> acc k s \<subseteq> acc k s' \<and>
     (\<forall>a. known s' a \<subseteq> known s a \<union> K a) \<and> (\<exists>ms. h_out s' = h_out s @ ms \<and> set ms \<subseteq> M)"

lemma progress_evolve: "evolve H N ttl k X K s s' \<Longrightarrow> failures \<subseteq> M \<Longrightarrow> progress H N ttl k X K M s s'"
  unfolding evolve_def progress_def by blast

lemma progress_hinv: "progress H N ttl k X K M s s' \<Longrightarrow> hinv H N ttl k s'"
  by (simp add: progress_def)

lemma progress_trans:
  assumes "progress H N ttl k X K M s s1" "progress H N ttl k X' K' M s1 s2"
  shows "progress H N ttl k (X \<union> X') (\<lambda>a. K a \<union> K' a) M s s2"
proof -
  from assms obtain fs fs' where "h_out s2 = h_out s @ (fs @ fs')" "set (fs @ fs') \<subseteq> M"
    by (auto simp: progress_def)
  then have fs: "\<exists>fs. h_out s2 = h_out s @ fs \<and> set fs \<subseteq> M" by blast
  have "X \<union> acc k s \<subseteq> acc k s1" "X' \<union> acc k s1 \<subseteq> acc k s2" using assms by (simp_all only: progress_def)
  then have a: "(X \<union> X') \<union> acc k s \<subseteq> acc k s2" by blast
  have "known s1 b \<subseteq> known s b \<union> K b" "known s2 b \<subseteq> known s1 b \<union> K' b" for b using assms by (simp_all only: progress_def)
  then have b: "\<forall>b. known s2 b \<subseteq> known s b \<union> (K b \<union> K' b)" by blast
  have "h_draws s \<le> h_draws s2" "hinv H N ttl k s2" using assms unfolding progress_def by linarith+
  with fs a b show ?thesis unfolding progress_def by blast
qed

lemmas progress_quiet = progress_trans [where X = "{}" and K = "\<lambda>_. {}", simplified]
lemmas progress_then_quiet = progress_trans [where X' = "{}" and K' = "\<lambda>_. {}", simplified]

lemma progress_mono: "progress H N ttl k X K M s s' \<Longrightarrow> M \<subseteq> M' \<Longrightarrow> progress H N ttl k X K M' s s'"
  unfolding progress_def by blast

lemma progress_from:
  assumes "progress H N ttl k X K M s1 s2" "acc k s \<subseteq> X \<union> acc k s1" "\<And>b. known s1 b \<subseteq> known s b" "\<And>b. K b \<subseteq> known s b \<union> K' b"
    "h_out s1 = h_out s" "h_draws s1 = h_draws s"
  shows "progress H N ttl k {} K' M s s2"
proof -
  have "X \<union> acc k s1 \<subseteq> acc k s2" using assms(1) by (simp only: progress_def)
  with assms(2) have a: "{} \<union> acc k s \<subseteq> acc k s2" by blast
  have "known s2 b \<subseteq> known s1 b \<union> K b" for b using assms(1) by (simp only: progress_def)
  with assms(3,4) have b: "\<forall>b. known s2 b \<subseteq> known s b \<union> K' b" by blast
  show ?thesis using assms(1) a b unfolding progress_def assms(5,6) by blast
qed

lemma progress_weaken: "progress H N ttl k X K M s s' \<Longrightarrow> (\<And>b. K b \<subseteq> K' b) \<Longrightarrow> progress H N ttl k X K' M s s'"
  unfolding progress_def by blast

lemma service_send_progress:
  assumes "hinv H N ttl k s" "m \<in> M"
  shows "progress H N ttl k (reported [m]) (\<lambda>_. {}) M s (service_send m s)"
proof -
  have "hinv H N ttl k (service_send m s)" using hinv_core [OF assms(1)] by simp
  moreover have "acc k (service_send m s) = acc k s \<union> reported [m]"
    using assms by (intro acc_core) (simp_all add: hinv_def)
  moreover have "core (service_send m s) = core s" by simp
  note core_eqD [OF this]
  ultimately show ?thesis using assms(2) by (auto simp: progress_def)
qed

lemma progress_skip:
  "progress H N ttl k X (\<lambda>_. {}) M s s' \<Longrightarrow> progress H N ttl k {} (\<lambda>_. {}) M s s'"
  unfolding progress_def by blast

section \<open>Responses\<close>

lemma handle_response_spec:
  assumes "env_ok H N ttl" "hinv H N ttl k s" "failures \<subseteq> M" "resp_id r \<in> known s a \<Longrightarrow> OutResponse a r \<in> M"
  obtains s' where "handle_response H a r s = Some s'" "progress H N ttl k {} (\<lambda>_. {}) M s s'"
proof -
  let ?D = "he_nonce_map H"
  have ar: "ar_inv ?D (h_active_requests s)" using assms(2) by (simp add: hinv_def)
  show thesis
  proof (rule ar_remove_request_spec [OF env_okD(1) [OF assms(1)] ar, of a "resp_id r"])
    assume "ar_remove_request ?D a (resp_id r) (h_active_requests s) = Some (None, h_active_requests s)"
    then have "handle_response H a r s = Some s" by (simp add: handle_response_def)
    from that [OF this progress_evolve [OF evolve_refl [OF assms(2)] assms(3)]] show thesis .
  next
    fix c ar'
    assume r: "ar_remove_request ?D a (resp_id r) (h_active_requests s) = Some (Some c, ar')" "ar_inv ?D ar'"
      "c \<in> set (ar_calls (h_active_requests s) a)" "request_id_of (rc_request_id c) = resp_id r"
      "ar_calls ar' = (ar_calls (h_active_requests s))(a := filter (\<lambda>x. rc_nonce x \<noteq> rc_nonce c) (ar_calls (h_active_requests s) a))"
    define s1 where "s1 = s\<lparr>h_active_requests := ar'\<rparr>"
    have c: "c \<in> set (calls s a)" using r(3) by (simp add: calls_def)
    note d = removed_call [OF assms(2) r(2) c r(5), folded s1_def]
    have m: "OutResponse a r \<in> M" using assms(4) d(6) r(4) by simp
    define fin where "fin = service_send (OutResponse a r) (remove_expected_response (na_socket_addr a) s1)"
    have "evolve H N ttl k {} (\<lambda>_. {}) s1 (remove_expected_response (na_socket_addr a) s1)" by (rule evolve_frame [OF d(1)]) simp_all
    note f = progress_evolve [OF this assms(3)]
    have x: "ext_id (rc_request_id c) \<subseteq> reported [OutResponse a r]" using r(4) by (cases "rc_request_id c") (auto simp: reported_def)
    have "progress H N ttl k (reported [OutResponse a r]) (\<lambda>_. {}) M s1 fin"
      unfolding fin_def by (rule progress_quiet [OF f service_send_progress [OF progress_hinv [OF f] m]])
    from progress_from [OF this _ d(3) _ d(7,8)] d(2) x have pd: "progress H N ttl k {} (\<lambda>_. {}) M s fin" by blast
    define more where "more rem = service_send (OutResponse a r) (active_insert H a (c\<lparr>rc_remaining_responses := Some rem\<rparr>) s1)" for rem
    have pm: "progress H N ttl k {} (\<lambda>_. {}) M s (more rem)" if "rem \<noteq> 0" for rem
    proof -
      let ?c = "c\<lparr>rc_remaining_responses := Some rem\<rparr>"
      have n: "rc_nonce ?c = rc_nonce c" by (simp add: rc_nonce_def)
      have ok: "call_ok H (h_draws s1) a ?c" using d(4,8) that unfolding call_ok_def n by simp
      note i = active_insert_spec(1) [OF assms(1) d(1) ok, unfolded n, OF d(5)]
      note p = progress_evolve [OF i assms(3)]
      have "progress H N ttl k (ext_id (rc_request_id ?c)) (only a {request_id_of (rc_request_id ?c)}) M s1 (more rem)"
        unfolding more_def by (rule progress_then_quiet [OF p progress_skip [OF service_send_progress [OF progress_hinv [OF p] m]]])
      then show ?thesis by (rule progress_from) (use d(2,3,6,7,8) in \<open>auto simp: only_def\<close>)
    qed
    have rem: "rc_remaining_responses c \<noteq> Some 0" using d(4) by (simp add: call_ok_def)
    have eq: "handle_response H a r s =
        (case resp_body r of
           Nodes t _ \<Rightarrow>
             if 1 < t then
               (case rc_remaining_responses c of
                  Some n \<Rightarrow> if n - 1 \<noteq> 0 then Some (more (n - 1)) else Some fin
                | None \<Rightarrow> Some (more (t - 1)))
             else Some fin
         | _ \<Rightarrow> Some fin)"
      using r(1) rem by (simp add: handle_response_def Let_def s1_def [symmetric] fin_def more_def split: response_body.split option.split)
    have "\<exists>s'. handle_response H a r s = Some s' \<and> progress H N ttl k {} (\<lambda>_. {}) M s s'"
      unfolding eq using pd pm by (auto split: response_body.split option.split)
    with that show thesis by blast
  qed
qed

section \<open>Messages\<close>

text \<open>
  The keys with which a session reads, and what a message is once it is decrypted with one of some keys.
\<close>

definition receiving_keys :: "session \<Rightarrow> byte list set" where
  "receiving_keys v = insert (ks_decryption_key (sess_keys v)) (ks_decryption_key ` set_option (sess_old_keys v))"

definition session_keys where
  "session_keys H s a = {key. \<exists>v. live_session H s a v \<and> key \<in> receiving_keys v}"

definition carries where
  "carries H keys nonce message aad x \<longleftrightarrow>
     16 \<le> length message \<and> (\<exists>key\<in>keys. \<exists>m. aead_decrypt (he_crypto H) key nonce message aad = Some m \<and> rpc_decode (he_rlp H) m = Inr x)"

text \<open>The record is of the node at this address: it has its node id, and its socket if it names one of this kind.\<close>

definition belongs_to where
  "belongs_to Ops enr a \<longleftrightarrow> enr_node_id Ops enr = na_node_id a \<and>
     (\<forall>ip port. na_socket_addr a = SocketV4 ip port \<longrightarrow> enr_udp4_socket Ops enr \<in> {None, Some (ip, port)}) \<and>
     (\<forall>ip port flow scope. na_socket_addr a = SocketV6 ip port flow scope \<longrightarrow>
        enr_udp6_socket Ops enr \<in> {None, Some (ip, port, flow, scope)})"

text \<open>
  What the service may hear after a message from an address: the request or the response in it, the latter
  only to a request that is known; or, when a session waits for the record of its node, that it is
  established with the record in the response to that request.
\<close>

definition delivered where
  "delivered H s a keys nonce message aad =
     {OutRequest a q | q. carries H keys nonce message aad (Request q)} \<union>
     {OutResponse a r | r. resp_id r \<in> known s a \<and> carries H keys nonce message aad (Response r)}"

definition message_outs where
  "message_outs H s a nonce message aad =
     failures \<union> {OutWhoAreYou (WhoAreYouRef a nonce)} \<union> delivered H s a (session_keys H s a) nonce message aad \<union>
     {OutEstablished enr (na_socket_addr a) Outgoing | enr. belongs_to (he_enr_ops H) enr a \<and>
        (\<exists>v r n nodes. live_session H s a v \<and> sess_awaiting_enr v = Some (resp_id r) \<and>
           carries H (receiving_keys v) nonce message aad (Response r) \<and> resp_body r = Nodes n (nodes @ [enr]))}"

lemma verify_enr_iff: "verify_enr Ops enr a \<longleftrightarrow> belongs_to Ops enr a"
  by (cases "na_socket_addr a") (auto simp: verify_enr_def belongs_to_def split: option.splits)

lemma carries_mono: "carries H keys nonce message aad x \<Longrightarrow> keys \<subseteq> keys' \<Longrightarrow> carries H keys' nonce message aad x"
  by (auto simp: carries_def)

lemma decrypt_carries:
  assumes "session_decrypt (he_crypto H) nonce message aad v = (Inr m, v')" "rpc_decode (he_rlp H) m = Inr x"
  shows "carries H (receiving_keys v) nonce message aad x"
  using assms
  by (auto simp: session_decrypt_def decrypt_bytes_def carries_def receiving_keys_def split: if_splits sum.splits option.splits)

lemma session_decrypt_awaiting: "session_decrypt K nonce message aad v = (r, v') \<Longrightarrow> sess_awaiting_enr v' = sess_awaiting_enr v"
  by (auto simp: session_decrypt_def split: sum.splits option.splits)

lemma awaited_enr_last: "awaited_enr r = Some enr \<Longrightarrow> \<exists>n nodes. resp_body r = Nodes n (nodes @ [enr])"
  by (auto simp: awaited_enr_def split: response_body.splits if_splits) (metis append_butlast_last_id)

lemma reported_not [simp]:
  "reported [OutWhoAreYou w] = {}" "reported [OutRequest a q] = {}" "reported [OutEstablished enr sock d] = {}"
  by (simp_all add: reported_def)

lemma handle_message_spec:
  assumes "env_ok H N ttl" "hinv H N ttl k s"
  obtains s' where "handle_message H a nonce message aad s = Some s'"
    "progress H N ttl k {} (\<lambda>_. {}) (message_outs H s a nonce message aad) s s'"
proof -
  define M where "M = message_outs H s a nonce message aad"
  have fM: "failures \<subseteq> M" and wM: "OutWhoAreYou (WhoAreYouRef a nonce) \<in> M" by (auto simp: M_def message_outs_def)
  note lift = progress_evolve [OF _ fM]
  have sent: "progress H N ttl k {} (\<lambda>_. {}) M s (service_send m t)" if "progress H N ttl k {} (\<lambda>_. {}) M s t" "m \<in> M" for m t
    by (rule progress_quiet [OF that(1) progress_skip [OF service_send_progress [OF progress_hinv [OF that(1)] that(2)]]])
  have fails: "\<exists>s'. fail_session H a e True t = Some s' \<and> progress H N ttl k {} (\<lambda>_. {}) M s s'"
    if t: "progress H N ttl k {} (\<lambda>_. {}) M s t" for e t
  proof -
    obtain s' where "fail_session H a e True t = Some s'" "evolve H N ttl k {} (\<lambda>_. {}) t s'"
      by (rule fail_session_spec [OF assms(1) progress_hinv [OF t]])
    with progress_quiet [OF t lift [OF this(2)]] show ?thesis by blast
  qed
  obtain res s1 where g: "session_get H a s = (res, s1)" by fastforce
  note g1 = session_get_spec [OF assms g]
  note p1 = lift [OF g1(1)]
  have c1: "h_draws s1 = h_draws s" "known s1 = known s" 
    by (subst g1(2); simp add: calls_def pend_def known_def fun_eq_iff)+
  have "\<exists>s'. handle_message H a nonce message aad s = Some s' \<and> progress H N ttl k {} (\<lambda>_. {}) M s s'"
  proof (cases res)
    case None
    with g sent [OF p1 wM] show ?thesis by (simp add: handle_message_def)
  next
    case (Some v)
    obtain dr v' where dec: "(session_decrypt (he_crypto H) nonce message aad v :: (unit disc_error + _) \<times> _) = (dr, v')" by fastforce
    have cnt: "sess_counter v' = sess_counter v"
      using session_decrypt_counter [of "he_crypto H" nonce message aad v, where 'a = unit] by (simp add: dec)
    with g1(3) [OF Some] c1 have v: "at_back H a v (he_clock H (h_reads s)) (h_sessions s1)" "sess_counter v' \<le> h_draws s1" by simp_all
    define s2 where "s2 = session_put H a v' s1"
    note q = session_put_spec [OF assms(1) progress_hinv [OF p1] v, folded s2_def]
    have p2: "progress H N ttl k {} (\<lambda>_. {}) M s s2" by (rule progress_quiet [OF p1 lift [OF q(1)]])
    have c2: "h_draws s2 = h_draws s1" "known s2 = known s"
      unfolding c1(2) [symmetric] by (simp_all add: s2_def session_put_def calls_def pend_def known_def fun_eq_iff)
    show ?thesis
    proof (cases dr)
      case (Inl e)
      from fails [OF p2, of RInvalidRemotePacket] obtain s' where s': "fail_session H a RInvalidRemotePacket True s2 = Some s'"
        "progress H N ttl k {} (\<lambda>_. {}) M s s'" by blast
      from sent [OF s'(2) wM] s' show ?thesis by (auto simp: handle_message_def g Some dec Inl s2_def)
    next
      case (Inr m)
      note o = decrypt_carries [OF dec [unfolded Inr]]
      have live: "live_session H s a v" using session_get_live [OF assms] g Some by simp
      then have keys: "receiving_keys v \<subseteq> session_keys H s a" by (auto simp: session_keys_def)
      show ?thesis
      proof (cases "rpc_decode (he_rlp H) m")
        case e: (Inl e)
        with p2 show ?thesis by (simp add: handle_message_def g Some dec Inr s2_def)
      next
        case b: (Inr body)
        show ?thesis
        proof (cases body)
          case (Request rq)
          have "OutRequest a rq \<in> M" using carries_mono [OF o [OF b] keys] Request by (auto simp: M_def message_outs_def delivered_def)
          from sent [OF p2 this] show ?thesis by (simp add: handle_message_def g Some dec Inr b Request s2_def)
        next
          case (Response rs)
          show ?thesis
          proof (cases "sess_awaiting_enr v' = Some (resp_id rs)")
            case True
            define s3 where "s3 = session_put H a (v'\<lparr>sess_awaiting_enr := None\<rparr>) s2"
            have "evolve H N ttl k {} (\<lambda>_. {}) s2 s3"
              unfolding s3_def by (rule session_put_spec(1) [OF assms(1) progress_hinv [OF p2] q(2)]) (use v(2) c2 in simp)
            then have p3: "progress H N ttl k {} (\<lambda>_. {}) M s s3" by (rule progress_quiet [OF p2 lift])
            have "OutEstablished enr (na_socket_addr a) Outgoing \<in> M" if "verify_enr (he_enr_ops H) enr a" "awaited_enr rs = Some enr" for enr
              using o [OF b [unfolded Response]] live that(1) [unfolded verify_enr_iff] awaited_enr_last [OF that(2)] True [unfolded session_decrypt_awaiting [OF dec]]
              unfolding M_def message_outs_def by blast
            with sent [OF p3] fails [OF p3] True show ?thesis
              by (simp add: handle_message_def g Some dec Inr b Response s2_def [symmetric] s3_def [symmetric] Let_def split: option.split)
          next
            case False
            have "OutResponse a rs \<in> M" if "resp_id rs \<in> known s2 a"
              using that carries_mono [OF o [OF b [unfolded Response]] keys] c2 by (auto simp: M_def message_outs_def delivered_def)
            then obtain s' where "handle_response H a rs s2 = Some s'" "progress H N ttl k {} (\<lambda>_. {}) M s2 s'"
              by (rule handle_response_spec [OF assms(1) progress_hinv [OF p2] fM])
            with progress_quiet [OF p2 this(2)] False show ?thesis
              by (simp add: handle_message_def g Some dec Inr b Response s2_def)
          qed
        qed
      qed
    qed
  qed
  with that show thesis unfolding M_def by blast
qed

section \<open>WHOAREYOU packets\<close>

lemma derive_key_total:
  assumes "crypto_laws K"
  obtains r where "derive_key K secret i j cd = Some r"
  using crypto_lawsD(4) [OF assms]
  by (cases "hkdf_expand K (cd_bytes cd) secret (str_bytes KEY_AGREEMENT_STRING @ id_raw i @ id_raw j) (2 * KEY_LENGTH)")
    (auto simp: derive_key_def Let_def slice_range_def KEY_LENGTH_def)

lemma encrypt_with_header_total:
  fixes E :: "('enr, 'e) enr_codec"
  assumes "crypto_laws K"
  obtains r where "encrypt_with_header K Ops E P eph n iv contact key upd i cd m = Some (r :: unit disc_error + 'enr packet \<times> session)"
    "\<And>p v. r = Inr (p, v) \<Longrightarrow> packet_nonce p = n \<and> sess_counter v = 0"
proof -
  obtain g where g: "generate_session_keys K Ops eph i contact cd = Some (g :: unit disc_error + _)"
  proof (cases "nc_public_key contact")
    case (PubSecp256k1 pk)
    obtain secret where "ecdh K pk eph = Some secret" using crypto_lawsD(2) [OF assms, of pk eph] by blast
    moreover obtain r where "derive_key K secret i (nc_node_id Ops contact) cd = Some (r :: unit disc_error + _)" by (rule derive_key_total [OF assms])
    ultimately show thesis
      using that by (cases r) (auto simp: generate_session_keys_def PubSecp256k1 Let_def)
  qed (use that in \<open>simp add: generate_session_keys_def\<close>)
  show thesis
    by (rule that [of "the (encrypt_with_header K Ops E P eph n iv contact key upd i cd m)"])
      (auto simp: encrypt_with_header_def g Let_def packet_nonce_def new_authheader_def session_new_def split: sum.splits)
qed

text \<open>The call is put returned with the packet of the handshake.\<close>

lemma reinsert_call:
  assumes "env_ok H N ttl" "hinv H N ttl k s" "nc_node_address (he_enr_ops H) (rc_contact c) = a"
    "rc_remaining_responses c \<noteq> Some 0" "i < h_draws s" "nonce_tail (packet_nonce p) \<in> tails H i"
    "\<And>b. packet_nonce p \<notin> rc_nonce ` set (calls s b)"
    "rc_contact c' = rc_contact c" "rc_remaining_responses c' = rc_remaining_responses c" "rc_request_id c' = rc_request_id c"
    "rc_packet c' = p"
  defines "s1 \<equiv> send a p (insert_active_request H c' s)"
  shows "evolve H N ttl k (ext_id (rc_request_id c)) (only a {request_id_of (rc_request_id c)}) s s1"
    "h_draws s1 = h_draws s" "load s1 b \<le> load s b + (if b = a then 1 else 0)"
proof -
  have n: "rc_nonce c' = packet_nonce p" using assms(11) by (simp add: rc_nonce_def)
  have ok: "call_ok H (h_draws s) a c'" using assms(3-6,8,9) unfolding call_ok_def n by auto
  note i = active_insert_spec [OF assms(1,2) ok, unfolded n, OF assms(7)]
  have e: "evolve H N ttl k {} (\<lambda>_. {}) (active_insert H a c' s) s1"
    using evolve_frame [OF evolve_hinv [OF i(1)]] assms(3,8) by (simp add: s1_def insert_active_request_def)
  show "evolve H N ttl k (ext_id (rc_request_id c)) (only a {request_id_of (rc_request_id c)}) s s1"
    using evolve_then_quiet [OF i(1) e] by (simp add: assms(10))
  have "core s1 = core (active_insert H a c' s)" using assms(3,8) by (simp add: s1_def insert_active_request_def)
  note c = core_eqD [OF this]
  show "h_draws s1 = h_draws s" using c i(4) by simp
  show "load s1 b \<le> load s b + (if b = a then 1 else 0)" by (simp add: load_def c i(2,3))
qed

lemma challenge_answer_spec:
  assumes "env_ok H N ttl" "hinv H N ttl k s" "nc_node_address (he_enr_ops H) (rc_contact c) = a"
    "rc_remaining_responses c \<noteq> Some 0" "i < h_draws s" "nonce_tail (packet_nonce p) \<in> tails H i"
    "\<And>b. packet_nonce p \<notin> rc_nonce ` set (calls s b)" "sess_counter v = 0" "h_draws s + load s a + 4 \<le> N"
    "failures \<subseteq> M" "\<And>enr d. nc_enr (rc_contact c) = Some enr \<Longrightarrow> OutEstablished enr (na_socket_addr a) d \<in> M"
  obtains s' where "challenge_answer H c p v s = Some s'"
    "progress H N ttl k (ext_id (rc_request_id c)) (\<lambda>b. only a {request_id_of (rc_request_id c)} b \<union> he_request_id H ` {..<N}) M s s'"
proof (cases "nc_enr (rc_contact c)")
  case (Some enr)
  let ?c = "(rc_update_packet p c)\<lparr>rc_handshake_sent := True, rc_initiating_session := False\<rparr>"
  let ?d = "if rc_initiating_session c then Outgoing else Incoming"
  define s1 where "s1 = send a p (insert_active_request H ?c s)"
  have cc: "rc_contact ?c = rc_contact c" "rc_remaining_responses ?c = rc_remaining_responses c" "rc_request_id ?c = rc_request_id c"
    "rc_packet ?c = p" by (simp_all add: rc_update_packet_def)
  note r = reinsert_call [OF assms(1-7) cc, folded s1_def]
  let ?r = "service_send (OutEstablished enr (na_socket_addr a) ?d) s1"
  note p1 = progress_evolve [OF r(1) assms(10)]
  have p2: "progress H N ttl k (ext_id (rc_request_id c)) (only a {request_id_of (rc_request_id c)}) M s ?r"
    by (rule progress_then_quiet [OF p1 progress_skip [OF service_send_progress [OF progress_hinv [OF p1] assms(11) [OF Some]]]])
  have "core ?r = core s1" by simp
  note c = core_eqD [OF this]
  have "h_draws ?r + load ?r a \<le> N" using assms(9) r(2) r(3) [of a] c by (simp add: load_def)
  moreover have "sess_counter v \<le> h_draws ?r" using assms(8) by simp
  ultimately obtain s' where s': "new_session H a v (Some (packet_nonce p)) ?r = Some s'" "evolve H N ttl k {} (\<lambda>_. {}) ?r s'"
    by (rule new_session_spec [OF assms(1) progress_hinv [OF p2]])
  have "challenge_answer H c p v s = Some s'" using s'(1) assms(3) by (simp add: challenge_answer_def Some s1_def Let_def)
  then show thesis by (rule that) (rule progress_weaken [OF progress_then_quiet [OF p2 progress_evolve [OF s'(2) assms(10)]]], blast)
next
  case None
  let ?c = "(rc_update_packet p c)\<lparr>rc_handshake_sent := True\<rparr>"
  define s1 where "s1 = send a p (insert_active_request H ?c s)"
  have cc: "rc_contact ?c = rc_contact c" "rc_remaining_responses ?c = rc_remaining_responses c" "rc_request_id ?c = rc_request_id c"
    "rc_packet ?c = p" by (simp_all add: rc_update_packet_def)
  note r = reinsert_call [OF assms(1-7) cc, folded s1_def]
  let ?s2 = "s1\<lparr>h_draws := Suc (h_draws s1)\<rparr>" and ?i = "he_request_id H (h_draws s1)"
  have d: "h_draws s1 < N" "h_draws ?s2 < N" using assms(9) r(2) by simp_all
  note e2 = evolve_then_quiet [OF r(1) draw_evolve [OF assms(1) evolve_hinv [OF r(1)] d(1)]]
  obtain x s3 where s3: "send_request H (rc_contact c) (Internal ?i) (FindNode [0]) ?s2 = Some (x, s3)" "h_draws s3 \<le> Suc (h_draws ?s2)"
    "evolve H N ttl k (case x of Inl _ \<Rightarrow> {} | Inr _ \<Rightarrow> ext_id (Internal ?i)) (only a {request_id_of (Internal ?i)}) ?s2 s3"
    "\<And>b. load s3 b \<le> load ?s2 b + (if b = a then 1 else 0)"
    by (rule send_request_spec [OF assms(1) evolve_hinv [OF e2] d(2) assms(3), of "Internal ?i" "FindNode [0]"]) blast
  note e3 = evolve_trans [OF e2 s3(3)]
  have "load ?s2 a = load s1 a" by (simp add: load_def calls_def pend_def)
  then have "h_draws s3 + load s3 a \<le> N" using assms(9) s3(2) s3(4) [of a] r(2) r(3) [of a] by simp
  moreover have "sess_counter (v\<lparr>sess_awaiting_enr := Some ?i\<rparr>) \<le> h_draws s3" using assms(8) by simp
  ultimately obtain s' where s': "new_session H a (v\<lparr>sess_awaiting_enr := Some ?i\<rparr>) (Some (packet_nonce p)) s3 = Some s'" "evolve H N ttl k {} (\<lambda>_. {}) s3 s'"
    by (rule new_session_spec [OF assms(1) evolve_hinv [OF e3]])
  note e4 = evolve_then_quiet [OF e3 s'(2)]
  have x: "(case x of Inl _ \<Rightarrow> {} | Inr _ \<Rightarrow> ext_id (Internal ?i)) = {}" by (simp split: sum.split)
  have "challenge_answer H c p v s = Some s'" using s' s3(1) assms(3) by (simp add: challenge_answer_def None s1_def Let_def draw_def)
  then show thesis
    by (rule that) (rule progress_weaken [OF progress_evolve [OF e4 [unfolded x Un_empty_right] assms(10)]], use d(1) in \<open>auto simp: only_def\<close>)
qed

lemma same_calls_evolve:
  assumes "hinv H N ttl k s" "ar_inv (he_nonce_map H) ar" "ar_calls ar = ar_calls (h_active_requests s)"
  shows "evolve H N ttl k {} (\<lambda>_. {}) s (s\<lparr>h_active_requests := ar\<rparr>)" (is "evolve _ _ _ _ _ _ _ ?s")
proof -
  have c: "calls ?s = calls s" "pend ?s = pend s" using assms(3) by (simp_all add: calls_def pend_def fun_eq_iff)
  have "hinv H N ttl k ?s" using assms(1,2) unfolding hinv_def c by simp
  then show ?thesis by (simp add: evolve_def acc_def known_def c)
qed

definition challenge_outs where
  "challenge_outs s src nonce =
     failures \<union> {OutEstablished enr src d | enr d. \<exists>a c. c \<in> set (calls s a) \<and> na_socket_addr a = src \<and>
        rc_nonce c = nonce \<and> \<not> rc_handshake_sent c \<and> nc_enr (rc_contact c) = Some enr}"

lemma handle_challenge_spec:
  assumes "env_ok H N ttl" "hinv H N ttl k s" "\<And>a. h_draws s + load s a + 5 \<le> N"
  obtains s' where "handle_challenge H src nonce enr_seqn cd s = Some s'"
    "progress H N ttl k {} (\<lambda>_. he_request_id H ` {..<N}) (challenge_outs s src nonce) s s'"
proof -
  let ?D = "he_nonce_map H" and ?K = "\<lambda>_ :: node_address. he_request_id H ` {..<N}"
  define M where "M = challenge_outs s src nonce"
  have fM: "failures \<subseteq> M" by (auto simp: M_def challenge_outs_def)
  have ar: "ar_inv ?D (h_active_requests s)" using assms(2) by (simp add: hinv_def)
  have "\<exists>s'. handle_challenge H src nonce enr_seqn cd s = Some s' \<and> progress H N ttl k {} ?K M s s'"
  proof (rule ar_remove_by_nonce_spec [OF env_okD(1) [OF assms(1)] ar, of nonce])
    fix ar'
    assume r: "ar_remove_by_nonce ?D nonce (h_active_requests s) = Some (None, ar')" "ar_inv ?D ar'" "ar_calls ar' = ar_calls (h_active_requests s)"
    have "evolve H N ttl k {} (\<lambda>_. {}) s (s\<lparr>h_active_requests := ar'\<rparr>)" by (rule same_calls_evolve [OF assms(2) r(2,3)])
    from progress_evolve [OF evolve_weaken [OF this] fM] r(1) show ?thesis by (simp add: handle_challenge_def)
  next
    fix a c ar'
    assume r: "ar_remove_by_nonce ?D nonce (h_active_requests s) = Some (Some (a, c), ar')" "ar_inv ?D ar'"
      "c \<in> set (ar_calls (h_active_requests s) a)" "rc_nonce c = nonce"
      "ar_calls ar' = (ar_calls (h_active_requests s))(a := filter (\<lambda>x. rc_nonce x \<noteq> nonce) (ar_calls (h_active_requests s) a))"
    define s1 where "s1 = s\<lparr>h_active_requests := ar'\<rparr>"
    have c: "c \<in> set (calls s a)" using r(3) by (simp add: calls_def)
    note d = removed_call [OF assms(2) r(2) c r(5) [folded r(4)], folded s1_def]
    have ok: "call_ok H (h_draws s1) a c" using d(4,8) by simp
    have returned: "progress H N ttl k {} ?K M s s'"
      if "progress H N ttl k (ext_id (rc_request_id c)) (\<lambda>b. only a {request_id_of (rc_request_id c)} b \<union> he_request_id H ` {..<N}) M s1 s'" for s'
      by (rule progress_from [OF that d(2,3) _ d(7,8)]) (use d(6) in \<open>auto simp: only_def\<close>)
    have fails: "\<exists>s'. fail_request H c RInvalidRemotePacket True t = Some s' \<and> progress H N ttl k {} ?K M s s'"
      if t: "evolve H N ttl k {} (\<lambda>_. {}) s1 t" for t
    proof -
      obtain s' where "fail_request H c RInvalidRemotePacket True t = Some s'" "evolve H N ttl k (ext_id (rc_request_id c)) (\<lambda>_. {}) t s'"
        by (rule fail_request_spec [OF assms(1) evolve_hinv [OF t]])
      with returned [OF progress_evolve [OF evolve_weaken [OF evolve_quiet [OF t this(2)]] fM]] show ?thesis by blast
    qed
    show ?thesis
    proof (cases "na_socket_addr a = src")
      case False
      note i = active_insert_spec(1) [OF assms(1) d(1) ok d(5)]
      have "progress H N ttl k {} ?K M s (active_insert H a c s1)"
        by (rule returned [OF progress_weaken [OF progress_evolve [OF i fM]]]) blast
      with False r(1) show ?thesis by (simp add: handle_challenge_def s1_def)
    next
      case src: True
      show ?thesis
      proof (cases "rc_handshake_sent c")
        case True
        from fails [OF evolve_refl [OF d(1)]] src True r(1,4) show ?thesis by (simp add: handle_challenge_def s1_def)
      next
        case False
        let ?s2 = "s1\<lparr>h_draws := Suc (h_draws s1)\<rparr>" and ?d = "h_draws s1"
        have "h_draws s1 < N" using assms(3) [of a] d(8) by simp
        note e2 = draw_evolve [OF assms(1) d(1) this]
        have c2: "calls ?s2 = calls s1" "pend ?s2 = pend s1" by (simp_all add: calls_def pend_def fun_eq_iff)
        let ?upd = "if enr_seqn < enr_seq (he_enr_ops H) (h_enr s) then Some (h_enr s) else None"
        obtain x where x: "encrypt_with_header (he_crypto H) (he_enr_ops H) (he_codec H) (he_protocol H) (he_ephemeral H ?d)
              (he_nonce H ?d) (he_iv H ?d) (rc_contact c) (h_key s) ?upd (h_node_id s) cd (rc_encode (he_rlp H) c) =
            Some (x :: unit disc_error + _)"
          "\<And>p v. x = Inr (p, v) \<Longrightarrow> packet_nonce p = he_nonce H ?d \<and> sess_counter v = 0"
          by (rule encrypt_with_header_total [OF env_okD(5) [OF assms(1)]]) blast
        have eq: "handle_challenge H src nonce enr_seqn cd s = (case x of
            Inl e \<Rightarrow> fail_request H c RInvalidRemotePacket True ?s2
          | Inr (p, v) \<Rightarrow> challenge_answer H c p v ?s2)"
          using src False r(1,4) x(1) unfolding s1_def
          by (simp add: handle_challenge_def draw_def Let_def cong: if_cong sum.case_cong split del: if_split)
        show ?thesis
        proof (cases x)
          case (Inl e)
          with fails [OF e2] show ?thesis by (simp add: eq)
        next
          case (Inr pv)
          obtain p v where pv: "pv = (p, v)" by fastforce
          have pn: "packet_nonce p = he_nonce H ?d" "sess_counter v = 0" using x(2) Inr pv by simp_all
          have t: "nonce_tail (packet_nonce p) \<in> tails H ?d" by (simp add: pn tails_def)
          have fr: "packet_nonce p \<notin> rc_nonce ` set (calls ?s2 b)" for b
            unfolding c2 by (rule fresh_nonce [OF assms(1) d(1) t order_refl]) (use assms(3) [of a] d(8) in simp)
          have room: "h_draws ?s2 + load ?s2 a + 4 \<le> N" using assms(3) [of a] d(8,9) d(10) [of a] unfolding load_def c2 by simp
          have cok: "nc_node_address (he_enr_ops H) (rc_contact c) = a" "rc_remaining_responses c \<noteq> Some 0" "?d < h_draws ?s2"
            using ok by (auto simp: call_ok_def)
          have "OutEstablished enr (na_socket_addr a) dir \<in> M" if "nc_enr (rc_contact c) = Some enr" for enr dir
            using that c r(4) src False by (auto simp: M_def challenge_outs_def)
          then obtain s' where s': "challenge_answer H c p v ?s2 = Some s'"
            "progress H N ttl k (ext_id (rc_request_id c)) (\<lambda>b. only a {request_id_of (rc_request_id c)} b \<union> he_request_id H ` {..<N}) M ?s2 s'"
            by (rule challenge_answer_spec [OF assms(1) evolve_hinv [OF e2] cok t fr pn(2) room fM])
          from returned [OF progress_quiet [OF progress_evolve [OF e2 fM] s'(2)]] s'(1) show ?thesis by (simp add: eq Inr pv)
        qed
      qed
    qed
  qed
  with that show thesis unfolding M_def by blast
qed

section \<open>Handshakes\<close>

text \<open>
  The sender of a handshake proves that it has the key of a record: there is an open challenge for its
  address, the record is the newest of the one it sent and the one known with the challenge, and the
  signature is one, for the public key of the record, of the challenge, the ephemeral key and the local node id.
\<close>

definition identity_proved where
  "identity_proved H s a sig ephem rec ch enr \<longleftrightarrow>
     dm_get (he_challenge_map H) a (h_active_challenges s) = Some ch \<and>
     enr \<in> set_option rec \<union> set_option (ch_remote_enr ch) \<and>
     (\<forall>e\<in>set_option rec \<union> set_option (ch_remote_enr ch). enr_seq (he_enr_ops H) e \<le> enr_seq (he_enr_ops H) enr) \<and>
     (\<exists>pk g. enr_public_key (he_enr_ops H) enr = PubSecp256k1 pk \<and> signature_try_from (he_crypto H) sig = Some g \<and>
        verify_digest (he_crypto H) pk (sha256 (he_crypto H)
          (str_bytes ''discovery v5 identity proof'' @ cd_bytes (ch_data ch) @ ephem @ id_raw (h_node_id s))) g)"

text \<open>The key with which the sender of a handshake encrypts: the first half of what is derived from the shared secret.\<close>

definition agreed_key where
  "agreed_key H s a ch ephem key \<longleftrightarrow>
     (\<exists>sk vk secret okm. h_key s = KeySecp256k1 sk \<and> vk_from_sec1_bytes (he_crypto H) ephem = Some vk \<and>
        ecdh (he_crypto H) vk sk = Some secret \<and>
        hkdf_expand (he_crypto H) (cd_bytes (ch_data ch)) secret
          (str_bytes ''discovery v5 key agreement'' @ id_raw (na_node_id a) @ id_raw (h_node_id s)) 32 = Some okm \<and>
        key = take 16 okm)"

text \<open>
  What the service may hear after a handshake, when it is signed: that the session is established with the
  record it is signed for, and what the message in the packet is, decrypted with the agreed key or one of the
  session there was. If the record is not of the node at this address, a PING that the agreed key decrypts.
\<close>

definition auth_outs where
  "auth_outs H s a nonce sig ephem rec message aad =
     failures \<union>
     {out. \<exists>ch enr key. identity_proved H s a sig ephem rec ch enr \<and> agreed_key H s a ch ephem key \<and>
        out \<in> (if belongs_to (he_enr_ops H) enr a
                then {OutEstablished enr (na_socket_addr a) Incoming, OutWhoAreYou (WhoAreYouRef a nonce)} \<union>
                  delivered H s a (insert key (session_keys H s a)) nonce message aad
                else {OutRequest a q | q. (\<exists>n. req_body q = Ping n) \<and> carries H {key} nonce message aad (Request q)})}"

lemma newest_enr_max:
  assumes "newest_enr Ops rec prev = Some enr"
  shows "enr \<in> set_option rec \<union> set_option prev" "\<forall>e\<in>set_option rec \<union> set_option prev. enr_seq Ops e \<le> enr_seq Ops enr"
  using assms by (cases rec; cases prev; auto split: if_splits)+

lemma verify_nonce_signed:
  "verify_authentication_nonce K pub ephem cd i sig \<Longrightarrow>
     \<exists>pk g. pub = PubSecp256k1 pk \<and> signature_try_from K sig = Some g \<and>
       verify_digest K pk (sha256 K (str_bytes ''discovery v5 identity proof'' @ cd_bytes cd @ ephem @ id_raw i)) g"
  by (auto simp: verify_authentication_nonce_def generate_signing_nonce_def ID_SIGNATURE_TEXT_def Let_def
      split: combined_public_key.splits option.splits)

lemma derive_key_agreed:
  "derive_key K secret i j cd = Some (Inr (key, other)) \<Longrightarrow>
     \<exists>okm. hkdf_expand K (cd_bytes cd) secret (str_bytes ''discovery v5 key agreement'' @ id_raw i @ id_raw j) 32 = Some okm \<and> key = take 16 okm"
  by (auto simp: derive_key_def Let_def KEY_LENGTH_def KEY_AGREEMENT_STRING_def slice_range_def split: option.splits if_splits)

lemma establish_signed:
  fixes ch :: "'enr challenge"
  assumes "dm_get (he_challenge_map H) a (h_active_challenges s) = Some ch"
    "establish_from_challenge (he_crypto H) (he_enr_ops H) (h_key s) (h_node_id s) (na_node_id a) ch sig ephem rec = Some (Inr (v, enr))"
  shows "identity_proved H s a sig ephem rec ch enr" "agreed_key H s a ch ephem (ks_decryption_key (sess_keys v))"
    "sess_old_keys v = None" "sess_awaiting_enr v = None"
proof -
  let ?K = "he_crypto H" and ?Ops = "he_enr_ops H"
  obtain e where e: "newest_enr ?Ops rec (ch_remote_enr ch) = Some e"
    "verify_authentication_nonce ?K (enr_public_key ?Ops e) ephem (ch_data ch) (h_node_id s) sig"
    using assms(2) by (auto simp: establish_from_challenge_def Let_def split: option.splits if_splits)
  with assms(2) obtain d where d: "derive_keys_from_pubkey ?K (h_key s) (h_node_id s) (na_node_id a) (ch_data ch) ephem = Some (d :: 'enr challenge disc_error + _)"
    "(case d of Inl e \<Rightarrow> Some (Inl e) | Inr (decryption_key, encryption_key) \<Rightarrow>
       Some (Inr (session_new \<lparr>ks_encryption_key = encryption_key, ks_decryption_key = decryption_key\<rparr>, e))) = Some (Inr (v, enr))"
    by (auto simp: establish_from_challenge_def Let_def bind_eq_Some_conv)
  then obtain key other where k: "d = Inr (key, other)" "v = session_new \<lparr>ks_encryption_key = other, ks_decryption_key = key\<rparr>" "e = enr"
    by (cases d) auto
  note n = e [unfolded k(3)]
  show "identity_proved H s a sig ephem rec ch enr"
    unfolding identity_proved_def using assms(1) newest_enr_max [OF n(1)] verify_nonce_signed [OF n(2)] by simp
  show "agreed_key H s a ch ephem (ks_decryption_key (sess_keys v))"
    using d(1) derive_key_agreed unfolding k(1,2) agreed_key_def
    by (fastforce simp: session_new_def derive_keys_from_pubkey_def bind_eq_Some_conv split: combined_key.splits option.splits)
  show "sess_old_keys v = None" "sess_awaiting_enr v = None" by (simp_all add: k(2) session_new_def)
qed

lemma establish_total:
  fixes ch :: "'enr challenge"
  assumes "crypto_laws K"
  obtains r where "establish_from_challenge K Ops key i j ch sig pk rec = Some r"
    "\<And>v enr. r = Inr (v, enr) \<Longrightarrow> sess_counter v = 0"
proof -
  obtain g where g: "derive_keys_from_pubkey K key i j (ch_data ch) pk = Some (g :: 'enr challenge disc_error + _)"
  proof (cases key)
    case (KeySecp256k1 sk)
    show thesis
    proof (cases "vk_from_sec1_bytes K pk")
      case (Some vk)
      obtain secret where "ecdh K vk sk = Some secret" using crypto_lawsD(2) [OF assms, of vk sk] by blast
      moreover obtain r where "derive_key K secret j i (ch_data ch) = Some (r :: 'enr challenge disc_error + _)" by (rule derive_key_total [OF assms])
      ultimately show thesis using that by (simp add: derive_keys_from_pubkey_def KeySecp256k1 Some)
    qed (use that KeySecp256k1 in \<open>simp add: derive_keys_from_pubkey_def\<close>)
  qed (use that in \<open>simp add: derive_keys_from_pubkey_def\<close>)
  show thesis
    by (rule that [of "the (establish_from_challenge K Ops key i j ch sig pk rec)"])
      (auto simp: establish_from_challenge_def Let_def g session_new_def split: option.splits sum.splits if_splits)
qed

lemma ones_evolve:
  assumes "hinv H N ttl k s" "ones_ok H (h_draws s) c"
  shows "evolve H N ttl k {} (\<lambda>_. {}) s (s\<lparr>h_one_time_sessions := c\<rparr>)" (is "evolve _ _ _ _ _ _ _ ?s")
proof -
  have c: "calls ?s = calls s" "pend ?s = pend s" by (simp_all add: calls_def pend_def fun_eq_iff)
  have "hinv H N ttl k ?s" using assms unfolding hinv_def c by simp
  then show ?thesis by (simp add: evolve_def acc_def known_def c)
qed

lemma ones_insert:
  assumes "env_ok H N ttl" "ones_ok H d c" "sess_counter v \<le> d"
  shows "ones_ok H d (lru_insert (he_one_time H) now a (i, v) c)"
  using lru_insert_subset [OF env_okD(4) [OF assms(1)], of now a "(i, v)" c] assms(2,3) unfolding ones_ok_def by blast

lemma ones_remove:
  assumes "env_ok H N ttl" "ones_ok H d c"
  shows "ones_ok H d (snd (lru_remove (he_one_time H) a c))"
  using assms(2)
  by (auto simp: ones_ok_def lru_remove_def lru_entries_def case_prod_beta without_def lhm_lawsD(6) [OF env_okD(4) [OF assms(1)]])

lemma progress_step:
  assumes "failures \<subseteq> M" "progress H N ttl k {} (\<lambda>_. {}) M s t"
  shows "evolve H N ttl k {} (\<lambda>_. {}) t t' \<Longrightarrow> progress H N ttl k {} (\<lambda>_. {}) M s t'"
    "m \<in> M \<Longrightarrow> progress H N ttl k {} (\<lambda>_. {}) M s (service_send m t)"
  using progress_quiet [OF assms(2) progress_evolve [OF _ assms(1)]]
    progress_quiet [OF assms(2) progress_skip [OF service_send_progress [OF progress_hinv [OF assms(2)]]]] by blast+

lemma renewed_outs:
  assumes "\<And>w. live_session H s1 a w \<Longrightarrow> renewed H s a v w" "sess_old_keys v = None" "sess_awaiting_enr v = None"
    "known s1 a \<subseteq> known s a"
  shows "message_outs H s1 a nonce message aad \<subseteq> failures \<union> {OutWhoAreYou (WhoAreYouRef a nonce)} \<union>
    delivered H s a (insert (ks_decryption_key (sess_keys v)) (session_keys H s a)) nonce message aad"
proof -
  let ?keys = "insert (ks_decryption_key (sess_keys v)) (session_keys H s a)"
  have "receiving_keys w \<subseteq> ?keys" if "live_session H s1 a w" for w
    using assms(1) [OF that] assms(2) by (auto simp: renewed_def receiving_keys_def session_keys_def)
  then have "session_keys H s1 a \<subseteq> ?keys" by (auto simp: session_keys_def)
  then have "carries H ?keys nonce message aad x" if "carries H (session_keys H s1 a) nonce message aad x" for x
    using carries_mono [OF that] by blast
  then have "delivered H s1 a (session_keys H s1 a) nonce message aad \<subseteq> delivered H s a ?keys nonce message aad"
    using assms(4) unfolding delivered_def by blast
  moreover have "sess_awaiting_enr w = None" if "live_session H s1 a w" for w
    using assms(1) [OF that] assms(3) by (simp add: renewed_def)
  ultimately show ?thesis unfolding message_outs_def by fastforce
qed

lemma established_spec:
  fixes nonce :: message_nonce and message aad :: "byte list"
  assumes "env_ok H N ttl" "hinv H N ttl k s" "h_draws s + load s a \<le> N" "sess_counter v = 0"
    "belongs_to (he_enr_ops H) enr a" "identity_proved H s0 a sig ephem rec ch enr"
    "agreed_key H s0 a ch ephem (ks_decryption_key (sess_keys v))" "sess_old_keys v = None" "sess_awaiting_enr v = None"
    "core s = core s0"
  defines "M \<equiv> auth_outs H s0 a nonce sig ephem rec message aad"
  obtains s1 s' where "new_session H a v None (service_send (OutEstablished enr (na_socket_addr a) Incoming) s) = Some s1"
    "handle_message H a nonce message aad s1 = Some s'" "progress H N ttl k {} (\<lambda>_. {}) M s s'"
proof -
  have fM: "failures \<subseteq> M" by (auto simp: M_def auth_outs_def)
  let ?s = "service_send (OutEstablished enr (na_socket_addr a) Incoming) s"
  have M: "m \<in> M" if "m \<in> {OutEstablished enr (na_socket_addr a) Incoming, OutWhoAreYou (WhoAreYouRef a nonce)} \<union>
      delivered H s0 a (insert (ks_decryption_key (sess_keys v)) (session_keys H s0 a)) nonce message aad" for m
    unfolding M_def auth_outs_def
    by (rule UnI2, rule CollectI, rule exI [of _ ch], rule exI [of _ enr], rule exI [of _ "ks_decryption_key (sess_keys v)"])
      (use assms(5-7) that in simp)
  have "OutEstablished enr (na_socket_addr a) Incoming \<in> M" by (rule M) simp
  note p = progress_step(2) [OF fM progress_evolve [OF evolve_refl [OF assms(2)] fM] this]
  have "core ?s = core s" by simp
  note c = core_eqD [OF this] and c0 = core_eqD [OF assms(10)]
  have "h_draws ?s + load ?s a \<le> N" "sess_counter v \<le> h_draws ?s" using assms(3,4) by (simp_all add: c load_def)
  then obtain s1 where s1: "new_session H a v None ?s = Some s1" "evolve H N ttl k {} (\<lambda>_. {}) ?s s1"
    by (rule new_session_spec [OF assms(1) progress_hinv [OF p]])
  have "known s1 a \<subseteq> known ?s a" using s1(2) by (simp add: evolve_def)
  then have kn: "known s1 a \<subseteq> known s0 a" using c(3) c0(3) by simp
  have live: "live_session H ?s = live_session H s0" using c(5,6) c0(5,6) by (simp add: live_session_def fun_eq_iff)
  have "renewed H s0 a v w" if "live_session H s1 a w" for w
    using new_session_renewed [OF assms(1) progress_hinv [OF p] s1(1) that] by (simp add: renewed_def live)
  note outs = renewed_outs [OF this assms(8,9) kn, of nonce message aad]
  obtain s' where s': "handle_message H a nonce message aad s1 = Some s'"
    "progress H N ttl k {} (\<lambda>_. {}) (message_outs H s1 a nonce message aad) s1 s'"
    by (rule handle_message_spec [OF assms(1) evolve_hinv [OF s1(2)]])
  have "message_outs H s1 a nonce message aad \<subseteq> M" using outs M fM by blast
  from progress_mono [OF s'(2) this]
  have "progress H N ttl k {} (\<lambda>_. {}) M s s'" by (rule progress_quiet [OF progress_step(1) [OF fM p s1(2)]])
  with that s1(1) s'(1) show thesis by blast
qed

lemma ping_request_carries:
  assumes "ping_request H v nonce message aad = Some q" "sess_old_keys v = None"
  shows "\<exists>n. req_body q = Ping n" "carries H {ks_decryption_key (sess_keys v)} nonce message aad (Request q)"
proof -
  obtain m v' where d: "(session_decrypt (he_crypto H) nonce message aad v :: (unit disc_error + _) \<times> _) = (Inr m, v')"
    "rpc_decode (he_rlp H) m = Inr (Request q)" "request_msg_type (req_body q) = 1"
    using assms(1)
    by (cases "session_decrypt (he_crypto H) nonce message aad v :: (unit disc_error + _) \<times> _")
      (auto simp: ping_request_def split: sum.splits rpc_message.splits if_splits)
  from d(3) show "\<exists>n. req_body q = Ping n" by (cases "req_body q") simp_all
  from decrypt_carries [OF d(1,2)] assms(2) show "carries H {ks_decryption_key (sess_keys v)} nonce message aad (Request q)"
    by (simp add: receiving_keys_def)
qed

lemma one_time_spec:
  assumes "env_ok H N ttl" "hinv H N ttl k s" "sess_counter v = 0" "failures \<subseteq> M" "OutRequest a request \<in> M"
  defines "s1 \<equiv> service_send (OutRequest a request) (s\<lparr>h_reads := Suc (h_reads s), h_one_time_sessions :=
      lru_insert (he_one_time H) (he_clock H (h_reads s)) a (req_id request, v) (h_one_time_sessions s)\<rparr>)"
  shows "progress H N ttl k {} (\<lambda>_. {}) M s (if h_service_open s1 then s1
    else s1\<lparr>h_one_time_sessions := snd (lru_remove (he_one_time H) a (h_one_time_sessions s1))\<rparr>)"
proof -
  let ?s0 = "s\<lparr>h_reads := Suc (h_reads s)\<rparr>"
  note t = progress_step(1) [OF assms(4) progress_evolve [OF evolve_refl [OF assms(2)] assms(4)] tick_evolve [OF assms(1,2)]]
  have "ones_ok H (h_draws ?s0) (h_one_time_sessions ?s0)" using progress_hinv [OF t] by (simp add: hinv_def)
  then have "ones_ok H (h_draws ?s0) (lru_insert (he_one_time H) (he_clock H (h_reads s)) a (req_id request, v) (h_one_time_sessions ?s0))"
    by (rule ones_insert [OF assms(1)]) (simp add: assms(3))
  note i = progress_step(1) [OF assms(4) t ones_evolve [OF progress_hinv [OF t] this]]
  have p1: "progress H N ttl k {} (\<lambda>_. {}) M s s1" using progress_step(2) [OF assms(4) i assms(5)] by (simp add: s1_def)
  then have "ones_ok H (h_draws s1) (h_one_time_sessions s1)" by (simp add: progress_def hinv_def)
  note r = progress_step(1) [OF assms(4) p1 ones_evolve [OF progress_hinv [OF p1] ones_remove [OF assms(1) this]]]
  from p1 r show ?thesis by simp
qed

lemma handle_auth_message_spec:
  assumes "env_ok H N ttl" "hinv H N ttl k s" "\<And>b. h_draws s + load s b + 5 \<le> N"
  obtains s' where "handle_auth_message H a nonce sig key rec message aad s = Some s'"
    "progress H N ttl k {} (\<lambda>_. {}) (auth_outs H s a nonce sig key rec message aad) s s'"
proof -
  define M where "M = auth_outs H s a nonce sig key rec message aad"
  have fM: "failures \<subseteq> M" by (auto simp: M_def auth_outs_def)
  obtain ch mc where r: "dm_remove (he_challenge_map H) a (h_active_challenges s) = (ch, mc)" by fastforce
  have ch: "ch = dm_get (he_challenge_map H) a (h_active_challenges s)"
    using delay_map_lawsD(3) [OF env_okD(2) [OF assms(1)], of a "h_active_challenges s"] r by simp
  let ?s = "s\<lparr>h_active_challenges := mc\<rparr>"
  have "evolve H N ttl k {} (\<lambda>_. {}) s ?s" by (rule evolve_frame [OF assms(2)]) simp_all
  note p1 = progress_evolve [OF this fM]
  have fails: "\<exists>s'. fail_session H a e True t = Some s' \<and> progress H N ttl k {} (\<lambda>_. {}) M s s'"
    if "progress H N ttl k {} (\<lambda>_. {}) M s t" for e t
    using fail_session_spec [OF assms(1) progress_hinv [OF that]] progress_step(1) [OF fM that] by metis
  have "\<exists>s'. handle_auth_message H a nonce sig key rec message aad s = Some s' \<and> progress H N ttl k {} (\<lambda>_. {}) M s s'"
  proof (cases ch)
    case None
    with p1 r show ?thesis by (simp add: handle_auth_message_def)
  next
    case (Some chal)
    obtain x where x: "establish_from_challenge (he_crypto H) (he_enr_ops H) (h_key s) (h_node_id s) (na_node_id a) chal sig key rec = Some x"
      "\<And>v enr. x = Inr (v, enr) \<Longrightarrow> sess_counter v = 0" by (rule establish_total [OF env_okD(5) [OF assms(1)]]) blast
    show ?thesis
    proof (cases x)
      case (Inl e)
      have "evolve H N ttl k {} (\<lambda>_. {}) ?s (?s\<lparr>h_reads := Suc (h_reads ?s)\<rparr>)" by (rule tick_evolve [OF assms(1) progress_hinv [OF p1]])
      note t = progress_step(1) [OF fM p1 this]
      have ins: "progress H N ttl k {} (\<lambda>_. {}) M s (s\<lparr>h_reads := Suc (h_reads s), h_active_challenges := mc'\<rparr>)" for mc'
        by (rule progress_step(1) [OF fM t evolve_frame [OF progress_hinv [OF t]]]) (simp_all add: core_def)
      show ?thesis
        using fails [OF p1, of RInvalidRemotePacket] ins r Some x(1) Inl
        by (cases e) (simp_all add: handle_auth_message_def tick_def)
    next
      case (Inr ve)
      obtain v enr where ve: "ve = (v, enr)" by fastforce
      note au = establish_signed [OF trans [OF ch [symmetric] Some] x(1) [unfolded Inr ve]]
      have v0: "sess_counter v = 0" using x(2) Inr ve by blast
      let ?s2 = "remove_expected_response (na_socket_addr a) ?s"
      have "evolve H N ttl k {} (\<lambda>_. {}) ?s ?s2" by (rule evolve_frame [OF progress_hinv [OF p1]]) simp_all
      note p2 = progress_step(1) [OF fM p1 this]
      show ?thesis
      proof (cases "verify_enr (he_enr_ops H) enr a")
        case True
        have "core ?s2 = core s" by simp
        note c = core_eqD [OF this]
        have room: "h_draws ?s2 + load ?s2 a \<le> N" using assms(3) [of a] by (simp add: c load_def)
        obtain s1 s' where "new_session H a v None (service_send (OutEstablished enr (na_socket_addr a) Incoming) ?s2) = Some s1"
          "handle_message H a nonce message aad s1 = Some s'" "progress H N ttl k {} (\<lambda>_. {}) M ?s2 s'"
          unfolding M_def
          by (rule established_spec [OF assms(1) progress_hinv [OF p2] room v0 True [unfolded verify_enr_iff] au \<open>core ?s2 = core s\<close>])
        with r Some x(1) Inr ve True progress_quiet [OF p2 this(3)] show ?thesis by (simp add: handle_auth_message_def)
      next
        case False
        from fails [OF p2, of RInvalidRemoteEnr] obtain s3 where s3: "fail_session H a RInvalidRemoteEnr True ?s2 = Some s3"
          "progress H N ttl k {} (\<lambda>_. {}) M s s3" by blast
        have "OutRequest a q \<in> M" if "ping_request H v nonce message aad = Some q" for q
          unfolding M_def auth_outs_def
          by (rule UnI2, rule CollectI, rule exI [of _ chal], rule exI [of _ enr], rule exI [of _ "ks_decryption_key (sess_keys v)"])
            (use au(1,2) False [unfolded verify_enr_iff] ping_request_carries [OF that au(3)] in simp)
        note one = progress_quiet [OF s3(2) one_time_spec [OF assms(1) progress_hinv [OF s3(2)] _ fM this]]
        let ?v = "snd (session_decrypt (he_crypto H) nonce message aad v :: (unit disc_error + _) \<times> _)"
        have "sess_counter ?v = 0" using v0 by simp
        note one = one [OF this]
        show ?thesis
          using r Some x(1) Inr ve False s3 one
          by (cases "ping_request H v nonce message aad") (simp_all add: handle_auth_message_def Let_def tick_def cong: if_cong split del: if_split)
      qed
    qed
  qed
  with that show thesis unfolding M_def by blast
qed

section \<open>Responses and challenges of the service\<close>

lemma remove_one_time_spec:
  assumes "env_ok H N ttl" "hinv H N ttl k s"
  obtains r s' where "remove_one_time_session H a i s = Some (r, s')" "evolve H N ttl k {} (\<lambda>_. {}) s s'"
    "h_draws s' = h_draws s" "\<forall>v. r = Some v \<longrightarrow> sess_counter v \<le> h_draws s"
proof -
  let ?L = "he_one_time H" and ?s = "s\<lparr>h_reads := Suc (h_reads s)\<rparr>"
  note t = tick_evolve [OF assms]
  have ones: "ones_ok H (h_draws ?s) (h_one_time_sessions s)" using assms(2) by (simp add: hinv_def)
  show thesis
  proof (cases "\<exists>v. lru_peek ?L (he_clock H (h_reads s)) a (h_one_time_sessions s) = Some (i, v)")
    case False
    then have "remove_one_time_session H a i s = Some (None, ?s)"
      by (auto simp: remove_one_time_session_def tick_def split: option.split)
    then show thesis by (rule that) (use t in simp_all)
  next
    case True
    then obtain v u where v: "map_of (lhm_iter ?L (lru_map (h_one_time_sessions s))) a = Some ((i, v), u)"
      "lru_peek ?L (he_clock H (h_reads s)) a (h_one_time_sessions s) = Some (i, v)"
      by (auto simp: lru_peek_def lhm_lawsD(7) [OF env_okD(4) [OF assms(1)]] split: option.splits if_splits)
    then have rm: "remove_one_time_session H a i s =
        Some (Some v, ?s\<lparr>h_one_time_sessions := snd (lru_remove ?L a (h_one_time_sessions s))\<rparr>)"
      by (simp add: remove_one_time_session_def tick_def lru_remove_def case_prod_beta lhm_lawsD(5) [OF env_okD(4) [OF assms(1)]])
    have "sess_counter v \<le> h_draws s"
      using ones map_of_SomeD [OF v(1)] unfolding ones_ok_def lru_entries_def by auto
    then show thesis by (intro that [OF rm evolve_quiet [OF t ones_evolve [OF evolve_hinv [OF t] ones_remove [OF assms(1) ones]]]]) simp_all
  qed
qed

lemma send_response_spec:
  assumes "env_ok H N ttl" "hinv H N ttl k s" "h_draws s < N"
  obtains s' where "send_response H a r s = Some s'" "evolve H N ttl k {} (\<lambda>_. {}) s s'"
proof -
  let ?m = "response_encode (he_rlp H) r"
  have sent: "evolve H N ttl k {} (\<lambda>_. {}) s (send a p t)" if "evolve H N ttl k {} (\<lambda>_. {}) s t" for p t
    by (rule evolve_quiet [OF that evolve_frame [OF evolve_hinv [OF that]]]) simp_all
  obtain res s1 where g: "session_get H a s = (res, s1)" by fastforce
  note g1 = session_get_spec [OF assms(1,2) g]
  have d1: "h_draws s1 = h_draws s" by (subst g1(2)) simp
  have "\<exists>s'. send_response H a r s = Some s' \<and> evolve H N ttl k {} (\<lambda>_. {}) s s'"
  proof (cases res)
    case None
    obtain o1 s2 where o: "remove_one_time_session H a (resp_id r) s1 = Some (o1, s2)" "evolve H N ttl k {} (\<lambda>_. {}) s1 s2"
      "h_draws s2 = h_draws s1" "\<forall>v. o1 = Some v \<longrightarrow> sess_counter v \<le> h_draws s1"
      by (rule remove_one_time_spec [OF assms(1) evolve_hinv [OF g1(1)]])
    note e2 = evolve_quiet [OF g1(1) o(2)]
    show ?thesis
    proof (cases o1)
      case n: None
      with e2 o(1) g None show ?thesis by (simp add: send_response_def)
    next
      case (Some v)
      let ?s3 = "s2\<lparr>h_draws := Suc (h_draws s2)\<rparr>"
      have "h_draws s2 < N" "sess_counter v \<le> h_draws s2" using assms(3) d1 o(3,4) Some by simp_all
      then obtain q v' where q: "session_message H v ?m s2 = Some (q, v', ?s3)"
        by (rule session_message_spec [OF assms(1)]) blast
      note e3 = evolve_quiet [OF e2 draw_evolve [OF assms(1) evolve_hinv [OF e2] \<open>h_draws s2 < N\<close>]]
      from e3 sent [OF e3] g None o(1) Some q show ?thesis by (simp add: send_response_def split: sum.split)
    qed
  next
    case (Some v)
    let ?s3 = "s1\<lparr>h_draws := Suc (h_draws s1)\<rparr>"
    have d: "h_draws s1 < N" "sess_counter v \<le> h_draws s1" using assms(3) d1 g1(3) [OF Some] by simp_all
    then obtain q v' where q: "session_message H v ?m s1 = Some (q, v', ?s3)" "sess_counter v' \<le> h_draws ?s3"
      by (rule session_message_spec [OF assms(1)]) simp
    note e3 = evolve_quiet [OF g1(1) draw_evolve [OF assms(1) evolve_hinv [OF g1(1)] d(1)]]
    have "at_back H a v (he_clock H (h_reads s)) (h_sessions ?s3)" using g1(3) [OF Some] by simp
    note e4 = evolve_quiet [OF e3 session_put_spec(1) [OF assms(1) evolve_hinv [OF e3] this q(2)]]
    from e4 sent [OF e4] g Some q show ?thesis by (simp add: send_response_def split: sum.split)
  qed
  with that show thesis by blast
qed

lemma send_challenge_spec:
  assumes "env_ok H N ttl" "hinv H N ttl k s" "h_draws s < N"
  obtains s' where "send_challenge H w enr s = Some s'" "evolve H N ttl k {} (\<lambda>_. {}) s s'"
proof (cases w)
  case (WhoAreYouRef a nonce)
  show thesis
  proof (cases "dm_get (he_challenge_map H) a (h_active_challenges s) = None")
    case False
    with that [OF _ evolve_refl [OF assms(2)]] WhoAreYouRef show thesis by (simp add: send_challenge_def)
  next
    case True
    let ?d = "h_draws s"
    let ?p = "new_whoareyou (he_iv H ?d) nonce (he_id_nonce H ?d) (case enr of Some enr \<Rightarrow> enr_seq (he_enr_ops H) enr | None \<Rightarrow> 0)"
    let ?cd = "ChallengeData (authenticated_data (he_codec H) (he_protocol H) ?p)"
    let ?s1 = "s\<lparr>h_draws := Suc ?d\<rparr>"
    let ?s2 = "send a ?p (add_expected_response (na_socket_addr a) ?s1)"
    let ?s3 = "?s2\<lparr>h_reads := Suc (h_reads ?s2)\<rparr>"
    define s4 where "s4 = ?s3\<lparr>h_active_challenges := dm_insert (he_challenge_map H) (he_clock H (h_reads ?s2)) a
       \<lparr>ch_data = ?cd, ch_remote_enr = enr\<rparr> (h_active_challenges ?s3)\<rparr>"
    note e1 = draw_evolve [OF assms]
    have e2: "evolve H N ttl k {} (\<lambda>_. {}) s ?s2" by (rule evolve_quiet [OF e1 evolve_frame [OF evolve_hinv [OF e1]]]) simp_all
    note e3 = evolve_quiet [OF e2 tick_evolve [OF assms(1) evolve_hinv [OF e2]]]
    have e4: "evolve H N ttl k {} (\<lambda>_. {}) s s4"
      by (rule evolve_quiet [OF e3 evolve_frame [OF evolve_hinv [OF e3]]]) (simp_all add: s4_def)
    have "send_challenge H w enr s = Some s4"
      using True whoareyou_challenge_data
      by (simp add: send_challenge_def WhoAreYouRef draw_def tick_def Let_def challenge_data_try_from_def s4_def)
    from that [OF this e4] show thesis .
  qed
qed

section \<open>The loop\<close>

text \<open>
  A WHOAREYOU packet comes with 63 bytes of authenticated data: this is what \<open>packet_decode\<close> returns for one.
  A step has room for its draws.
\<close>

fun event_ok :: "('enr, 'pk) handler_event \<Rightarrow> bool" where
  "event_ok (FromSocket p) =
     (case header_kind (ib_header p) of WhoAreYou _ _ \<Rightarrow> length (ib_authenticated_data p) = 63 | _ \<Rightarrow> True)"
| "event_ok _ = True"

definition room where
  "room N s \<longleftrightarrow> (\<forall>a. h_draws s + load s a + 5 \<le> N)"

fun asked :: "('enr, 'pk) handler_event \<Rightarrow> request_id set" where
  "asked (FromService (InRequest contact request)) = {req_id request}"
| "asked _ = {}"

definition packet_outs where
  "packet_outs H s p =
     (case header_kind (ib_header p) of
        WhoAreYou _ _ \<Rightarrow> challenge_outs s (ib_src_address p) (message_nonce (ib_header p))
      | Handshake i sig key rec \<Rightarrow>
          auth_outs H s \<lparr>na_socket_addr = ib_src_address p, na_node_id = i\<rparr> (message_nonce (ib_header p)) sig key rec
            (ib_message p) (ib_authenticated_data p)
      | Message i \<Rightarrow>
          message_outs H s \<lparr>na_socket_addr = ib_src_address p, na_node_id = i\<rparr> (message_nonce (ib_header p))
            (ib_message p) (ib_authenticated_data p))"

fun step_outs where
  "step_outs H s (FromSocket p) = packet_outs H s p"
| "step_outs H s _ = failures"

text \<open>The request ids an event may add to an address: the one the service asks for, or those of the handler itself.\<close>

fun step_known where
  "step_known H N (FromService (InRequest contact request)) = only (nc_node_address (he_enr_ops H) contact) {req_id request}"
| "step_known H N (FromSocket p) = (\<lambda>_. he_request_id H ` {..<N})"
| "step_known H N _ = (\<lambda>_. {})"

lemma process_inbound_packet_spec:
  assumes "env_ok H N ttl" "hinv H N ttl k s" "room N s" "event_ok (FromSocket p)"
  obtains s' where "process_inbound_packet H p s = Some s'" "progress H N ttl k {} (\<lambda>_. he_request_id H ` {..<N}) (packet_outs H s p) s s'"
proof -
  have room: "h_draws s + load s b + 5 \<le> N" for b using assms(3) by (simp add: room_def)
  show thesis
  proof (cases "header_kind (ib_header p)")
    case (WhoAreYou i seq)
    obtain cd where cd: "challenge_data_try_from (ib_authenticated_data p) = Inr cd"
      using assms(4) WhoAreYou by (simp add: challenge_data_try_from_def)
    obtain s' where "handle_challenge H (ib_src_address p) (message_nonce (ib_header p)) seq cd s = Some s'"
      "progress H N ttl k {} (\<lambda>_. he_request_id H ` {..<N}) (packet_outs H s p) s s'"
      by (rule handle_challenge_spec [OF assms(1,2) room]) (simp add: packet_outs_def WhoAreYou)
    with that cd WhoAreYou show thesis by (simp add: process_inbound_packet_def)
  next
    case (Handshake i sig key rec)
    let ?a = "\<lparr>na_socket_addr = ib_src_address p, na_node_id = i\<rparr>"
    obtain s' where "handle_auth_message H ?a (message_nonce (ib_header p)) sig key rec (ib_message p) (ib_authenticated_data p) s = Some s'"
      "progress H N ttl k {} (\<lambda>_. {}) (packet_outs H s p) s s'"
      by (rule handle_auth_message_spec [OF assms(1,2) room]) (simp add: packet_outs_def Handshake)
    with progress_weaken [OF this(2), of "\<lambda>_. he_request_id H ` {..<N}"] that Handshake show thesis by (simp add: process_inbound_packet_def)
  next
    case (Message i)
    let ?a = "\<lparr>na_socket_addr = ib_src_address p, na_node_id = i\<rparr>"
    obtain s' where "handle_message H ?a (message_nonce (ib_header p)) (ib_message p) (ib_authenticated_data p) s = Some s'"
      "progress H N ttl k {} (\<lambda>_. {}) (packet_outs H s p) s s'"
      by (rule handle_message_spec [OF assms(1,2)]) (simp add: packet_outs_def Message)
    with progress_weaken [OF this(2), of "\<lambda>_. he_request_id H ` {..<N}"] that Message show thesis by (simp add: process_inbound_packet_def)
  qed
qed

lemma requests_timer_spec:
  assumes "env_ok H N ttl" "hinv H N ttl k s"
  obtains s' where "handler_step H RequestsTimer s = Some s'" "evolve H N ttl k {} (\<lambda>_. {}) s s'"
proof -
  let ?D = "he_nonce_map H" and ?s = "s\<lparr>h_reads := Suc (h_reads s)\<rparr>"
  note t = tick_evolve [OF assms]
  have ar: "ar_inv ?D (h_active_requests ?s)" using assms(2) by (simp add: hinv_def)
  show thesis
  proof (rule ar_poll_next_spec [OF env_okD(1) [OF assms(1)] ar, of "he_clock H (h_reads s)"])
    fix a c ar'
    assume r: "ar_poll_next ?D (he_clock H (h_reads s)) (h_active_requests ?s) = Some (PollExpired a c, ar')" "ar_inv ?D ar'"
      "c \<in> set (ar_calls (h_active_requests ?s) a)"
      "ar_calls ar' = (ar_calls (h_active_requests ?s))(a := filter (\<lambda>x. rc_nonce x \<noteq> rc_nonce c) (ar_calls (h_active_requests ?s) a))"
    define s1 where "s1 = ?s\<lparr>h_active_requests := ar'\<rparr>"
    have "c \<in> set (calls ?s a)" using r(3) by (simp add: calls_def)
    note d = removed_call [OF evolve_hinv [OF t] r(2) this r(4), folded s1_def]
    have "call_ok H (h_draws s1) a c" using d(4,8) by simp
    then obtain s' where s': "handle_request_timeout H a c s1 = Some s'"
      "evolve H N ttl k (ext_id (rc_request_id c)) (only a {request_id_of (rc_request_id c)}) s1 s'"
      by (rule request_timeout_spec [OF assms(1) d(1) _ d(5)])
    have "evolve H N ttl k {} (\<lambda>_. {}) ?s s'"
      by (rule evolve_from [OF s'(2) d(2,3) _ d(7,8)]) (use d(6) in \<open>auto simp: only_def\<close>)
    from that [OF _ evolve_quiet [OF t this]] r(1) s'(1) show thesis by (simp add: handler_step_def tick_def s1_def)
  next
    fix r ar'
    assume r: "ar_poll_next ?D (he_clock H (h_reads s)) (h_active_requests ?s) = Some (r, ar')"
      "r = PollPending \<or> r = PollEnded \<or> (\<exists>e. r = PollFailure e)" "ar_inv ?D ar'" "ar_calls ar' = ar_calls (h_active_requests ?s)"
    note e = evolve_quiet [OF t same_calls_evolve [OF evolve_hinv [OF t] r(3,4)]]
    show thesis by (rule that [OF _ e]) (use r(1,2) in \<open>auto simp: handler_step_def tick_def\<close>)
  qed
qed

lemma challenges_timer_spec:
  assumes "env_ok H N ttl" "hinv H N ttl k s" "room N s"
  obtains s' where "handler_step H ChallengesTimer s = Some s'" "evolve H N ttl k {} (\<lambda>_. {}) s s'"
proof -
  obtain r mc where r: "dm_poll (he_challenge_map H) (he_clock H (h_reads s)) (h_active_challenges s) = (r, mc)" by fastforce
  let ?s = "s\<lparr>h_reads := Suc (h_reads s)\<rparr>"
  let ?s1 = "?s\<lparr>h_active_challenges := mc\<rparr>"
  note t = tick_evolve [OF assms(1,2)]
  have e1: "evolve H N ttl k {} (\<lambda>_. {}) s ?s1" by (rule evolve_quiet [OF t evolve_frame [OF evolve_hinv [OF t]]]) simp_all
  show thesis
  proof (cases "\<exists>a ch. r = PollExpired a ch")
    case True
    then obtain a ch where a: "r = PollExpired a ch" by blast
    have "h_draws ?s1 + length (pend ?s1 a) \<le> N" using assms(3) by (auto simp: room_def load_def pend_def dest!: spec [of _ a])
    then obtain s' where s': "send_pending_requests H a ?s1 = Some s'" "evolve H N ttl k {} (\<lambda>_. {}) ?s1 s'"
      by (rule send_pending_requests_spec [OF assms(1) evolve_hinv [OF e1]])
    from that [OF _ evolve_quiet [OF e1 s'(2)]] s'(1) r a show thesis by (simp add: handler_step_def tick_def)
  next
    case False
    with that [OF _ e1] r show thesis by (cases r) (simp_all add: handler_step_def tick_def)
  qed
qed

lemma in_request_spec:
  assumes "env_ok H N ttl" "hinv H N ttl k s" "h_draws s < N"
  obtains s' where "handler_step H (FromService (InRequest contact q)) s = Some s'"
    "evolve H N ttl k {req_id q} (only (nc_node_address (he_enr_ops H) contact) {req_id q}) s s'"
proof -
  obtain r s1 where r: "send_request H contact (External (req_id q)) (req_body q) s = Some (r, s1)"
    "evolve H N ttl k (case r of Inl _ \<Rightarrow> {} | Inr _ \<Rightarrow> ext_id (External (req_id q)))
      (only (nc_node_address (he_enr_ops H) contact) {request_id_of (External (req_id q))}) s s1"
    by (rule send_request_spec [OF assms refl, of contact "External (req_id q)" "req_body q"])
  define s2 where "s2 = (case r of Inl e \<Rightarrow> report_failure (External (req_id q)) e s1 | Inr _ \<Rightarrow> s1)"
  have "evolve H N ttl k {req_id q} (only (nc_node_address (he_enr_ops H) contact) {req_id q}) s s2"
  proof (cases r)
    case (Inl e)
    with evolve_trans [OF r(2) report_failure_evolve [OF evolve_hinv [OF r(2)], of "External (req_id q)" e]]
    show ?thesis by (auto simp: s2_def)
  next
    case (Inr u)
    with r(2) show ?thesis by (auto simp: s2_def)
  qed
  with that r(1) show thesis by (simp add: handler_step_def s2_def cong: sum.case_cong)
qed

lemma handler_step_spec:
  assumes "env_ok H N ttl" "hinv H N ttl k s" "room N s" "event_ok e"
  obtains s' where "handler_step H e s = Some s'" "progress H N ttl k (asked e) (step_known H N e) (step_outs H s e) s s'"
proof -
  have "h_draws s + load s undefined + 5 \<le> N" using assms(3) by (simp add: room_def)
  then have d: "h_draws s < N" by simp
  have silent: "progress H N ttl k {} (\<lambda>_. {}) failures s s'" if "evolve H N ttl k {} (\<lambda>_. {}) s s'" for s'
    by (rule progress_evolve [OF that order_refl])
  show thesis
  proof (cases e)
    case (FromService m)
    show thesis
    proof (cases m)
      case (InRequest contact q)
      obtain s' where s': "handler_step H e s = Some s'" "evolve H N ttl k {req_id q} (only (nc_node_address (he_enr_ops H) contact) {req_id q}) s s'"
        unfolding FromService InRequest by (rule in_request_spec [OF assms(1,2) d])
      from that [OF s'(1)] progress_evolve [OF s'(2) order_refl] FromService InRequest show thesis by simp
    next
      case (InResponse a r)
      show thesis
        by (rule send_response_spec [OF assms(1,2) d, of a r])
          (use that silent FromService InResponse in \<open>simp add: handler_step_def\<close>)
    next
      case (InWhoAreYou w enr)
      show thesis
        by (rule send_challenge_spec [OF assms(1,2) d, of w enr])
          (use that silent FromService InWhoAreYou in \<open>simp add: handler_step_def\<close>)
    qed
  next
    case (FromSocket p)
    show thesis
      by (rule process_inbound_packet_spec [OF assms(1-3), of p])
        (use assms(4) that FromSocket in \<open>simp_all add: handler_step_def\<close>)
  next
    case RequestsTimer
    show thesis by (rule requests_timer_spec [OF assms(1,2)]) (use that silent RequestsTimer in simp)
  next
    case ChallengesTimer
    show thesis by (rule challenges_timer_spec [OF assms(1-3)]) (use that silent ChallengesTimer in simp)
  next
    case (UnbanTimer f g)
    have "evolve H N ttl k {} (\<lambda>_. {}) s (s\<lparr>h_permit_ban := unban_nodes_check f g (h_permit_ban s)\<rparr>)"
      by (rule evolve_frame [OF assms(2)]) simp_all
    from silent [OF this] that UnbanTimer show thesis by (simp add: handler_step_def)
  qed
qed

section \<open>Runs\<close>

inductive handler_reachable for H N config where
  init: "hc_request_retries config \<le> 255 \<Longrightarrow>
     handler_reachable H N config (handler_new H config node_id enr key listen_sockets permit_ban)"
| step: "handler_reachable H N config s \<Longrightarrow> room N s \<Longrightarrow> event_ok e \<Longrightarrow> handler_step H e s = Some s' \<Longrightarrow>
     handler_reachable H N config s'"

definition outstanding where
  "outstanding s = {i. \<exists>a c. c \<in> set (calls s a) \<and> i \<in> ext_id (rc_request_id c)} \<union>
     {i. \<exists>a p. p \<in> set (pend s a) \<and> i \<in> ext_id (pr_request_id p)}"

lemma acc_outstanding: "acc k s = outstanding s \<union> reported (drop k (h_out s))"
  by (simp add: acc_def outstanding_def)

lemma handler_new_hinv:
  assumes "env_ok H N (hc_session_timeout c)" "hc_request_retries c \<le> 255"
  shows "hinv H N (hc_session_timeout c) 0 (handler_new H c node_id enr key socks pb)"
proof -
  let ?s = "handler_new H c node_id enr key socks pb"
  note L = env_okD [OF assms(1)]
  have c: "calls ?s = (\<lambda>_. [])" "pend ?s = (\<lambda>_. [])"
    by (simp_all add: calls_def pend_def handler_new_def fun_eq_iff ar_new_spec(2) [OF L(1)])
  show ?thesis
    unfolding hinv_def c using assms(2)
    by (simp add: handler_new_def ar_new_spec(1) [OF L(1)] cache_ok_def ones_ok_def lru_inv_def lru_entries_def lru_new_def lhm_lawsD(1) [OF L(3)] lhm_lawsD(1) [OF L(4)])
qed

lemma reachable_hinv:
  assumes "env_ok H N (hc_session_timeout c)" "handler_reachable H N c s"
  shows "hinv H N (hc_session_timeout c) 0 s"
  using assms(2)
proof induction
  case (init node_id enr key listen_sockets permit_ban)
  then show ?case by (rule handler_new_hinv [OF assms(1)])
next
  case (step s e s')
  from handler_step_spec [OF assms(1) step.IH step.hyps(2,3)] step.hyps(4) progress_hinv show ?case by (metis option.inject)
qed

lemma reachable_step:
  assumes "env_ok H N (hc_session_timeout c)" "handler_reachable H N c s" "room N s" "event_ok e"
  obtains s' where "handler_step H e s = Some s'"
    "progress H N (hc_session_timeout c) (length (h_out s)) (asked e) (step_known H N e) (step_outs H s e) s s'"
proof -
  have "hinv H N (hc_session_timeout c) (length (h_out s)) s" using reachable_hinv [OF assms(1,2)] by (simp add: hinv_def)
  from handler_step_spec [OF assms(1) this assms(3,4)] that show thesis by blast
qed

lemma mset_filter_key:
  assumes "c \<in> set cs" "distinct (map f cs)"
  shows "mset (filter (\<lambda>x. f x \<noteq> f c) cs @ [c]) = mset cs"
proof -
  from assms have "filter (\<lambda>x. \<not> f x \<noteq> f c) cs = [c]"
  proof (induction cs)
    case (Cons x cs)
    then have x: "f x \<notin> f ` set cs" by simp
    show ?case
    proof (cases "x = c")
      case True
      then have "f y \<noteq> f c" if "y \<in> set cs" for y using x that by (metis imageI)
      with True show ?thesis by (simp add: filter_empty_conv)
    next
      case False
      with Cons.prems(1) x have "f x \<noteq> f c" by (metis imageI set_ConsD)
      with False Cons show ?thesis by simp
    qed
  qed simp
  then show ?thesis using multiset_partition [of "mset cs" "\<lambda>x. f x \<noteq> f c"] by (metis mset_append mset_filter)
qed

text \<open>
  C6. The handler never panics: whatever the event, a step from a reachable state returns. That covers the
  inconsistencies between the two maps of the active requests, the counters of a session and of the
  responses that are missing, and the session that a handshake looks up again.
\<close>

theorem handler_never_panics:
  assumes "env_ok H N (hc_session_timeout config)" "handler_reachable H N config s" "room N s" "event_ok e"
  shows "handler_step H e s \<noteq> None"
  by (rule reachable_step [OF assms]) simp

text \<open>
  C4. No request of the service is lost: one that is active or waiting before a step, or that the step
  receives, is active or waiting after it, or the step reported its response or failure.
\<close>

theorem handler_no_request_lost:
  assumes "env_ok H N (hc_session_timeout config)" "handler_reachable H N config s" "room N s" "event_ok e"
    "handler_step H e s = Some s'" "i \<in> outstanding s \<union> asked e"
  shows "i \<in> outstanding s' \<or> i \<in> reported (drop (length (h_out s)) (h_out s'))"
proof (rule reachable_step [OF assms(1-4)])
  fix t
  assume t: "handler_step H e s = Some t"
    "progress H N (hc_session_timeout config) (length (h_out s)) (asked e) (step_known H N e) (step_outs H s e) s t"
  have "asked e \<union> acc (length (h_out s)) s \<subseteq> acc (length (h_out s)) t" using t(2) by (simp only: progress_def)
  with t(1) assms(5,6) show ?thesis unfolding acc_outstanding by auto
qed


text \<open>
  C7. A WHOAREYOU packet that no active request asked for, by its nonce and the address it was sent to,
  changes nothing but the structure of the active requests and the count of clock readings: nothing is sent,
  the service hears nothing, and sessions, challenges, expected responses, waiting requests and all else are
  the same. Every address keeps its active requests, and their two maps still agree. If no active request has
  the nonce, their lists and the clock are untouched too; if one has it but was sent to another address, it is
  taken out and inserted again, with a new timeout.
\<close>

theorem unsolicited_challenge_ignored:
  assumes "env_ok H N (hc_session_timeout config)" "handler_reachable H N config s"
    "header_kind (ib_header p) = WhoAreYou id_nonce seq" "length (ib_authenticated_data p) = 63"
    "\<And>a c. c \<in> set (calls s a) \<Longrightarrow> rc_nonce c = message_nonce (ib_header p) \<Longrightarrow> na_socket_addr a \<noteq> ib_src_address p"
    "handler_step H (FromSocket p) s = Some s'"
  shows "s' = s\<lparr>h_active_requests := h_active_requests s', h_reads := h_reads s'\<rparr> \<and>
    ar_inv (he_nonce_map H) (h_active_requests s') \<and> (\<forall>a. mset (calls s' a) = mset (calls s a)) \<and>
    ((\<forall>a. \<forall>c\<in>set (calls s a). rc_nonce c \<noteq> message_nonce (ib_header p)) \<longrightarrow> calls s' = calls s \<and> h_reads s' = h_reads s)"
proof -
  let ?D = "he_nonce_map H" and ?n = "message_nonce (ib_header p)"
  have h: "hinv H N (hc_session_timeout config) 0 s" by (rule reachable_hinv [OF assms(1,2)])
  then have ar: "ar_inv ?D (h_active_requests s)" by (simp add: hinv_def)
  have step: "handle_challenge H (ib_src_address p) ?n seq (ChallengeData (ib_authenticated_data p)) s = Some s'"
    using assms(3,4,6) by (simp add: handler_step_def process_inbound_packet_def challenge_data_try_from_def)
  show ?thesis
  proof (rule ar_remove_by_nonce_spec [OF env_okD(1) [OF assms(1)] ar, of ?n])
    fix ar'
    assume r: "ar_remove_by_nonce ?D ?n (h_active_requests s) = Some (None, ar')" "ar_inv ?D ar'" "ar_calls ar' = ar_calls (h_active_requests s)"
    with step have "s' = s\<lparr>h_active_requests := ar'\<rparr>" by (simp add: handle_challenge_def)
    with r(2,3) show ?thesis by (simp add: calls_def fun_eq_iff)
  next
    fix a c ar'
    assume r: "ar_remove_by_nonce ?D ?n (h_active_requests s) = Some (Some (a, c), ar')" "ar_inv ?D ar'"
      "c \<in> set (ar_calls (h_active_requests s) a)" "rc_nonce c = ?n"
      "ar_calls ar' = (ar_calls (h_active_requests s))(a := filter (\<lambda>x. rc_nonce x \<noteq> ?n) (ar_calls (h_active_requests s) a))"
    define s1 where "s1 = s\<lparr>h_active_requests := ar'\<rparr>"
    have c: "c \<in> set (calls s a)" using r(3) by (simp add: calls_def)
    note d = removed_call [OF h r(2) c r(5) [folded r(4)], folded s1_def]
    have ok: "call_ok H (h_draws s1) a c" using d(4,8) by simp
    have s': "s' = active_insert H a c s1" using step r(1) assms(5) [OF c r(4)] by (simp add: handle_challenge_def s1_def)
    note i = active_insert_spec(1,2) [OF assms(1) d(1) ok d(5), folded s']
    have "calls s1 = (calls s)(a := filter (\<lambda>x. rc_nonce x \<noteq> rc_nonce c) (calls s a))"
      using r(4,5) by (simp add: s1_def calls_def fun_eq_iff)
    moreover have "mset (filter (\<lambda>x. rc_nonce x \<noteq> rc_nonce c) (calls s a) @ [c]) = mset (calls s a)"
      using c ar_invD(2) [OF ar, of a] by (intro mset_filter_key) (simp_all add: calls_def)
    ultimately have "\<forall>b. mset (calls s' b) = mset (calls s b)" unfolding i(2) by simp
    moreover have "ar_inv ?D (h_active_requests s')" using evolve_hinv [OF i(1)] by (simp add: hinv_def)
    moreover have "s' = s\<lparr>h_active_requests := h_active_requests s', h_reads := h_reads s'\<rparr>"
      unfolding s' by (simp add: s1_def active_insert_def tick_def)
    ultimately show ?thesis using c r(4) by blast
  qed
qed

section \<open>Witnesses\<close>

text \<open>A delay map that is a list, and an environment over it with a clock that counts and random values that count.\<close>

definition list_delay_map :: "(('k \<times> 'v) list, 'k, 'v) delay_map" where
  "list_delay_map = \<lparr>dm_new = (\<lambda>_. []), dm_insert = (\<lambda>_ k v m. m @ [(k, v)]),
     dm_remove = (\<lambda>k m. (map_of m k, filter (\<lambda>e. fst e \<noteq> k) m)), dm_get = (\<lambda>k m. map_of m k),
     dm_poll = (\<lambda>_ m. case m of [] \<Rightarrow> (PollEnded, m) | (k, v) # _ \<Rightarrow> (PollExpired k v, filter (\<lambda>e. fst e \<noteq> k) m))\<rparr>"

lemma map_of_filter_key: "map_of (filter (\<lambda>e. fst e \<noteq> k) m) k' = (if k' = k then None else map_of m k')"
  by (induction m) auto

lemma list_delay_map_laws: "delay_map_laws (list_delay_map :: (('k \<times> 'v) list, 'k, 'v) delay_map)"
  by (auto simp: delay_map_laws_def list_delay_map_def map_of_filter_key map_add_def split: list.splits option.splits)

definition toy_env ::
  "(byte list, u64, u64, u64, unit, (message_nonce \<times> node_address) list, (node_address \<times> byte list challenge) list,
    (node_address \<times> session \<times> instant) list, (node_address \<times> (request_id \<times> session) \<times> instant) list) handler_env" where
  "toy_env = \<lparr>he_crypto = toy_crypto, he_enr_ops = toy_enr_ops, he_codec = ex_codec, he_protocol = DefaultProtocolId,
     he_rlp = ex_rlp, he_nonce_map = list_delay_map, he_challenge_map = list_delay_map, he_sessions = list_lhm,
     he_one_time = list_lhm, he_debug = (\<lambda>_. []), he_clock = (\<lambda>i. i), he_random_nonce = (\<lambda>i. of_nat (2 * i)),
     he_nonce = (\<lambda>i. session_nonce 0 (of_nat (2 * i + 1))), he_iv = (\<lambda>i. of_nat i), he_fill = (\<lambda>_. Some (replicate 44 0)),
     he_id_nonce = (\<lambda>i. of_nat i), he_ephemeral = (\<lambda>i. of_nat i), he_request_id = (\<lambda>i. RequestId [of_nat i])\<rparr>"

lemma toy_env_ok: "env_ok toy_env 1000 SECOND"
proof -
  have d: "word_bytes 8 (of_nat i :: u64) \<noteq> word_bytes 8 (of_nat j :: u64)" if ij: "i \<noteq> j" "i < 2000" "j < 2000" for i j
  proof
    assume "word_bytes 8 (of_nat i :: u64) = word_bytes 8 (of_nat j :: u64)"
    then have "bytes_word (word_bytes 8 (of_nat i :: u64)) = (bytes_word (word_bytes 8 (of_nat j :: u64)) :: u64)" by simp
    then have "(of_nat i :: u64) = of_nat j" by (simp add: bytes_word_bytes)
    then have "unat (of_nat i :: u64) = unat (of_nat j :: u64)" by simp
    with ij show False by (simp add: unat_of_nat take_bit_nat_eq_self)
  qed
  have "tails toy_env i \<inter> tails toy_env j = {}" if ij: "i < 1000" "j < i" for i j
  proof -
    have "word_bytes 8 (of_nat x :: u64) \<noteq> word_bytes 8 (of_nat y :: u64)" if "x \<in> {2 * i, 2 * i + 1}" "y \<in> {2 * j, 2 * j + 1}" for x y
    proof -
      have "y < x" "x < 2000" using ij that by auto
      then show ?thesis by (intro d) simp_all
    qed
    then show ?thesis unfolding tails_def toy_env_def handler_env.simps nonce_tail_session by blast
  qed
  then show ?thesis
    by (simp add: env_ok_def) (simp add: toy_env_def list_delay_map_laws list_lhm_laws toy_crypto_laws SECOND_def)
qed

definition toy_config :: handler_config where
  "toy_config = \<lparr>hc_request_retries = 1, hc_request_timeout = SECOND, hc_session_timeout = SECOND, hc_session_cache_capacity = 10\<rparr>"

definition toy_handler ::
  "(byte list, u64, u64, (message_nonce \<times> node_address) list, (node_address \<times> byte list challenge) list,
    (node_address \<times> session \<times> instant) list, (node_address \<times> (request_id \<times> session) \<times> instant) list) handler" where
  "toy_handler = handler_new toy_env toy_config 7 [] (KeySecp256k1 7) []
     \<lparr>permit_ips = {}, ban_ips = Map.empty, permit_nodes = {}, ban_nodes = Map.empty\<rparr>"

definition toy_request :: "(byte list, u64 combined_public_key) handler_event" where
  "toy_request = FromService (InRequest toy_contact \<lparr>req_id = RequestId [1], req_body = Ping 1\<rparr>)"

definition toy_packet :: "byte list packet_kind \<Rightarrow> byte list inbound_packet" where
  "toy_packet kind = \<lparr>ib_src_address = SocketV4 (127, 0, 0, 1) 9000, ib_header = \<lparr>message_nonce = 3, header_kind = kind\<rparr>,
     ib_message = replicate 20 0, ib_authenticated_data = replicate 63 0\<rparr>"


lemma toy_reachable:
  "env_ok toy_env 1000 (hc_session_timeout toy_config)" "handler_reachable toy_env 1000 toy_config toy_handler" "room 1000 toy_handler"
proof -
  show e: "env_ok toy_env 1000 (hc_session_timeout toy_config)" using toy_env_ok by (simp add: toy_config_def)
  show "handler_reachable toy_env 1000 toy_config toy_handler"
    unfolding toy_handler_def by (rule handler_reachable.init) (simp add: toy_config_def)
  have "calls toy_handler a = []" "pend toy_handler a = []" "h_draws toy_handler = 0" for a
    by (simp_all add: calls_def pend_def toy_handler_def handler_new_def ar_new_spec(2) [OF env_okD(1) [OF e]])
  then show "room 1000 toy_handler" by (simp add: room_def load_def)
qed

theorem handler_never_panics_witness:
  "room 1000 toy_handler \<and> event_ok toy_request \<and> handler_step toy_env toy_request toy_handler \<noteq> None"
proof -
  have "event_ok toy_request" by (simp add: toy_request_def)
  with handler_never_panics [OF toy_reachable this] toy_reachable(3) show ?thesis by blast
qed

theorem handler_no_request_lost_witness:
  "\<exists>s'. handler_step toy_env toy_request toy_handler = Some s' \<and> RequestId [1] \<in> outstanding toy_handler \<union> asked toy_request \<and>
     (RequestId [1] \<in> outstanding s' \<or> RequestId [1] \<in> reported (h_out s'))"
proof -
  have e: "event_ok toy_request" and a: "RequestId [1] \<in> outstanding toy_handler \<union> asked toy_request" by (simp_all add: toy_request_def)
  obtain s' where s': "handler_step toy_env toy_request toy_handler = Some s'" by (rule reachable_step [OF toy_reachable e])
  from handler_no_request_lost [OF toy_reachable e s' a] s' a show ?thesis by (simp add: toy_handler_def handler_new_def)
qed


theorem unsolicited_challenge_ignored_witness:
  "\<exists>s'. handler_step toy_env (FromSocket (toy_packet (WhoAreYou 1 1))) toy_handler = Some s' \<and>
     s' = toy_handler\<lparr>h_active_requests := h_active_requests s', h_reads := h_reads s'\<rparr> \<and>
     ar_inv (he_nonce_map toy_env) (h_active_requests s') \<and> calls s' = calls toy_handler \<and> h_reads s' = h_reads toy_handler"
proof -
  have k: "header_kind (ib_header (toy_packet (WhoAreYou 1 1))) = WhoAreYou 1 1" "length (ib_authenticated_data (toy_packet (WhoAreYou 1 1))) = 63"
    by (simp_all add: toy_packet_def)
  then have e: "event_ok (FromSocket (toy_packet (WhoAreYou 1 1)))" by simp
  have c: "calls toy_handler a = []" for a
    by (simp add: calls_def toy_handler_def handler_new_def ar_new_spec(2) [OF env_okD(1) [OF toy_reachable(1)]])
  obtain s' where s': "handler_step toy_env (FromSocket (toy_packet (WhoAreYou 1 1))) toy_handler = Some s'"
    by (rule reachable_step [OF toy_reachable e])
  have u: "na_socket_addr a \<noteq> ib_src_address (toy_packet (WhoAreYou 1 1))" if "r \<in> set (calls toy_handler a)" for a r
    using that c by simp
  have "\<forall>a. \<forall>r\<in>set (calls toy_handler a). rc_nonce r \<noteq> message_nonce (ib_header (toy_packet (WhoAreYou 1 1)))" by (simp add: c)
  with unsolicited_challenge_ignored [OF toy_reachable(1,2) k u s'] s' show ?thesis by blast
qed

end
