(* ===== verification/Disc_Query_Info.thy ===== *)
theory Disc_Query_Info
  imports Disc_Key Disc_Rpc
begin

text \<open>
  \<open>src/service/query_info.rs\<close>: what a query asks its peers. The callback channel of a query is not
  modelled. The loop of \<open>findnode_log2distance\<close> is a partial function, whose value \<open>None\<close> stands for not
  returning and for a panic; for the sizes the source admits it is shown to return.
\<close>

section \<open>Definitions\<close>

datatype query_type = QueryFindNode node_id

record 'enr query_info =
  query_type :: query_type
  untrusted_enrs :: "'enr list"
  distances_to_request :: nat

partial_function (option) distance_loop :: "nat \<Rightarrow> nat \<Rightarrow> nat \<Rightarrow> nat list \<Rightarrow> nat list option" where
  "distance_loop sz dist difference result_list =
     (if length result_list < sz then
        let result_list = (if dist + difference \<le> 256 then result_list @ [dist + difference] else result_list);
            result_list = (if length result_list < sz \<and> difference \<le> dist
                           then result_list @ [dist - difference] else result_list)
        in distance_loop sz dist (difference + 1) result_list
      else Some result_list)"

definition findnode_log2distance :: "node_id \<Rightarrow> node_id \<Rightarrow> nat \<Rightarrow> nat list option option" where
  "findnode_log2distance target peer sz =
     (if 127 < sz then None
      else case log2_distance (key_from_node_id peer) (key_from_node_id target) of
        None \<Rightarrow> Some None
      | Some dist \<Rightarrow> do {
          result_list \<leftarrow> distance_loop sz dist 1 [dist];
          distances \<leftarrow> slice_to sz result_list;
          Some (Some distances)
        })"

definition qi_rpc_request :: "'enr query_info \<Rightarrow> node_id \<Rightarrow> request_body option" where
  "qi_rpc_request q peer =
     (case query_type q of
        QueryFindNode node_id \<Rightarrow> do {
          distances \<leftarrow> findnode_log2distance node_id peer (distances_to_request q);
          let distances = (case distances of Some ds \<Rightarrow> ds | None \<Rightarrow> [0]);
          Some (FindNode (map word_of_nat distances))
        })"

definition qi_key :: "'enr query_info \<Rightarrow> node_id key" where
  "qi_key q = (case query_type q of QueryFindNode node_id \<Rightarrow> key_new_raw node_id node_id)"

section \<open>The sequence of distances\<close>

text \<open>The distances \<open>d, d + 1, d - 1, d + 2, d - 2, \<dots>\<close> up to a difference, as far as they lie in \<open>[0, 256]\<close>.\<close>

definition step_pair :: "nat \<Rightarrow> nat \<Rightarrow> nat list" where
  "step_pair d i = (if d + i \<le> 256 then [d + i] else []) @ (if i \<le> d then [d - i] else [])"

definition around :: "nat \<Rightarrow> nat \<Rightarrow> nat list" where
  "around d i = d # concat (map (step_pair d) [1..<i])"

lemma around_1: "around d 1 = [d]"
  by (simp add: around_def)

lemma around_Suc: "0 < i \<Longrightarrow> around d (Suc i) = around d i @ step_pair d i"
  by (simp add: around_def)

lemma set_around: "d \<le> 256 \<Longrightarrow> set (around d (Suc i)) = {x. x \<le> 256 \<and> x \<le> d + i \<and> d \<le> x + i}"
proof (induction i)
  case 0
  then show ?case using around_1 [of d] by auto
next
  case (Suc i)
  have "set (step_pair d (Suc i)) = {x. x \<le> 256 \<and> (x = d + Suc i \<or> d = x + Suc i)}"
    using Suc.prems by (auto simp: step_pair_def)
  moreover have "set (around d (Suc (Suc i))) = set (around d (Suc i)) \<union> set (step_pair d (Suc i))"
    by (simp only: around_Suc [OF zero_less_Suc] set_append)
  ultimately have "set (around d (Suc (Suc i))) =
      {x. x \<le> 256 \<and> x \<le> d + i \<and> d \<le> x + i} \<union> {x. x \<le> 256 \<and> (x = d + Suc i \<or> d = x + Suc i)}"
    by (simp only: Suc.IH [OF Suc.prems])
  moreover have "x \<le> 256 \<and> x \<le> d + i \<and> d \<le> x + i \<or> x \<le> 256 \<and> (x = d + Suc i \<or> d = x + Suc i) \<longleftrightarrow>
      x \<le> 256 \<and> x \<le> d + Suc i \<and> d \<le> x + Suc i" for x
    by linarith
  ultimately show ?case by (simp only: Un_def mem_Collect_eq)
qed

lemma distinct_around: "d \<le> 256 \<Longrightarrow> distinct (around d (Suc i))"
proof (induction i)
  case 0
  then show ?case using around_1 [of d] by simp
next
  case (Suc i)
  have "distinct (step_pair d (Suc i))" by (auto simp: step_pair_def)
  moreover have "x \<notin> set (around d (Suc i))" if "x \<in> set (step_pair d (Suc i))" for x
    using that unfolding set_around [OF Suc.prems] by (auto simp: step_pair_def split: if_splits)
  ultimately show ?case using Suc unfolding around_Suc [OF zero_less_Suc] distinct_append by blast
qed

lemma length_around:
  assumes "d \<le> 256"
  shows "128 \<le> length (around d 128)"
proof -
  have e: "around d 128 = around d (Suc 127)" by simp
  have "(if d < 128 then {d..<d + 128} else {d - 127..d}) \<subseteq> set (around d 128)"
    using assms unfolding e set_around [OF assms] by auto
  then have "card (if d < 128 then {d..<d + 128} else {d - 127..d}) \<le> card (set (around d 128))"
    by (rule card_mono [OF List.finite_set])
  then show ?thesis using distinct_card [OF distinct_around [OF assms, of 127]] by (auto split: if_splits)
qed

lemma around_mono:
  assumes "i \<le> j" "0 < i"
  shows "\<exists>ys. around d j = around d i @ ys"
  using assms(1)
proof (induction j rule: dec_induct)
  case (step n)
  then show ?case using assms(2) by (auto simp: around_Suc)
qed simp

lemma around_take: "0 < i \<Longrightarrow> i \<le> j \<Longrightarrow> n \<le> length (around d i) \<Longrightarrow> take n (around d j) = take n (around d i)"
  using around_mono [of i j d] by auto

text \<open>The loop appends the pairs until the size is reached.\<close>

lemma append_pair:
  assumes "length xs < sz"
  shows "(let ys = (if d + i \<le> 256 then xs @ [d + i] else xs)
     in if length ys < sz \<and> i \<le> d then ys @ [d - i] else ys) = take sz (xs @ step_pair d i)"
proof -
  obtain k where k: "sz - length xs = Suc k" using assms by (metis Suc_diff_Suc)
  then have "Suc (length xs) < sz \<longleftrightarrow> k \<noteq> 0" by arith
  then show ?thesis using assms k by (cases k) (auto simp: step_pair_def Let_def)
qed

lemma distance_loop_step:
  assumes "0 < i" "i \<le> 128" "d \<le> 256" "sz \<le> 127"
  shows "distance_loop sz d i (take sz (around d i)) = Some (take sz (around d 128))"
  using assms(1,2)
proof (induction "128 - i" arbitrary: i)
  case 0
  then have "i = 128" by simp
  moreover have "length (take sz (around d 128)) = sz" using length_around [OF assms(3)] assms(4) by simp
  ultimately show ?case by (subst distance_loop.simps) (simp only: less_irrefl if_False)
next
  case (Suc n)
  show ?case
  proof (cases "length (around d i) < sz")
    case True
    then have t: "take sz (around d i) = around d i" by simp
    have "distance_loop sz d i (around d i) = distance_loop sz d (Suc i) (take sz (around d (Suc i)))"
      unfolding around_Suc [OF Suc.prems(1)] append_pair [OF True, symmetric]
      by (subst distance_loop.simps) (simp add: True Let_def)
    also have "\<dots> = Some (take sz (around d 128))"
      using Suc.hyps Suc.prems by (intro Suc.hyps(1)) simp_all
    finally show ?thesis unfolding t .
  next
    case False
    then have "take sz (around d 128) = take sz (around d i)" by (intro around_take [OF Suc.prems]) simp
    moreover have "length (take sz (around d i)) = sz" using False by simp
    ultimately show ?thesis by (subst distance_loop.simps) (simp only: less_irrefl if_False)
  qed
qed

lemma distance_loop_eq:
  assumes "d \<le> 256" "sz \<le> 127"
  shows "Option.bind (distance_loop sz d 1 [d]) (slice_to sz) = Some (take sz (around d 128))"
proof (cases "sz = 0")
  case True
  then show ?thesis by (subst distance_loop.simps) simp
next
  case False
  have "distance_loop sz d 1 [d] = Some (take sz (around d 128))"
    using distance_loop_step [of 1 d sz] assms False around_1 [of d] by simp
  with length_around [OF assms(1)] assms(2) show ?thesis by simp
qed


text \<open>The sequence is ordered by the difference from the distance.\<close>

definition gap :: "nat \<Rightarrow> nat \<Rightarrow> nat" where
  "gap d x = (if x \<le> d then d - x else x - d)"

lemma sorted_around: "d \<le> 256 \<Longrightarrow> sorted (map (gap d) (around d (Suc i)))"
proof (induction i)
  case 0
  then show ?case using around_1 [of d] by simp
next
  case (Suc i)
  have "sorted (map (gap d) (step_pair d (Suc i)))" by (auto simp: step_pair_def gap_def)
  moreover have "gap d x \<le> gap d y" if "x \<in> set (around d (Suc i))" "y \<in> set (step_pair d (Suc i))" for x y
    using that unfolding set_around [OF Suc.prems] by (auto simp: step_pair_def gap_def split: if_splits)
  ultimately show ?case using Suc unfolding around_Suc [OF zero_less_Suc] map_append sorted_append by auto
qed

lemma around_closest:
  assumes "d \<le> 256" "x \<in> set (take n (around d 128))" "y \<le> 256" "y \<notin> set (take n (around d 128))"
  shows "gap d x \<le> gap d y"
proof (cases "y \<in> set (around d 128)")
  case True
  then have "y \<in> set (drop n (around d 128))" using assms(4) by (metis Un_iff append_take_drop_id set_append)
  moreover have "sorted (map (gap d) (take n (around d 128) @ drop n (around d 128)))"
    using sorted_around [OF assms(1), of 127] by simp
  ultimately show ?thesis using assms(2) by (simp only: map_append sorted_append set_map) blast
next
  case False
  have e: "set (around d 128) = {x. x \<le> 256 \<and> x \<le> d + 127 \<and> d \<le> x + 127}"
    using set_around [OF assms(1), of 127] by simp
  have "x \<in> set (around d 128)" using assms(2) by (rule in_set_takeD)
  with False assms(3) show ?thesis unfolding e by (auto simp: gap_def)
qed

lemma log2_distance_bound: "log2_distance a b = Some d \<Longrightarrow> d \<le> 256"
  using bucket_index_bound [of "distance a b"]
  by (auto simp: log2_distance_bucket_index NUM_BUCKETS_def)

lemma findnode_log2distance_eq:
  assumes "n \<le> 127"
  shows "findnode_log2distance target peer n =
    Some (map_option (\<lambda>d. take n (around d 128)) (log2_distance (key_from_node_id peer) (key_from_node_id target)))"
proof (cases "log2_distance (key_from_node_id peer) (key_from_node_id target)")
  case (Some d)
  obtain r where r: "distance_loop n d 1 [d] = Some r" "slice_to n r = Some (take n (around d 128))"
    using distance_loop_eq [OF log2_distance_bound [OF Some] assms]
    by (cases "distance_loop n d 1 [d]") auto
  then show ?thesis using assms Some by (simp add: findnode_log2distance_def)
qed (use assms in \<open>simp add: findnode_log2distance_def\<close>)

lemma hd_around: "around d 128 = d # tl (around d 128)"
  by (simp add: around_def)

text \<open>
  C37. \<open>findnode_log2distance\<close> returns for every number of distances up to 127. Unless the peer is the
  target it yields that many different distances of at most 256, the first of which is the distance of the
  peer from the target, and no distance left out is nearer to it than one that is included.
\<close>

theorem findnode_distances_correct:
  assumes "n \<le> 127"
  shows "\<exists>r. findnode_log2distance target peer n = Some r \<and>
    (case r of
       None \<Rightarrow> target = peer
     | Some ds \<Rightarrow> \<exists>d. log2_distance (key_from_node_id peer) (key_from_node_id target) = Some d \<and>
         length ds = n \<and> distinct ds \<and> (\<forall>x\<in>set ds. x \<le> 256) \<and> (0 < n \<longrightarrow> hd ds = d) \<and>
         (\<forall>x\<in>set ds. \<forall>y. y \<le> 256 \<and> y \<notin> set ds \<longrightarrow> gap d x \<le> gap d y))"
proof (cases "log2_distance (key_from_node_id peer) (key_from_node_id target)")
  case None
  then have "target = peer"
    by (simp add: log2_distance_bucket_index key_from_node_id_def)
  with None show ?thesis using findnode_log2distance_eq [OF assms, of target peer] by simp
next
  case (Some d)
  note d = log2_distance_bound [OF Some]
  let ?ds = "take n (around d 128)"
  have "length ?ds = n" using length_around [OF d] assms by simp
  moreover have "distinct ?ds" using distinct_around [OF d, of 127] by simp
  moreover have "\<forall>x\<in>set ?ds. x \<le> 256" using set_around [OF d, of 127] by (auto dest: in_set_takeD)
  moreover have "0 < n \<longrightarrow> hd ?ds = d" by (metis hd_around hd_take list.sel(1))
  ultimately show ?thesis
    using findnode_log2distance_eq [OF assms, of target peer] Some around_closest [OF d] by auto
qed

section \<open>Witnesses\<close>

theorem findnode_distances_correct_witness:
  "\<exists>ds. findnode_log2distance 0 1 3 = Some (Some ds) \<and> length ds = 3 \<and> distinct ds"
proof -
  have "\<not> findnode_log2distance 0 1 3 = Some None"
    using findnode_log2distance_eq [of 3 0 1]
    by (simp add: log2_distance_bucket_index key_from_node_id_def)
  with findnode_distances_correct [of 3 0 1] show ?thesis by (auto split: option.splits)
qed

end
