(* ===== verification/Disc_Ip_Vote.thy ===== *)
theory Disc_Ip_Vote
  imports Disc_Net
begin

text \<open>
  \<open>src/service/ip_vote.rs\<close>: the votes of peers on the external address of this node. The iteration orders
  of the hash maps are arguments: \<open>order\<close> lists the voters, \<open>order4\<close> and \<open>order6\<close> the addresses that
  were voted for.
\<close>

section \<open>Definitions\<close>

type_synonym sock4 = "ipv4 \<times> u16"
type_synonym sock6 = "ipv6 \<times> u16 \<times> u32 \<times> u32"

record ip_vote =
  iv_votes :: "node_id \<rightharpoonup> socket_addr \<times> instant"
  iv_minimum_threshold :: nat
  iv_vote_duration :: duration

definition iv_new :: "nat \<Rightarrow> duration \<Rightarrow> ip_vote option" where
  "iv_new minimum_threshold vote_duration =
     (if minimum_threshold < 2 then None
      else Some \<lparr>iv_votes = Map.empty, iv_minimum_threshold = minimum_threshold, iv_vote_duration = vote_duration\<rparr>)"

definition iv_insert :: "instant \<Rightarrow> node_id \<Rightarrow> socket_addr \<Rightarrow> ip_vote \<Rightarrow> ip_vote" where
  "iv_insert now k socket v = v\<lparr>iv_votes := (iv_votes v)(k \<mapsto> (socket, now + iv_vote_duration v))\<rparr>"

text \<open>\<open>entry(k).or_insert_with(|| 0) += 1\<close>.\<close>

definition count_up :: "'k \<Rightarrow> ('k \<rightharpoonup> nat) \<Rightarrow> 'k \<rightharpoonup> nat" where
  "count_up k m = m(k \<mapsto> (case m k of Some n \<Rightarrow> n + 1 | None \<Rightarrow> 1))"

fun tally :: "(node_id \<rightharpoonup> socket_addr \<times> instant) \<Rightarrow> node_id list
    \<Rightarrow> (sock4 \<rightharpoonup> nat) \<times> (sock6 \<rightharpoonup> nat) \<Rightarrow> (sock4 \<rightharpoonup> nat) \<times> (sock6 \<rightharpoonup> nat)" where
  "tally votes [] (c4, c6) = (c4, c6)"
| "tally votes (i # ids) (c4, c6) =
     (case votes i of
        Some (SocketV4 a p, _) \<Rightarrow> tally votes ids (count_up (a, p) c4, c6)
      | Some (SocketV6 a p f s, _) \<Rightarrow> tally votes ids (c4, count_up (a, p, f, s) c6)
      | None \<Rightarrow> tally votes ids (c4, c6))"

text \<open>\<open>max_by_key\<close> returns the last of several maximal elements.\<close>

fun max_by_key :: "('a \<times> nat) list \<Rightarrow> ('a \<times> nat) option" where
  "max_by_key [] = None"
| "max_by_key (x # xs) =
     (case max_by_key xs of Some y \<Rightarrow> Some (if snd x \<le> snd y then y else x) | None \<Rightarrow> Some x)"

definition iv_majority_of :: "('a \<times> nat) list \<Rightarrow> nat \<Rightarrow> 'a option" where
  "iv_majority_of counts threshold = map_option fst (max_by_key (filter (\<lambda>(k, c). threshold \<le> c) counts))"

definition iter_counts :: "'k list \<Rightarrow> ('k \<rightharpoonup> nat) \<Rightarrow> ('k \<times> nat) list" where
  "iter_counts order m = List.map_filter (\<lambda>k. map_option (Pair k) (m k)) order"

definition iv_majority ::
  "instant \<Rightarrow> node_id list \<Rightarrow> sock4 list \<Rightarrow> sock6 list \<Rightarrow> ip_vote \<Rightarrow> (sock4 option \<times> sock6 option) \<times> ip_vote" where
  "iv_majority now order order4 order6 v =
     (let votes = (\<lambda>i. case iv_votes v i of Some (s, t) \<Rightarrow> if now < t then Some (s, t) else None | None \<Rightarrow> None);
          (c4, c6) = tally votes order (Map.empty, Map.empty)
      in ((iv_majority_of (iter_counts order4 c4) (iv_minimum_threshold v),
           iv_majority_of (iter_counts order6 c6) (iv_minimum_threshold v)), v\<lparr>iv_votes := votes\<rparr>))"

section \<open>The winner of the vote\<close>

text \<open>The peers whose unexpired vote is for an address.\<close>

definition voters :: "instant \<Rightarrow> ip_vote \<Rightarrow> socket_addr \<Rightarrow> node_id set" where
  "voters now v s = {i. \<exists>t. iv_votes v i = Some (s, t) \<and> now < t}"

definition count_of :: "('k \<rightharpoonup> nat) \<Rightarrow> 'k \<Rightarrow> nat" where
  "count_of m k = (case m k of Some n \<Rightarrow> n | None \<Rightarrow> 0)"

lemma count_of_up: "count_of (count_up k m) k' = (if k' = k then Suc (count_of m k) else count_of m k')"
  by (simp add: count_of_def count_up_def split: option.split)

lemma tally_counts:
  "(\<forall>a p. count_of (fst (tally votes ids cs)) (a, p) =
      count_of (fst cs) (a, p) + length (filter (\<lambda>i. map_option fst (votes i) = Some (SocketV4 a p)) ids)) \<and>
   (\<forall>a p f s. count_of (snd (tally votes ids cs)) (a, p, f, s) =
      count_of (snd cs) (a, p, f, s) + length (filter (\<lambda>i. map_option fst (votes i) = Some (SocketV6 a p f s)) ids))"
proof (induction "votes" "ids" cs rule: tally.induct)
  case (2 votes i "ids" c4 c6)
  show ?case
  proof (cases "votes i")
    case None
    with 2 show ?thesis by simp
  next
    case (Some st)
    with 2 show ?thesis by (cases st; cases "fst st") (auto simp: count_of_up)
  qed
qed simp

lemma max_by_key_None [simp]: "max_by_key xs = None \<longleftrightarrow> xs = []"
  by (cases xs) (auto split: option.split)

lemma max_by_key_Some:
  "max_by_key xs = Some x \<Longrightarrow> x \<in> set xs \<and> (\<forall>y\<in>set xs. snd y \<le> snd x)"
proof (induction xs arbitrary: x)
  case (Cons y ys)
  show ?case
  proof (cases "max_by_key ys")
    case None
    with Cons.prems show ?thesis by simp
  next
    case (Some z)
    with Cons.IH [OF Some] Cons.prems show ?thesis by (auto split: if_splits)
  qed
qed simp

lemma iv_majority_of_spec:
  assumes "\<forall>k. 0 < count_of m k \<longrightarrow> k \<in> set order" "0 < threshold"
  shows "case iv_majority_of (iter_counts order m) threshold of
      Some k \<Rightarrow> threshold \<le> count_of m k \<and> (\<forall>k'. count_of m k' \<le> count_of m k)
    | None \<Rightarrow> \<forall>k. count_of m k < threshold"
proof -
  have mem: "(k, n) \<in> set (iter_counts order m) \<longleftrightarrow> k \<in> set order \<and> m k = Some n" for k n
    by (force simp: iter_counts_def map_filter_def)
  have big: "k \<in> set order" "m k = Some (count_of m k)" if "threshold \<le> count_of m k" for k
    using that assms by (auto simp: count_of_def split: option.splits)
  show ?thesis
  proof (cases "max_by_key (filter (\<lambda>(k, c). threshold \<le> c) (iter_counts order m))")
    case None
    have "count_of m k < threshold" for k
    proof (rule ccontr)
      assume "\<not> count_of m k < threshold"
      with big [of k] mem [of k "count_of m k"] None show False by (auto simp: filter_empty_conv)
    qed
    with None show ?thesis by (simp add: iv_majority_of_def)
  next
    case (Some x)
    obtain k c where x: "x = (k, c)" by (cases x)
    from max_by_key_Some [OF Some] have c: "m k = Some c" "threshold \<le> c"
      and mx': "\<And>k' c'. k' \<in> set order \<Longrightarrow> m k' = Some c' \<Longrightarrow> threshold \<le> c' \<Longrightarrow> c' \<le> c"
      using mem by (auto simp: x)
    have mx: "count_of m k' \<le> c" if "threshold \<le> count_of m k'" for k'
      using mx' [OF big [OF that] that] .
    have "count_of m k' \<le> c" for k' using mx [of k'] c(2) by (cases "threshold \<le> count_of m k'") auto
    with x c Some show ?thesis by (simp add: iv_majority_of_def count_of_def)
  qed
qed

lemma card_filter: "distinct xs \<Longrightarrow> length (filter P xs) = card {x \<in> set xs. P x}"
  by (metis distinct_card distinct_filter set_filter)

text \<open>
  C38. \<open>majority\<close> drops the expired votes and for each of the two address families returns an address with
  the most unexpired votes of different peers, provided it has at least the minimum number of votes, and
  nothing if no address has that many. (\<open>order\<close>, \<open>order4\<close> and \<open>order6\<close> enumerate the hash maps.)
\<close>

theorem ip_vote_majority:
  assumes "0 < iv_minimum_threshold v" "distinct order" "dom (iv_votes v) \<subseteq> set order"
    "\<forall>a p. voters now v (SocketV4 a p) \<noteq> {} \<longrightarrow> (a, p) \<in> set order4"
    "\<forall>a p f s. voters now v (SocketV6 a p f s) \<noteq> {} \<longrightarrow> (a, p, f, s) \<in> set order6"
  shows "\<exists>r4 r6 v'. iv_majority now order order4 order6 v = ((r4, r6), v') \<and>
    (\<forall>i. iv_votes v' i = (case iv_votes v i of Some (s, t) \<Rightarrow> if now < t then Some (s, t) else None | None \<Rightarrow> None)) \<and>
    (case r4 of
       Some (a, p) \<Rightarrow> iv_minimum_threshold v \<le> card (voters now v (SocketV4 a p)) \<and>
         (\<forall>a' p'. card (voters now v (SocketV4 a' p')) \<le> card (voters now v (SocketV4 a p)))
     | None \<Rightarrow> \<forall>a p. card (voters now v (SocketV4 a p)) < iv_minimum_threshold v) \<and>
    (case r6 of
       Some (a, p, f, s) \<Rightarrow> iv_minimum_threshold v \<le> card (voters now v (SocketV6 a p f s)) \<and>
         (\<forall>a' p' f' s'. card (voters now v (SocketV6 a' p' f' s')) \<le> card (voters now v (SocketV6 a p f s)))
     | None \<Rightarrow> \<forall>a p f s. card (voters now v (SocketV6 a p f s)) < iv_minimum_threshold v)"
proof -
  define votes where "votes = (\<lambda>i. case iv_votes v i of Some (s, t) \<Rightarrow> if now < t then Some (s, t) else None | None \<Rightarrow> None)"
  obtain c4 c6 where c: "tally votes order (Map.empty, Map.empty) = (c4, c6)" by fastforce
  have vs: "{i \<in> set order. map_option fst (votes i) = Some s} = voters now v s" for s
    using assms(3) by (auto simp: votes_def voters_def split: option.splits if_splits)
  note len = card_filter [OF assms(2), of "\<lambda>i. map_option fst (votes i) = Some _", unfolded vs]
  have n4: "count_of c4 (a, p) = card (voters now v (SocketV4 a p))" for a p
    using conjunct1 [OF tally_counts [of votes order "(Map.empty, Map.empty)"], rule_format, of a p]
    by (simp only: c len) (simp add: count_of_def)
  have n6: "count_of c6 (a, p, f, s) = card (voters now v (SocketV6 a p f s))" for a p f s
    using conjunct2 [OF tally_counts [of votes order "(Map.empty, Map.empty)"], rule_format, of a p f s]
    by (simp only: c len) (simp add: count_of_def)
  define r4 where "r4 = iv_majority_of (iter_counts order4 c4) (iv_minimum_threshold v)"
  define r6 where "r6 = iv_majority_of (iter_counts order6 c6) (iv_minimum_threshold v)"
  have eq: "iv_majority now order order4 order6 v = ((r4, r6), v\<lparr>iv_votes := votes\<rparr>)"
    by (simp add: iv_majority_def votes_def [symmetric] c r4_def r6_def)
  have "\<forall>k. 0 < count_of c4 k \<longrightarrow> k \<in> set order4" "\<forall>k. 0 < count_of c6 k \<longrightarrow> k \<in> set order6"
    using assms(4,5) n4 n6 by (metis card.empty less_numeral_extra(3) surj_pair)+
  note s4 = iv_majority_of_spec [OF this(1) assms(1), folded r4_def]
    and s6 = iv_majority_of_spec [OF this(2) assms(1), folded r6_def]
  have m4: "case r4 of
       Some (a, p) \<Rightarrow> iv_minimum_threshold v \<le> card (voters now v (SocketV4 a p)) \<and>
         (\<forall>a' p'. card (voters now v (SocketV4 a' p')) \<le> card (voters now v (SocketV4 a p)))
     | None \<Rightarrow> \<forall>a p. card (voters now v (SocketV4 a p)) < iv_minimum_threshold v"
    using s4 by (cases r4) (auto simp: n4)
  have m6: "case r6 of
       Some (a, p, f, s) \<Rightarrow> iv_minimum_threshold v \<le> card (voters now v (SocketV6 a p f s)) \<and>
         (\<forall>a' p' f' s'. card (voters now v (SocketV6 a' p' f' s')) \<le> card (voters now v (SocketV6 a p f s)))
     | None \<Rightarrow> \<forall>a p f s. card (voters now v (SocketV6 a p f s)) < iv_minimum_threshold v"
    using s6 by (cases r6) (auto simp: n6)
  have "\<forall>i. iv_votes (v\<lparr>iv_votes := votes\<rparr>) i =
      (case iv_votes v i of Some (s, t) \<Rightarrow> if now < t then Some (s, t) else None | None \<Rightarrow> None)"
    by (simp add: votes_def)
  with eq m4 m6 show ?thesis by blast
qed


section \<open>Witnesses\<close>

definition ex_votes :: ip_vote where
  "ex_votes = \<lparr>iv_votes = [1 \<mapsto> (SocketV4 (10, 0, 0, 1) 9000, 20), 2 \<mapsto> (SocketV4 (10, 0, 0, 1) 9000, 30),
      3 \<mapsto> (SocketV4 (10, 0, 0, 2) 9000, 5)], iv_minimum_threshold = 2, iv_vote_duration = 10\<rparr>"

theorem ip_vote_majority_witness:
  "\<exists>r6 v'. iv_majority 7 [3, 1, 2] [((10, 0, 0, 1), 9000)] [] ex_votes = ((Some ((10, 0, 0, 1), 9000), r6), v') \<and>
     2 \<le> card (voters 7 ex_votes (SocketV4 (10, 0, 0, 1) 9000))"
proof -
  have "0 < iv_minimum_threshold ex_votes" "distinct [3, 1, 2 :: node_id]" "dom (iv_votes ex_votes) \<subseteq> set [3, 1, 2]"
    by (auto simp: ex_votes_def)
  moreover have "\<forall>a p. voters 7 ex_votes (SocketV4 a p) \<noteq> {} \<longrightarrow> (a, p) \<in> set [((10, 0, 0, 1), 9000)]"
    "\<forall>a p f s. voters 7 ex_votes (SocketV6 a p f s) \<noteq> {} \<longrightarrow> (a, p, f, s) \<in> set []"
    by (auto simp: voters_def ex_votes_def split: if_splits)
  moreover have "fst (fst (iv_majority 7 [3, 1, 2] [((10, 0, 0, 1), 9000)] [] ex_votes)) = Some ((10, 0, 0, 1), 9000)"
    by code_simp
  moreover have "iv_minimum_threshold ex_votes = 2" by (simp add: ex_votes_def)
  ultimately show ?thesis
    using ip_vote_majority [of ex_votes "[3, 1, 2]" 7 "[((10, 0, 0, 1), 9000)]" "[]"] by auto
qed

end
