(* ===== verification/Disc_Config.thy ===== *)
theory Disc_Config
  imports Disc_Packet_Filter Disc_Bucket Disc_Node_Info Disc_Predicate_Query
begin

text \<open>
  \<open>src/config.rs\<close>, the \<open>ListenConfig\<close> of \<open>src/socket/mod.rs\<close> and what the query pool takes from the
  configuration. The executor is only present or not; the estimate that sizes a metrics buffer of the rate
  limiter and the instant at which it is built are arguments of \<open>config_new\<close>. A panic is \<open>None\<close>.
\<close>

section \<open>Listening addresses\<close>

datatype listen_config =
    ListenIpv4 ipv4 u16
  | ListenIpv6 ipv6 u16
  | ListenDualStack ipv4 u16 ipv6 u16

fun listen_from_ip :: "ip_addr \<Rightarrow> u16 \<Rightarrow> listen_config" where
  "listen_from_ip (V4 ip) port = ListenIpv4 ip port"
| "listen_from_ip (V6 ip) port = ListenIpv6 ip port"

fun from_two_sockets :: "(ipv4 \<times> u16) option \<Rightarrow> (ipv6 \<times> u16 \<times> u32 \<times> u32) option \<Rightarrow> listen_config option" where
  "from_two_sockets (Some (a, p)) None = Some (ListenIpv4 a p)"
| "from_two_sockets None (Some (a, p, _, _)) = Some (ListenIpv6 a p)"
| "from_two_sockets (Some (a, p)) (Some (b, q, _, _)) = Some (ListenDualStack a p b q)"
| "from_two_sockets None None = None"

fun with_ipv4 :: "ipv4 \<Rightarrow> u16 \<Rightarrow> listen_config \<Rightarrow> listen_config" where
  "with_ipv4 ip port (ListenIpv4 _ _) = ListenIpv4 ip port"
| "with_ipv4 ip port (ListenIpv6 b q) = ListenDualStack ip port b q"
| "with_ipv4 ip port (ListenDualStack _ _ b q) = ListenDualStack ip port b q"

fun with_ipv6 :: "ipv6 \<Rightarrow> u16 \<Rightarrow> listen_config \<Rightarrow> listen_config" where
  "with_ipv6 ip port (ListenIpv6 _ _) = ListenIpv6 ip port"
| "with_ipv6 ip port (ListenIpv4 a p) = ListenDualStack a p ip port"
| "with_ipv6 ip port (ListenDualStack a p _ _) = ListenDualStack a p ip port"

definition listen_default :: listen_config where
  "listen_default = ListenIpv4 (0, 0, 0, 0) 9000"

fun listen_from_socket :: "socket_addr \<Rightarrow> listen_config" where
  "listen_from_socket (SocketV4 a p) = ListenIpv4 a p"
| "listen_from_socket (SocketV6 a p _ _) = ListenIpv6 a p"

fun new_from_listen_config :: "listen_config \<Rightarrow> ip_mode" where
  "new_from_listen_config (ListenIpv4 _ _) = Ip4"
| "new_from_listen_config (ListenIpv6 _ _) = Ip6"
| "new_from_listen_config (ListenDualStack _ _ _ _) = DualStack"

section \<open>The configuration\<close>

record 'enr config =
  enable_packet_filter :: bool
  request_timeout :: duration
  vote_duration :: duration
  query_peer_timeout :: duration
  query_timeout :: duration
  request_retries :: nat
  session_timeout :: duration
  session_cache_capacity :: nat
  enr_update :: bool
  max_nodes_response :: nat
  enr_peer_update_min :: nat
  query_parallelism :: nat
  ip_limit :: bool
  incoming_bucket_limit :: nat
  table_filter :: "'enr \<Rightarrow> bool"
  ping_interval :: duration
  report_discovered_peers :: bool
  filter_rate_limiter :: "rate_limiter option"
  filter_max_nodes_per_ip :: "nat option"
  filter_max_bans_per_ip :: "nat option"
  cfg_permit_ban_list :: permit_ban_list
  ban_duration :: "duration option"
  has_executor :: bool
  listen_config :: listen_config

definition empty_permit_ban_list :: permit_ban_list where
  "empty_permit_ban_list = \<lparr>permit_ips = {}, ban_ips = Map.empty, permit_nodes = {}, ban_nodes = Map.empty\<rparr>"

definition config_new :: "(quota \<Rightarrow> nat) \<Rightarrow> instant \<Rightarrow> listen_config \<Rightarrow> 'enr config option" where
  "config_new per_second now listen =
     (case rl_build per_second now (ip_n_every 9 SECOND (node_n_every 8 SECOND (total_n_every 10 SECOND rlb_new))) of
        Inl e \<Rightarrow> None
      | Inr limiter \<Rightarrow> Some
          \<lparr>enable_packet_filter = False, request_timeout = SECOND, vote_duration = 30 * SECOND,
           query_peer_timeout = 2 * SECOND, query_timeout = 60 * SECOND, request_retries = 1,
           session_timeout = 86400 * SECOND, session_cache_capacity = 1000, enr_update = True,
           max_nodes_response = 16, enr_peer_update_min = 10, query_parallelism = 3, ip_limit = False,
           incoming_bucket_limit = MAX_NODES_PER_BUCKET, table_filter = (\<lambda>_. True), ping_interval = 300 * SECOND,
           report_discovered_peers = True, filter_rate_limiter = Some limiter, filter_max_nodes_per_ip = Some 10,
           filter_max_bans_per_ip = Some 5, cfg_permit_ban_list = empty_permit_ban_list,
           ban_duration = Some (3600 * SECOND), has_executor = False, listen_config = listen\<rparr>)"

text \<open>The setters of the builder, each with its argument.\<close>

datatype 'enr config_op =
    EnablePacketFilter | RequestTimeout duration | VoteDuration duration | QueryPeerTimeout duration
  | QueryTimeout duration | RequestRetries nat | SessionTimeout duration | SessionCacheCapacity nat
  | DisableEnrUpdate | MaxNodesResponse nat | EnrPeerUpdateMin nat | QueryParallelism nat | IpLimit
  | IncomingBucketLimit nat | TableFilterFn "'enr \<Rightarrow> bool" | PingInterval duration | DisableReportDiscoveredPeers
  | FilterRateLimiter "rate_limiter option" | FilterMaxNodesPerIp "nat option" | FilterMaxBansPerIp "nat option"
  | PermitBanListOp permit_ban_list | BanDuration "duration option" | SetExecutor

fun config_set :: "'enr config_op \<Rightarrow> 'enr config \<Rightarrow> 'enr config option" where
  "config_set EnablePacketFilter c = Some (c\<lparr>enable_packet_filter := True\<rparr>)"
| "config_set (RequestTimeout t) c = Some (c\<lparr>request_timeout := t\<rparr>)"
| "config_set (VoteDuration t) c = Some (c\<lparr>vote_duration := t\<rparr>)"
| "config_set (QueryPeerTimeout t) c = Some (c\<lparr>query_peer_timeout := t\<rparr>)"
| "config_set (QueryTimeout t) c = Some (c\<lparr>query_timeout := t\<rparr>)"
| "config_set (RequestRetries n) c = Some (c\<lparr>request_retries := n\<rparr>)"
| "config_set (SessionTimeout t) c = Some (c\<lparr>session_timeout := t\<rparr>)"
| "config_set (SessionCacheCapacity n) c = Some (c\<lparr>session_cache_capacity := n\<rparr>)"
| "config_set DisableEnrUpdate c = Some (c\<lparr>enr_update := False\<rparr>)"
| "config_set (MaxNodesResponse n) c = Some (c\<lparr>max_nodes_response := n\<rparr>)"
| "config_set (EnrPeerUpdateMin n) c = (if n < 2 then None else Some (c\<lparr>enr_peer_update_min := n\<rparr>))"
| "config_set (QueryParallelism n) c = Some (c\<lparr>query_parallelism := n\<rparr>)"
| "config_set IpLimit c = Some (c\<lparr>ip_limit := True\<rparr>)"
| "config_set (IncomingBucketLimit n) c = Some (c\<lparr>incoming_bucket_limit := n\<rparr>)"
| "config_set (TableFilterFn f) c = Some (c\<lparr>table_filter := f\<rparr>)"
| "config_set (PingInterval t) c = Some (c\<lparr>ping_interval := t\<rparr>)"
| "config_set DisableReportDiscoveredPeers c = Some (c\<lparr>report_discovered_peers := False\<rparr>)"
| "config_set (FilterRateLimiter l) c = Some (c\<lparr>filter_rate_limiter := l\<rparr>)"
| "config_set (FilterMaxNodesPerIp n) c = Some (c\<lparr>filter_max_nodes_per_ip := n\<rparr>)"
| "config_set (FilterMaxBansPerIp n) c = Some (c\<lparr>filter_max_bans_per_ip := n\<rparr>)"
| "config_set (PermitBanListOp l) c = Some (c\<lparr>cfg_permit_ban_list := l\<rparr>)"
| "config_set (BanDuration t) c = Some (c\<lparr>ban_duration := t\<rparr>)"
| "config_set SetExecutor c = Some (c\<lparr>has_executor := True\<rparr>)"

definition config_build :: "'enr config \<Rightarrow> 'enr config option" where
  "config_build c =
     (let c = c\<lparr>has_executor := True\<rparr>
      in if incoming_bucket_limit c \<le> MAX_NODES_PER_BUCKET then Some c else None)"

fun config_ops :: "'enr config_op list \<Rightarrow> 'enr config \<Rightarrow> 'enr config option" where
  "config_ops [] c = Some c"
| "config_ops (p # ps) c = do { c \<leftarrow> config_set p c; config_ops ps c }"

section \<open>Queries\<close>

definition find_node_config :: "'enr config \<Rightarrow> query_config" where
  "find_node_config c =
     \<lparr>parallelism = query_parallelism c, num_results = MAX_NODES_PER_BUCKET, peer_timeout = query_peer_timeout c\<rparr>"

definition predicate_config :: "'enr config \<Rightarrow> query_config" where
  "predicate_config c =
     \<lparr>parallelism = query_parallelism c, num_results = MAX_NODES_PER_BUCKET, peer_timeout = query_peer_timeout c\<rparr>"

section \<open>What the builder guarantees\<close>

definition config_ok :: "'enr config \<Rightarrow> bool" where
  "config_ok c \<longleftrightarrow> 2 \<le> enr_peer_update_min c"

lemma config_ops_ok: "config_ok c \<Longrightarrow> config_ops ps c = Some c' \<Longrightarrow> config_ok c'"
proof (induction ps arbitrary: c)
  case (Cons p ps)
  then obtain c1 where c1: "config_set p c = Some c1" "config_ops ps c1 = Some c'" by (auto split: Option.bind_splits)
  with Cons.prems(1) have "config_ok c1" by (cases p) (auto simp: config_ok_def split: if_splits)
  with Cons.IH c1(2) show ?case by blast
qed simp

text \<open>
  A configuration that the builder returns never makes \<open>IpVote::new\<close> panic and respects the size of a
  bucket; the default configuration can be built, with any instant.
\<close>

lemma config_build_ok:
  assumes "config_new per_second now listen = Some c0" "config_ops ps c0 = Some c1" "config_build c1 = Some c"
  shows "2 \<le> enr_peer_update_min c \<and> incoming_bucket_limit c \<le> MAX_NODES_PER_BUCKET \<and> has_executor c"
proof -
  have "config_ok c0" using assms(1) by (auto simp: config_new_def config_ok_def split: sum.splits)
  from config_ops_ok [OF this assms(2)] assms(3) show ?thesis
    by (auto simp: config_build_def config_ok_def Let_def split: if_splits)
qed

lemma from_quota_second:
  assumes "0 < n"
  shows "from_quota \<lparr>replenish_all_every = SECOND, max_tokens = n\<rparr> =
    Inr \<lparr>lim_tau = SECOND, lim_t = SECOND div n, lim_tat = Map.empty\<rparr>"
proof -
  have s: "SECOND < U64_SIZE" "SECOND \<noteq> 0" by (simp_all add: SECOND_def U64_SIZE_def)
  moreover have "SECOND div n < U64_SIZE" by (rule le_less_trans [OF div_le_dividend s(1)])
  ultimately show ?thesis using assms by (simp add: from_quota_def u64_of_def)
qed

lemma config_new_default: "\<exists>c. config_new per_second now listen = Some c \<and> config_build c \<noteq> None"
  by (simp add: config_new_def config_build_def rl_build_def ip_n_every_def node_n_every_def total_n_every_def rlb_new_def
      optional_limiter_def from_quota_second)

end
