(* ===== verification/Disc_Service.thy ===== *)
theory Disc_Service
  imports Disc_Config Disc_Entry Disc_Closest Disc_Query_Pool Disc_Query_Info Disc_Ip_Vote Disc_Handler
begin

text \<open>
  \<open>src/service.rs\<close>: the service, which answers requests from other nodes, keeps the routing table and drives
  the queries. \<open>service_step\<close> is one pass of the loop of \<open>start\<close>; its argument is the event that \<open>select!\<close>
  picked. As in the handler a record holds what comes from outside and the state counts clock readings and
  draws; the iteration orders of hash maps and what \<open>try_send\<close> on the event stream returns are functions of
  such counts too. What is given to the handler, to the event stream and to the callbacks of the user is
  appended to \<open>sv_to_handler\<close>, \<open>sv_events\<close> and \<open>sv_replies\<close>. A callback is a number. The record of a node is
  encoded by \<open>rlp_encode_enr\<close>. A panic, also a failed \<open>debug_unreachable!\<close>, is \<open>None\<close>.
\<close>

section \<open>Types\<close>

definition DISTANCES_TO_REQUEST_PER_PEER :: nat where
  "DISTANCES_TO_REQUEST_PER_PEER = 3"

definition MAX_NODES_RESPONSES :: nat where
  "MAX_NODES_RESPONSES = (MAX_NODES_PER_BUCKET div 4 + 1) * DISTANCES_TO_REQUEST_PER_PEER"

record talk_request =
  tr_id :: request_id
  tr_node_address :: node_address
  tr_protocol :: "byte list"
  tr_body :: "byte list"

datatype 'enr event =
    EvDiscovered 'enr
  | EvEnrAdded 'enr "'enr option"
  | EvNodeInserted node_id "node_id option"
  | EvSessionEstablished 'enr socket_addr
  | EvSocketUpdated socket_addr
  | EvTalkRequest talk_request

datatype 'enr query_kind =
    KindFindNode node_id
  | KindPredicate node_id nat "'enr \<Rightarrow> bool"

datatype ('enr, 'pk) service_request =
    StartQuery "'enr query_kind" nat
  | FindNodeDesignated "('enr, 'pk) node_contact" "u64 list" nat
  | SvTalk "('enr, 'pk) node_contact" "byte list" "byte list" nat
  | SvPing 'enr "nat option"
  | RequestEventStream

record pong =
  pong_enr_seq :: u64
  pong_ip :: ip_addr
  pong_port :: u16

datatype callback_response = CbNodes nat | CbTalk nat | CbPong nat

datatype 'enr reply =
    ReplyNodes "request_error + 'enr list"
  | ReplyTalk "request_error + byte list"
  | ReplyPong "request_error + pong"
  | ReplyQuery "'enr list"

record ('enr, 'pk) active_request =
  ac_contact :: "('enr, 'pk) node_contact"
  ac_request_body :: request_body
  ac_query_id :: "u64 option"
  ac_callback :: "callback_response option"

record 'enr nodes_response =
  nr_count :: nat
  nr_received_nodes :: "'enr list"

definition nodes_response_default :: "'enr nodes_response" where
  "nodes_response_default = \<lparr>nr_count = 1, nr_received_nodes = []\<rparr>"

datatype 'enr connection_status = StConnected 'enr connection_direction | StPongReceived 'enr | StDisconnected

text \<open>The target of a query holds the callback.\<close>

record 'enr query_target =
  qt_info :: "'enr query_info"
  qt_callback :: nat

text \<open>\<open>HashSetDelay\<close> of the \<open>delay_map\<close> crate: a set whose members expire.\<close>

record ('m, 'k) delay_set =
  ds_new :: "duration \<Rightarrow> 'm"
  ds_insert :: "instant \<Rightarrow> 'k \<Rightarrow> 'm \<Rightarrow> 'm"
  ds_remove :: "'k \<Rightarrow> 'm \<Rightarrow> 'm"
  ds_contains :: "'k \<Rightarrow> 'm \<Rightarrow> bool"
  ds_poll :: "instant \<Rightarrow> 'm \<Rightarrow> ('k, unit) polled \<times> 'm"

datatype send_outcome = SendOk | SendFull | SendClosed

record ('enr, 'pk, 'e, 'mp) service_env =
  se_ops :: "('enr, 'pk) enr_ops"
  se_codec :: "('enr, 'e) enr_codec"
  se_set_udp_socket :: "socket_addr \<Rightarrow> 'enr \<Rightarrow> 'enr option"
  se_ping_set :: "('mp, node_id) delay_set"
  se_clock :: "nat \<Rightarrow> instant"
  se_request_id :: "nat \<Rightarrow> request_id"
  se_try_send :: "nat \<Rightarrow> send_outcome"
  se_query_order :: "nat \<Rightarrow> (u64 \<rightharpoonup> ('enr query_target, node_id, 'enr) query) \<Rightarrow> u64 list"
  se_vote_orders :: "nat \<Rightarrow> ip_vote \<Rightarrow> node_id list \<times> sock4 list \<times> sock6 list"

record ('enr, 'pk, 'mp) service =
  sv_config :: "'enr config"
  sv_local_enr :: 'enr
  sv_kbuckets :: "(node_id, 'enr) kbuckets_table"
  sv_queries :: "('enr query_target, node_id, 'enr) query_pool"
  sv_active_requests :: "request_id \<rightharpoonup> ('enr, 'pk) active_request"
  sv_active_nodes_responses :: "request_id \<rightharpoonup> 'enr nodes_response"
  sv_ip_votes :: "ip_vote option"
  sv_peers_to_ping :: 'mp
  sv_event_stream :: bool
  sv_ip_mode :: ip_mode
  sv_permit_ban :: permit_ban_list
  sv_handler_open :: bool
  sv_to_handler :: "('enr, 'pk) handler_in list"
  sv_events :: "'enr event list"
  sv_replies :: "(nat \<times> 'enr reply) list"
  sv_reads :: nat
  sv_draws :: nat
  sv_tries :: nat

definition service_spawn ::
  "('enr, 'pk, 'e, 'mp) service_env \<Rightarrow> 'enr \<Rightarrow> (node_id, 'enr) kbuckets_table \<Rightarrow> permit_ban_list \<Rightarrow> 'enr config
     \<Rightarrow> ('enr, 'pk, 'mp) service option" where
  "service_spawn E local_enr kbuckets permit_ban config =
     do {
       ip_votes \<leftarrow> (if enr_update config then map_option Some (iv_new (enr_peer_update_min config) (vote_duration config))
                   else Some None);
       _ \<leftarrow> (if has_executor config then Some () else None);
       Some \<lparr>sv_config = config, sv_local_enr = local_enr, sv_kbuckets = kbuckets,
             sv_queries = qpool_new (query_timeout config), sv_active_requests = Map.empty,
             sv_active_nodes_responses = Map.empty, sv_ip_votes = ip_votes,
             sv_peers_to_ping = ds_new (se_ping_set E) (ping_interval config), sv_event_stream = False,
             sv_ip_mode = new_from_listen_config (listen_config config), sv_permit_ban = permit_ban,
             sv_handler_open = True, sv_to_handler = [], sv_events = [], sv_replies = [],
             sv_reads = 0, sv_draws = 0, sv_tries = 0\<rparr>
     }"

section \<open>Clock, channels and the table\<close>

definition sv_tick where
  "sv_tick E s = (se_clock E (sv_reads s), s\<lparr>sv_reads := Suc (sv_reads s)\<rparr>)"

text \<open>Operations that walk through the table read the clock for the buckets they enter.\<close>

definition sv_ticks where
  "sv_ticks E s = ((\<lambda>i. se_clock E (sv_reads s + i)), s\<lparr>sv_reads := sv_reads s + NUM_BUCKETS\<rparr>)"

definition handler_send where
  "handler_send m s = (if sv_handler_open s then (True, s\<lparr>sv_to_handler := sv_to_handler s @ [m]\<rparr>) else (False, s))"

definition reply where
  "reply cb r s = s\<lparr>sv_replies := sv_replies s @ [(cb, r)]\<rparr>"

definition ping_insert where
  "ping_insert E i s =
     (let (now, s) = sv_tick E s in s\<lparr>sv_peers_to_ping := ds_insert (se_ping_set E) now i (sv_peers_to_ping s)\<rparr>)"

definition ping_remove where
  "ping_remove E i s = s\<lparr>sv_peers_to_ping := ds_remove (se_ping_set E) i (sv_peers_to_ping s)\<rparr>"

text \<open>Dropping a request for a TALK response answers it with an empty one.\<close>

definition talk_drop where
  "talk_drop r s = snd (handler_send (InResponse (tr_node_address r) \<lparr>resp_id = tr_id r, resp_body = TalkResp []\<rparr>) s)"

definition talk_respond where
  "talk_respond r response s =
     handler_send (InResponse (tr_node_address r) \<lparr>resp_id = tr_id r, resp_body = TalkResp response\<rparr>) s"

fun drop_event where
  "drop_event (EvTalkRequest r) s = talk_drop r s"
| "drop_event _ s = s"

definition send_event where
  "send_event E event s =
     (if sv_event_stream s then
        let n = sv_tries s; s = s\<lparr>sv_tries := Suc n\<rparr>
        in case se_try_send E n of
             SendOk \<Rightarrow> s\<lparr>sv_events := sv_events s @ [event]\<rparr>
           | SendFull \<Rightarrow> drop_event event s
           | SendClosed \<Rightarrow> drop_event event (s\<lparr>sv_event_stream := False\<rparr>)
      else drop_event event s)"

text \<open>What \<open>entry\<close> shows of a key: the record and the status.\<close>

datatype 'enr view = ViewPresent 'enr node_status | ViewPending 'enr | ViewOther

definition table_entry where
  "table_entry E key s =
     do {
       let (now, s) = sv_tick E s;
       (entry, t) \<leftarrow> kt_entry now key (sv_kbuckets s);
       let s = s\<lparr>sv_kbuckets := t\<rparr>;
       case entry of
         Present status \<Rightarrow> do { b \<leftarrow> kt_get_bucket key t; v \<leftarrow> present_value key b; Some (ViewPresent v status, s) }
       | Pending status \<Rightarrow> do { b \<leftarrow> kt_get_bucket key t; p \<leftarrow> kb_pending b; Some (ViewPending (n_value (pn_node p)), s) }
       | _ \<Rightarrow> Some (ViewOther, s)
     }"

definition sv_update_node where
  "sv_update_node E key enr state s =
     (let (now1, s) = sv_tick E s; (now2, s) = sv_tick E s
      in do {
        (r, t) \<leftarrow> kt_update_node now1 now2 key enr state (sv_kbuckets s);
        Some (r, s\<lparr>sv_kbuckets := t\<rparr>)
      })"

section \<open>Sending requests\<close>

definition send_rpc_request where
  "send_rpc_request E request s =
     (let i = se_request_id E (sv_draws s);
          s = s\<lparr>sv_draws := Suc (sv_draws s)\<rparr>;
          (ok, s) = handler_send (InRequest (ac_contact request) \<lparr>req_id = i, req_body = ac_request_body request\<rparr>) s
      in if ok then s\<lparr>sv_active_requests := (sv_active_requests s)(i \<mapsto> request)\<rparr> else s)"

definition send_ping where
  "send_ping E enr callback s =
     (case try_from_enr (se_ops E) enr (sv_ip_mode s) of
        Inr contact \<Rightarrow>
          send_rpc_request E \<lparr>ac_contact = contact, ac_request_body = Ping (enr_seq (se_ops E) (sv_local_enr s)),
            ac_query_id = None, ac_callback = map_option CbPong callback\<rparr> s
      | Inl _ \<Rightarrow> s)"

definition ping_connected_peers where
  "ping_connected_peers E s =
     (let (clock, s) = sv_ticks E s
      in do {
        (nodes, t) \<leftarrow> kt_iter clock (sv_kbuckets s);
        let s = s\<lparr>sv_kbuckets := t\<rparr>;
        Some (fold (\<lambda>n. send_ping E (n_value n) None) (filter (\<lambda>n. is_connected (n_status n)) nodes) s)
      })"

definition request_find_node_designated_peer where
  "request_find_node_designated_peer E contact distances callback s =
     send_rpc_request E \<lparr>ac_contact = contact, ac_request_body = request_body.FindNode distances, ac_query_id = None,
       ac_callback = map_option CbNodes callback\<rparr> s"

definition service_talk_request where
  "service_talk_request E contact protocol request callback s =
     send_rpc_request E \<lparr>ac_contact = contact, ac_request_body = TalkReq protocol request, ac_query_id = None,
       ac_callback = Some (CbTalk callback)\<rparr> s"

section \<open>Queries\<close>

fun find_untrusted where
  "find_untrusted N qs [] i = None"
| "find_untrusted N qs (qid # order) i =
     (case qs qid of
        None \<Rightarrow> find_untrusted N qs order i
      | Some q \<Rightarrow>
          (case find (\<lambda>enr. enr_node_id N enr = i) (untrusted_enrs (qt_info (q_target q))) of
             Some enr \<Rightarrow> Some enr
           | None \<Rightarrow> find_untrusted N qs order i))"

definition find_enr where
  "find_enr E i s =
     do {
       (view, s) \<leftarrow> table_entry E (key_from_node_id i) s;
       case view of
         ViewPresent enr _ \<Rightarrow> Some (Some enr, s)
       | _ \<Rightarrow>
           let qs = qpool_queries (sv_queries s)
           in Some (find_untrusted (se_ops E) qs (se_query_order E (sv_reads s) qs) i, s)
     }"

definition query_failed where
  "query_failed query_id peer s =
     (case qpool_get query_id (sv_queries s) of
        None \<Rightarrow> Some s
      | Some q \<Rightarrow> do {
          q \<leftarrow> query_on_failure key_from_node_id peer q;
          Some (s\<lparr>sv_queries := (sv_queries s)\<lparr>qpool_queries := (qpool_queries (sv_queries s))(query_id \<mapsto> q)\<rparr>\<rparr>)
        })"

definition send_rpc_query where
  "send_rpc_query E query_id return_peer request_body s =
     do {
       (enr, s) \<leftarrow> find_enr E return_peer s;
       case map_option (\<lambda>enr. try_from_enr (se_ops E) enr (sv_ip_mode s)) enr of
         Some (Inr contact) \<Rightarrow>
           Some (send_rpc_request E \<lparr>ac_contact = contact, ac_request_body = request_body, ac_query_id = Some query_id,
             ac_callback = None\<rparr> s)
       | _ \<Rightarrow> query_failed query_id return_peer s
     }"

text \<open>A loop over an iterator of closest entries until it ends.\<close>

definition ci_left :: "('id, 'v, 'out) closest_iter \<Rightarrow> nat" where
  "ci_left it = (case ci_iter it of None \<Rightarrow> 0 | Some ks \<Rightarrow> length ks)"

lemma ci_next_less:
  "ci_next clock fmap key_of it = Some (Some k, it') \<Longrightarrow>
     cb_rank (ci_buckets it') < cb_rank (ci_buckets it) \<or>
     cb_rank (ci_buckets it') = cb_rank (ci_buckets it) \<and> ci_left it' < ci_left it"
proof (induction clock fmap key_of it rule: ci_next.induct)
  case (1 clock fmap key_of it)
  show ?case
  proof (cases "ci_iter it")
    case (Some ks)
    show ?thesis
    proof (cases ks)
      case Nil
      with Some "1.prems" have "ci_next clock fmap key_of (it\<lparr>ci_iter := None\<rparr>) = Some (Some k, it')"
        by (subst (asm) ci_next.simps) simp
      from "1.IH"(2) [OF Some Nil this] show ?thesis by (simp add: ci_left_def)
    next
      case (Cons x xs)
      with Some "1.prems" show ?thesis by (subst (asm) ci_next.simps) (auto simp: ci_left_def)
    qed
  next
    case None
    obtain r st where n: "cb_next (ci_distance it) (ci_buckets it) = (r, st)" by fastforce
    with None "1.prems" obtain i where i: "r = Some i" by (subst (asm) ci_next.simps) (auto split: option.splits)
    with None n "1.prems" obtain a t b where t: "kt_apply_pending (clock i) i (ci_table it) = Some (a, t)" "vec_get i (kt_buckets t) = Some b"
      by (subst (asm) ci_next.simps) (auto split: option.splits)
    let ?it = "it\<lparr>ci_buckets := st, ci_table := t,
       ci_iter := Some (sort_key (\<lambda>a. ci_target it XOR hash (key_of a)) (map fmap (kb_nodes b)))\<rparr>"
    have "ci_next clock fmap key_of ?it = Some (Some k, it')"
      using "1.prems" None n i t by (subst (asm) ci_next.simps) simp
    from "1.IH"(1) [OF None n [symmetric] i t(1) refl t(2) this] cb_rank_next [OF n [unfolded i]] show ?thesis by auto
  qed
qed

function ci_all ::
  "(nat \<Rightarrow> instant) \<Rightarrow> (('id, 'v) node \<Rightarrow> 'out) \<Rightarrow> ('out \<Rightarrow> 'id key) \<Rightarrow> ('id, 'v, 'out) closest_iter
     \<Rightarrow> ('out list \<times> ('id, 'v) kbuckets_table) option" where
  "ci_all clock fmap key_of it =
     (case ci_next clock fmap key_of it of
        None \<Rightarrow> None
      | Some (None, it') \<Rightarrow> Some ([], ci_table it')
      | Some (Some k, it') \<Rightarrow>
          (case ci_all clock fmap key_of it' of
             None \<Rightarrow> None
           | Some (ks, t) \<Rightarrow> Some (k # ks, t)))"
  by pat_completeness auto

termination
  by (relation "inv_image (less_than <*lex*> less_than) (\<lambda>(clock, fmap, key_of, it). (cb_rank (ci_buckets it), ci_left it))")
    (auto dest!: ci_next_less)

declare ci_all.simps [simp del]

definition start_findnode_query where
  "start_findnode_query E target_node callback s =
     (let info = \<lparr>query_type = QueryFindNode target_node, untrusted_enrs = [],
                  distances_to_request = DISTANCES_TO_REQUEST_PER_PEER\<rparr>;
          target_key = qi_key info;
          (clock, s) = sv_ticks E s
      in do {
        (closest, t) \<leftarrow> ci_all clock (\<lambda>m. (n_key m, n_value m)) fst (ci_new target_key (sv_kbuckets s));
        let s = s\<lparr>sv_kbuckets := t\<rparr>;
        let target = \<lparr>qt_info = info\<lparr>untrusted_enrs := map snd closest\<rparr>, qt_callback = callback\<rparr>;
        let known_closest_peers = map fst closest;
        Some (if known_closest_peers = [] then reply callback (ReplyQuery []) s
              else s\<lparr>sv_queries := snd (qpool_add_findnode_query (\<lambda>t. qi_key (qt_info t)) (find_node_config (sv_config s))
                       target known_closest_peers (sv_queries s))\<rparr>)
      })"

definition start_predicate_query where
  "start_predicate_query E target_node num_nodes predicate callback s =
     (let info = \<lparr>query_type = QueryFindNode target_node, untrusted_enrs = [],
                  distances_to_request = DISTANCES_TO_REQUEST_PER_PEER\<rparr>;
          target_key = qi_key info;
          (clock, s) = sv_ticks E s
      in do {
        (closest, t) \<leftarrow> ci_all clock
          (\<lambda>m. \<lparr>pv_key = n_key m, pv_predicate_match = predicate (n_value m), pv_value = n_value m\<rparr>) pv_key
          (ci_new target_key (sv_kbuckets s));
        let s = s\<lparr>sv_kbuckets := t\<rparr>;
        let target = \<lparr>qt_info = info\<lparr>untrusted_enrs := map pv_value closest\<rparr>, qt_callback = callback\<rparr>;
        let known_closest_peers = map (\<lambda>c. \<lparr>pk_key = pv_key c, pk_predicate_match = pv_predicate_match c\<rparr>) closest;
        Some (if known_closest_peers = [] then reply callback (ReplyQuery []) s
              else s\<lparr>sv_queries := snd (qpool_add_predicate_query (\<lambda>t. qi_key (qt_info t))
                       ((predicate_config (sv_config s))\<lparr>num_results := num_nodes\<rparr>)
                       target known_closest_peers predicate (sv_queries s))\<rparr>)
      })"

text \<open>\<open>Vec::swap_remove\<close>: the last element takes the place of the removed one.\<close>

definition swap_remove :: "nat \<Rightarrow> 'a list \<Rightarrow> ('a \<times> 'a list) option" where
  "swap_remove i xs =
     (if i < length xs then Some (xs ! i, butlast (xs[i := last xs])) else None)"

fun found_enrs where
  "found_enrs E [] untrusted s = Some ([], s)"
| "found_enrs E (i # is) untrusted s =
     (case position (\<lambda>enr. enr_node_id (se_ops E) enr = i) untrusted of
        Some pos \<Rightarrow> do {
          (enr, untrusted) \<leftarrow> swap_remove pos untrusted;
          (enrs, s) \<leftarrow> found_enrs E is untrusted s;
          Some (enr # enrs, s)
        }
      | None \<Rightarrow> do {
          (enr, s) \<leftarrow> find_enr E i s;
          (enrs, s) \<leftarrow> found_enrs E is untrusted s;
          Some (case enr of Some enr \<Rightarrow> enr # enrs | None \<Rightarrow> enrs, s)
        })"

definition query_ended where
  "query_ended E q s =
     (case query_into_result q of (target, closest_peers) \<Rightarrow> do {
        (enrs, s) \<leftarrow> found_enrs E closest_peers (untrusted_enrs (qt_info target)) s;
        Some (reply (qt_callback target) (ReplyQuery enrs) s)
      })"

definition query_event where
  "query_event E s =
     (let (now, s) = sv_tick E s; qs = qpool_queries (sv_queries s)
      in do {
        (state, pool) \<leftarrow> qpool_poll now (se_query_order E (sv_reads s) qs) (sv_queries s);
        let s = s\<lparr>sv_queries := pool\<rparr>;
        case state of
          PoolFinished q \<Rightarrow> query_ended E q s
        | PoolTimeout q \<Rightarrow> query_ended E q s
        | PoolWaiting (Some (qid, peer)) \<Rightarrow> do {
            q \<leftarrow> qpool_get qid pool;
            request_body \<leftarrow> qi_rpc_request (qt_info (q_target q)) peer;
            send_rpc_query E qid peer request_body s
          }
        | _ \<Rightarrow> Some s
      })"

section \<open>Discovered records\<close>

definition discovered_one where
  "discovered_one E source enr s =
     (let N = se_ops E; i = enr_node_id N enr
      in if i = enr_node_id N (sv_local_enr s) then Some (False, s)
         else
           let s = (if report_discovered_peers (sv_config s) then send_event E (EvDiscovered enr) s else s)
           in if table_filter (sv_config s) enr then do {
                (view, s) \<leftarrow> table_entry E (key_from_node_id i) s;
                let must_update_enr = (case view of
                  ViewPresent known _ \<Rightarrow> enr_seq N known < enr_seq N enr
                | ViewPending known \<Rightarrow> enr_seq N known < enr_seq N enr
                | ViewOther \<Rightarrow> False);
                if must_update_enr then do {
                  (r, s) \<leftarrow> sv_update_node E (key_from_node_id i) enr None s;
                  Some (case r of UFailed _ \<Rightarrow> (False, ping_remove E i s) | _ \<Rightarrow> (source \<noteq> i, s))
                }
                else Some (source \<noteq> i, s)
              }
              else Some (False, s))"

fun discovered_retain where
  "discovered_retain E source [] s = Some ([], s)"
| "discovered_retain E source (enr # enrs) s = do {
     (keep, s) \<leftarrow> discovered_one E source enr s;
     (kept, s) \<leftarrow> discovered_retain E source enrs s;
     Some (if keep then enr # kept else kept, s)
   }"

definition add_untrusted where
  "add_untrusted N enr q =
     (let info = qt_info (q_target q)
      in if \<exists>e\<in>set (untrusted_enrs info). enr_node_id N e = enr_node_id N enr then q
         else q\<lparr>q_target := (q_target q)\<lparr>qt_info := info\<lparr>untrusted_enrs := untrusted_enrs info @ [enr]\<rparr>\<rparr>\<rparr>)"

definition discovered where
  "discovered E source enrs query_id s =
     do {
       (enrs, s) \<leftarrow> discovered_retain E source enrs s;
       case query_id of
         None \<Rightarrow> Some s
       | Some qid \<Rightarrow>
           (case qpool_get qid (sv_queries s) of
              None \<Rightarrow> Some s
            | Some q \<Rightarrow> do {
                q \<leftarrow> query_on_success key_from_node_id (enr_node_id (se_ops E)) source enrs
                  (fold (add_untrusted (se_ops E)) enrs q);
                Some (s\<lparr>sv_queries := (sv_queries s)\<lparr>qpool_queries := (qpool_queries (sv_queries s))(qid \<mapsto> q)\<rparr>\<rparr>)
              })
     }"

section \<open>Connections\<close>

definition insert_connected where
  "insert_connected E i enr direction s =
     (let (now1, s) = sv_tick E s; (now2, s) = sv_tick E s
      in do {
        (r, t) \<leftarrow> kt_insert_or_update now1 now2 (key_from_node_id i) enr \<lparr>st_direction = direction, st_state = Connected\<rparr>
          (sv_kbuckets s);
        Some (r, s\<lparr>sv_kbuckets := t\<rparr>)
      })"

definition set_disconnected where
  "set_disconnected E i s =
     (let (now1, s) = sv_tick E s; (now2, s) = sv_tick E s
      in do {
        (_, t) \<leftarrow> kt_update_node_status now1 now2 (key_from_node_id i) Disconnected None (sv_kbuckets s);
        Some (s\<lparr>sv_kbuckets := t\<rparr>)
      })"

definition ping_disconnected where
  "ping_disconnected E key s =
     do {
       (view, s) \<leftarrow> table_entry E key s;
       Some (case view of ViewPresent enr _ \<Rightarrow> send_ping E enr None s | _ \<Rightarrow> s)
     }"

definition connection_updated where
  "connection_updated E i new_status s =
     (case new_status of
        StConnected enr direction \<Rightarrow> do {
          (r, s) \<leftarrow> insert_connected E i enr direction s;
          case r of
            TInserted \<Rightarrow>
              let s = ping_insert E i s;
                  s = (if direction = Outgoing then send_ping E enr None s else s)
              in Some (send_event E (EvNodeInserted i None) s)
          | TPending key \<Rightarrow> ping_disconnected E key s
          | TStatusUpdated promoted \<Rightarrow> Some (if promoted then ping_insert E i s else s)
          | TUpdated promoted \<Rightarrow> Some (if promoted then ping_insert E i s else s)
          | TFailed _ \<Rightarrow> Some (ping_remove E i s)
          | _ \<Rightarrow> Some s
        }
      | StPongReceived enr \<Rightarrow> do {
          (r, s) \<leftarrow> sv_update_node E (key_from_node_id i) enr (Some Connected) s;
          Some (case r of UFailed _ \<Rightarrow> ping_remove E i s | _ \<Rightarrow> s)
        }
      | StDisconnected \<Rightarrow> map_option (ping_remove E i) (set_disconnected E i s))"

definition inject_session_established where
  "inject_session_established E enr connection_direction s =
     (if get_contactable_addr (se_ops E) (sv_ip_mode s) enr = None then Some s
      else
        let i = enr_node_id (se_ops E) enr;
            key = key_from_node_id i;
            direction = (case map_option (kb_get key) (kt_get_bucket key (sv_kbuckets s)) of
              Some (Some node) \<Rightarrow> st_direction (n_status node)
            | _ \<Rightarrow> connection_direction)
        in connection_updated E i (StConnected enr direction) s)"

section \<open>Answering requests\<close>

fun dedup_adjacent :: "'a list \<Rightarrow> 'a list" where
  "dedup_adjacent (x # y # xs) = (if x = y then dedup_adjacent (y # xs) else x # dedup_adjacent (y # xs))"
| "dedup_adjacent xs = xs"

text \<open>The packing loop: the finished responses, the nodes of the last one and their size.\<close>

fun pack_nodes :: "('enr, 'e) enr_codec \<Rightarrow> 'enr list \<Rightarrow> 'enr list list \<Rightarrow> 'enr list \<Rightarrow> nat \<Rightarrow> 'enr list list" where
  "pack_nodes C [] packed current total_size = packed @ [current]"
| "pack_nodes C (enr # enrs) packed current total_size =
     (let entry_size = length (rlp_encode_enr C enr)
      in if entry_size + total_size < MAX_PACKET_SIZE - 104
         then pack_nodes C enrs packed (current @ [enr]) (total_size + entry_size)
         else pack_nodes C enrs (packed @ [current]) [enr] entry_size)"

definition nodes_to_send where
  "nodes_to_send E requester distances s =
     (let distances = dedup_adjacent (sort distances);
          own = (case distances of d # _ \<Rightarrow> if d = 0 then [sv_local_enr s] else [] | [] \<Rightarrow> []);
          distances = (case distances of d # ds \<Rightarrow> if d = 0 then ds else distances | [] \<Rightarrow> [])
      in if distances = [] then Some (own, s)
         else
           let (clock, s) = sv_ticks E s
           in do {
             (nodes, t) \<leftarrow> kt_nodes_by_distances clock (map unat distances) (max_nodes_response (sv_config s)) (sv_kbuckets s);
             Some (own @ map n_value (filter (\<lambda>n. preimage (n_key n) \<noteq> requester) nodes), s\<lparr>sv_kbuckets := t\<rparr>)
           })"

definition nodes_responses :: "('enr, 'e) enr_codec \<Rightarrow> request_id \<Rightarrow> 'enr list \<Rightarrow> 'enr response list" where
  "nodes_responses C rpc_id nodes =
     (if nodes = [] then [\<lparr>resp_id = rpc_id, resp_body = Nodes 1 []\<rparr>]
      else
        let to_send = pack_nodes C nodes [] [] 0
        in map (\<lambda>ns. \<lparr>resp_id = rpc_id, resp_body = Nodes (of_nat (length to_send)) ns\<rparr>) to_send)"

definition send_nodes_response where
  "send_nodes_response E addr rpc_id distances s =
     do {
       (nodes, s) \<leftarrow> nodes_to_send E (na_node_id addr) distances s;
       Some (fold (\<lambda>r s. snd (handler_send (InResponse addr r) s)) (nodes_responses (se_codec E) rpc_id nodes) s)
     }"

definition handle_rpc_request where
  "handle_rpc_request E addr request s =
     (case req_body request of
        request_body.FindNode distances \<Rightarrow> send_nodes_response E addr (req_id request) distances s
      | Ping seq \<Rightarrow> do {
          (view, s) \<leftarrow> table_entry E (key_from_node_id (na_node_id addr)) s;
          let to_request_enr = (case view of
            ViewPresent enr _ \<Rightarrow> if enr_seq (se_ops E) enr < seq then Some enr else None
          | ViewPending enr \<Rightarrow> if enr_seq (se_ops E) enr < seq then Some enr else None
          | ViewOther \<Rightarrow> None);
          s \<leftarrow> (case map_option (\<lambda>enr. try_from_enr (se_ops E) enr (sv_ip_mode s)) to_request_enr of
                 None \<Rightarrow> Some s
               | Some (Inr contact) \<Rightarrow> Some (request_find_node_designated_peer E contact [0] None s)
               | Some (Inl _) \<Rightarrow> None);
          let src = na_socket_addr addr;
          Some (if sa_port src \<noteq> 0
                then snd (handler_send (InResponse addr \<lparr>resp_id = req_id request,
                  resp_body = Pong (enr_seq (se_ops E) (sv_local_enr s)) (sa_ip src) (sa_port src)\<rparr>) s)
                else s)
        }
      | TalkReq protocol body \<Rightarrow>
          Some (send_event E (EvTalkRequest \<lparr>tr_id = req_id request, tr_node_address = addr, tr_protocol = protocol,
            tr_body = body\<rparr>) s))"

section \<open>Responses\<close>

definition ban where
  "ban E addr s =
     (let (ban_timeout, s) = (case ban_duration (sv_config s) of
            None \<Rightarrow> (None, s)
          | Some v \<Rightarrow> let (now, s) = sv_tick E s in (Some (now + v), s))
      in s\<lparr>sv_permit_ban := pb_ban addr ban_timeout (sv_permit_ban s)\<rparr>)"

definition at_distances where
  "at_distances N i distances enr =
     (case log2_distance (key_from_node_id i) (key_from_node_id (enr_node_id N enr)) of
        Some d \<Rightarrow> of_nat d \<in> set distances
      | None \<Rightarrow> False)"

definition filter_nodes where
  "filter_nodes E addr distances nodes s =
     (let N = se_ops E; i = na_node_id addr
      in if distances = [0] then
           if 1 < length nodes
           then (filter (\<lambda>enr. log2_distance (key_from_node_id i) (key_from_node_id (enr_node_id N enr)) = None) nodes, ban E addr s)
           else (nodes, s)
         else
           let kept = filter (at_distances N i distances) nodes
           in (kept, if length kept < length nodes then ban E addr s else s))"

definition handle_nodes where
  "handle_nodes E addr i active n_total nodes s =
     (case ac_request_body active of
        request_body.FindNode distances \<Rightarrow>
          (case ac_callback active of
             Some (CbNodes callback) \<Rightarrow> Some (reply callback (ReplyNodes (Inr nodes)) s)
           | _ \<Rightarrow>
               let active = active\<lparr>ac_callback := None\<rparr>;
                   (nodes, s) = filter_nodes E addr distances nodes s;
                   current = (case sv_active_nodes_responses s i of Some c \<Rightarrow> c | None \<Rightarrow> nodes_response_default);
                   cleared = s\<lparr>sv_active_nodes_responses := (sv_active_nodes_responses s)(i := None)\<rparr>
               in if 1 < n_total then
                    if length (nr_received_nodes current) < max_nodes_response (sv_config s) \<and>
                       of_nat (nr_count current) < (n_total :: u64) \<and> nr_count current < MAX_NODES_RESPONSES
                    then Some (s\<lparr>sv_active_nodes_responses := (sv_active_nodes_responses s)(i \<mapsto>
                                  \<lparr>nr_count = nr_count current + 1, nr_received_nodes = nr_received_nodes current @ nodes\<rparr>),
                                sv_active_requests := (sv_active_requests s)(i \<mapsto> active)\<rparr>)
                    else discovered E (na_node_id addr) (nr_received_nodes current @ nodes) (ac_query_id active) cleared
                  else discovered E (na_node_id addr) nodes (ac_query_id active) cleared)
      | _ \<Rightarrow> None)"

definition update_local_socket where
  "update_local_socket E socket s =
     (case se_set_udp_socket E socket (sv_local_enr s) of
        Some enr \<Rightarrow> (True, send_event E (EvSocketUpdated socket) (s\<lparr>sv_local_enr := enr\<rparr>))
      | None \<Rightarrow> (False, s))"

definition update_sockets where
  "update_sockets E new4 new6 s =
     (let (updated6, s) = (case new6 of Some m \<Rightarrow> update_local_socket E (v6_socket m) s | None \<Rightarrow> (False, s));
          (updated4, s) = (case new4 of Some m \<Rightarrow> update_local_socket E (v4_socket m) s | None \<Rightarrow> (False, s))
      in if updated6 \<or> updated4 then ping_connected_peers E s else Some s)"

definition count_vote where
  "count_vote E i socket s =
     (case sv_ip_votes s of
        None \<Rightarrow> Some s
      | Some votes \<Rightarrow>
          let N = se_ops E;
              (local4, local6) = (enr_udp4_socket N (sv_local_enr s), enr_udp6_socket N (sv_local_enr s));
              (now1, s) = sv_tick E s;
              votes = iv_insert now1 i socket votes;
              (now2, s) = sv_tick E s;
              (order, order4, order6) = se_vote_orders E (sv_reads s) votes;
              ((majority4, majority6), votes) = iv_majority now2 order order4 order6 votes;
              s = s\<lparr>sv_ip_votes := Some votes\<rparr>;
              new4 = (case majority4 of Some m \<Rightarrow> if Some m \<noteq> local4 then Some m else None | None \<Rightarrow> None);
              new6 = (case majority6 of Some m \<Rightarrow> if Some m \<noteq> local6 then Some m else None | None \<Rightarrow> None)
          in if new4 \<noteq> None \<or> new6 \<noteq> None then update_sockets E new4 new6 s else Some s)"

fun socket_of :: "ip_addr \<Rightarrow> u16 \<Rightarrow> socket_addr" where
  "socket_of (V4 a) port = SocketV4 a port"
| "socket_of (V6 a) port = SocketV6 a port 0 0"

definition handle_pong where
  "handle_pong E addr active seq ip port s =
     (case ac_callback active of
        Some (CbPong callback) \<Rightarrow>
          Some (reply callback (ReplyPong (Inr \<lparr>pong_enr_seq = seq, pong_ip = ip, pong_port = port\<rparr>)) s)
      | _ \<Rightarrow>
          let i = na_node_id addr
          in do {
            (view, s) \<leftarrow> table_entry E (key_from_node_id i) s;
            let should_count = (case view of ViewPresent _ status \<Rightarrow> is_connected status \<and> \<not> is_incoming status | _ \<Rightarrow> False);
            s \<leftarrow> (if should_count then count_vote E i (socket_of ip port) s else Some s);
            (enr, s) \<leftarrow> find_enr E i s;
            case enr of
              None \<Rightarrow> Some s
            | Some enr \<Rightarrow>
                let s = (if enr_seq (se_ops E) enr < seq
                         then send_rpc_request E \<lparr>ac_contact = ac_contact active, ac_request_body = request_body.FindNode [0],
                           ac_query_id = None, ac_callback = None\<rparr> s
                         else s)
                in connection_updated E i (StPongReceived enr) s
          })"

definition handle_talk where
  "handle_talk active response s =
     (case ac_callback active of
        Some (CbTalk callback) \<Rightarrow> reply callback (ReplyTalk (Inr response)) s
      | _ \<Rightarrow> s)"

definition handle_rpc_response where
  "handle_rpc_response E addr response s =
     (let i = resp_id response
      in case sv_active_requests s i of
           None \<Rightarrow> Some s
         | Some active \<Rightarrow>
             let s = s\<lparr>sv_active_requests := (sv_active_requests s)(i := None)\<rparr>
             in if nc_node_address (se_ops E) (ac_contact active) \<noteq> addr then None
                else if \<not> match_request response (ac_request_body active) then Some s
                else (case resp_body response of
                        Nodes n_total nodes \<Rightarrow> handle_nodes E addr i active n_total nodes s
                      | Pong seq ip port \<Rightarrow> handle_pong E addr active seq ip port s
                      | TalkResp talk \<Rightarrow> Some (handle_talk active talk s)))"

section \<open>Failed requests\<close>

fun reply_error where
  "reply_error (CbNodes callback) error s = reply callback (ReplyNodes (Inl error)) s"
| "reply_error (CbTalk callback) error s = reply callback (ReplyTalk (Inl error)) s"
| "reply_error (CbPong callback) error s = reply callback (ReplyPong (Inl error)) s"

definition query_id_failed where
  "query_id_failed query_id peer s = (case query_id of Some qid \<Rightarrow> query_failed qid peer s | None \<Rightarrow> Some s)"

definition rpc_failure where
  "rpc_failure E i error s =
     (case sv_active_requests s i of
        None \<Rightarrow> Some s
      | Some active \<Rightarrow>
          let s = s\<lparr>sv_active_requests := (sv_active_requests s)(i := None)\<rparr>;
              peer = nc_node_id (se_ops E) (ac_contact active)
          in (case ac_callback active of
                Some callback \<Rightarrow> Some (reply_error callback error s)
              | None \<Rightarrow> do {
                 s \<leftarrow> (case ac_request_body active of
                        request_body.FindNode _ \<Rightarrow>
                          (case sv_active_nodes_responses s i of
                             Some partial \<Rightarrow>
                               let s = s\<lparr>sv_active_nodes_responses := (sv_active_nodes_responses s)(i := None)\<rparr>
                               in if nr_received_nodes partial \<noteq> []
                                  then discovered E peer (nr_received_nodes partial) (ac_query_id active) s
                                  else Some s
                           | None \<Rightarrow> query_id_failed (ac_query_id active) peer s)
                      | _ \<Rightarrow> query_id_failed (ac_query_id active) peer s);
                 connection_updated E peer StDisconnected s
               }))"

section \<open>The loop\<close>

datatype ('enr, 'pk) service_event =
    FromUser "('enr, 'pk) service_request"
  | FromHandler "'enr handler_out"
  | BucketMaintenance
  | QueryPoll
  | PingTimer
  | HandlerClosed

definition bucket_maintenance where
  "bucket_maintenance E s =
     (case kt_take_applied_pending (sv_kbuckets s) of
        (Some entry, t) \<Rightarrow>
          send_event E (EvNodeInserted (preimage (ap_inserted entry)) (map_option (\<lambda>n. preimage (n_key n)) (ap_evicted entry)))
            (s\<lparr>sv_kbuckets := t\<rparr>)
      | (None, t) \<Rightarrow> s\<lparr>sv_kbuckets := t\<rparr>)"

definition ping_timer where
  "ping_timer E s =
     (let (now, s) = sv_tick E s;
          (polled, m) = ds_poll (se_ping_set E) now (sv_peers_to_ping s);
          s = s\<lparr>sv_peers_to_ping := m\<rparr>
      in case polled of
           PollExpired i _ \<Rightarrow> do {
             (view, s) \<leftarrow> table_entry E (key_from_node_id i) s;
             Some (case view of ViewPresent enr _ \<Rightarrow> send_ping E enr None (ping_insert E i s) | _ \<Rightarrow> s)
           }
         | _ \<Rightarrow> Some s)"

definition whoareyou where
  "whoareyou E wru s =
     (case wru of WhoAreYouRef addr nonce \<Rightarrow> do {
        (enr, s) \<leftarrow> find_enr E (na_node_id addr) s;
        Some (snd (handler_send (InWhoAreYou wru enr) s))
      })"

definition service_step where
  "service_step E event s =
     (case event of
        FromUser (StartQuery (KindFindNode target) callback) \<Rightarrow> start_findnode_query E target callback s
      | FromUser (StartQuery (KindPredicate target num predicate) callback) \<Rightarrow>
          start_predicate_query E target num predicate callback s
      | FromUser (FindNodeDesignated contact distances callback) \<Rightarrow>
          Some (request_find_node_designated_peer E contact distances (Some callback) s)
      | FromUser (SvTalk contact protocol request callback) \<Rightarrow>
          Some (service_talk_request E contact protocol request callback s)
      | FromUser (SvPing enr callback) \<Rightarrow> Some (send_ping E enr callback s)
      | FromUser RequestEventStream \<Rightarrow> Some (s\<lparr>sv_event_stream := True\<rparr>)
      | FromHandler (OutEstablished enr socket direction) \<Rightarrow>
          inject_session_established E enr direction (send_event E (EvSessionEstablished enr socket) s)
      | FromHandler (OutRequest addr request) \<Rightarrow> handle_rpc_request E addr request s
      | FromHandler (OutResponse addr response) \<Rightarrow> handle_rpc_response E addr response s
      | FromHandler (OutWhoAreYou wru) \<Rightarrow> whoareyou E wru s
      | FromHandler (OutRequestFailed i error) \<Rightarrow> rpc_failure E i error s
      | BucketMaintenance \<Rightarrow> Some (bucket_maintenance E s)
      | QueryPoll \<Rightarrow> query_event E s
      | PingTimer \<Rightarrow> ping_timer E s
      | HandlerClosed \<Rightarrow> Some (s\<lparr>sv_handler_open := False\<rparr>))"

end
