(* ===== verification/Disc_Values.thy ===== *)
theory Disc_Values
  imports Disc_Closest Disc_Entry
begin

text \<open>
  What is stored in the routing table: every operation of \<open>kbucket.rs\<close> keeps a property of the stored and
  pending records and their keys, if the record it is given has it.
\<close>

section \<open>Buckets\<close>

type_synonym 'v record_pred = "u256 \<Rightarrow> 'v \<Rightarrow> bool"

definition node_ok :: "'v record_pred \<Rightarrow> ('id, 'v) node \<Rightarrow> bool" where
  "node_ok V n \<longleftrightarrow> V (khash n) (n_value n)"

definition bucket_ok :: "'v record_pred \<Rightarrow> ('id, 'v) kbucket \<Rightarrow> bool" where
  "bucket_ok V b \<longleftrightarrow> (\<forall>n\<in>set (kb_nodes b). node_ok V n) \<and> (\<forall>p. kb_pending b = Some p \<longrightarrow> node_ok V (pn_node p))"

lemma node_ok_status [simp]: "node_ok V (set_status s d n) = node_ok V n"
  by (simp add: node_ok_def set_status_def)

lemma vec_remove_set: "vec_remove i xs = Some (x, ys) \<Longrightarrow> x \<in> set xs \<and> (\<forall>y\<in>set ys. y \<in> set xs)"
  by (auto simp: vec_remove_def dest: in_set_takeD in_set_dropD split: if_splits)

lemma av_set: "av_push c x xs = Some ys \<Longrightarrow> set ys = insert x (set xs)" "av_insert c i x xs = Some ys \<Longrightarrow> set ys = insert x (set xs)"
proof -
  show "av_push c x xs = Some ys \<Longrightarrow> set ys = insert x (set xs)" by (auto simp: av_push_def split: if_splits)
  assume "av_insert c i x xs = Some ys"
  then have "ys = take i xs @ x # drop i xs" by (auto simp: av_insert_def split: if_splits)
  moreover have "set (take i xs) \<union> set (drop i xs) = set xs" by (metis append_take_drop_id set_append)
  ultimately show "set ys = insert x (set xs)" by auto
qed

lemma kb_insert_ok:
  assumes "bucket_ok V b" "node_ok V n" "kb_insert now n b = Some (r, b')"
  shows "bucket_ok V b'"
  using assms by (auto simp: kb_insert_def Let_def bucket_ok_def clear_pending_if_def dest!: av_set
      split: if_splits connection_state.splits option.splits Option.bind_splits)

lemma kb_apply_pending_ok:
  assumes "bucket_ok V b" "kb_apply_pending now b = Some (r, b')"
  shows "bucket_ok V b'"
proof (cases "kb_pending b")
  case None
  with assms show ?thesis by (simp add: kb_apply_pending_def)
next
  case (Some p)
  define b0 where "b0 = b\<lparr>kb_pending := None\<rparr>"
  have ok: "bucket_ok V b0" "node_ok V (pn_node p)" using assms(1) Some by (auto simp: b0_def bucket_ok_def)
  show ?thesis
  proof (cases "pn_replace p \<le> now \<and> is_full b0")
    case True
    with assms(2) Some ok show ?thesis
      by (auto simp: kb_apply_pending_def b0_def [symmetric] Let_def bucket_ok_def dest!: av_set vec_remove_set
          split: if_splits option.splits Option.bind_splits)
  next
    case False
    with assms Some kb_insert_ok [OF ok, of now] show ?thesis
      by (auto simp: kb_apply_pending_def b0_def [symmetric] Let_def
          split: if_splits Option.bind_splits bucket_insert_result.splits)
  qed
qed

lemma kb_update_status_ok:
  assumes "bucket_ok V b" "kb_update_status now k s d b = Some (r, b')"
  shows "bucket_ok V b'"
proof (cases "kb_position k b")
  case None
  with assms show ?thesis
    by (auto simp: kb_update_status_def bucket_ok_def simp del: not_None_eq split: option.splits if_splits)
next
  case (Some pos)
  with assms(2) obtain old ns where v: "vec_remove pos (kb_nodes b) = Some (old, ns)"
    by (auto simp: kb_update_status_def split: Option.bind_splits)
  from vec_remove_set [OF v] assms(1) have old: "node_ok V old" "\<forall>n\<in>set ns. node_ok V n" by (auto simp: bucket_ok_def)
  have "bucket_ok V (b\<lparr>kb_nodes := ns, kb_first_connected_pos := f, kb_pending := if c then None else kb_pending b\<rparr>)" for f c
    using assms(1) old(2) by (simp add: bucket_ok_def)
  from kb_insert_ok [OF this, of "set_status s d old" now] old(1) assms(2) Some v show ?thesis
    by (auto simp: kb_update_status_def Let_def split: Option.bind_splits bucket_insert_result.splits)
qed

lemma kb_update_value_ok:
  assumes "bucket_ok V b" "V (hash k) v" "kb_update_value k v b = Some (r, b')"
  shows "bucket_ok V b'"
proof (cases "kb_position k b")
  case None
  with assms show ?thesis
    by (auto simp: kb_update_value_def bucket_ok_def node_ok_def key_eq_def simp del: not_None_eq split: option.splits if_splits)
next
  case (Some pos)
  with assms(3) obtain n ns where n: "vec_remove pos (kb_nodes b) = Some (n, ns)"
    by (auto simp: kb_update_value_def split: Option.bind_splits)
  from position_SomeD [OF Some [unfolded kb_position_def]] n have h: "khash n = hash k"
    by (auto simp: key_eq_def vec_remove_def split: if_splits)
  from vec_remove_set [OF n] assms(1) have "node_ok V n" "\<forall>m\<in>set ns. node_ok V m" by (auto simp: bucket_ok_def)
  moreover have "node_ok V (n\<lparr>n_value := v\<rparr>)" using assms(2) h by (simp add: node_ok_def)
  ultimately show ?thesis using assms(1,3) Some n
    by (auto simp: kb_update_value_def Let_def bucket_ok_def update_first_connected_pos_for_removal_def dest!: av_set
        split: Option.bind_splits if_splits)
qed

lemma kb_remove_ok:
  assumes "bucket_ok V b" "kb_remove now k b = Some (r, b')"
  shows "bucket_ok V b'"
proof (cases "kb_position k b")
  case None
  with assms show ?thesis by (simp add: kb_remove_def del: not_None_eq)
next
  case (Some pos)
  with assms(2) obtain n ns where n: "vec_remove pos (kb_nodes b) = Some (n, ns)"
    by (auto simp: kb_remove_def split: Option.bind_splits)
  from vec_remove_set [OF n] assms(1) have "bucket_ok V (update_first_connected_pos_for_removal pos (b\<lparr>kb_nodes := ns\<rparr>))"
    by (auto simp: bucket_ok_def update_first_connected_pos_for_removal_def)
  from kb_apply_pending_ok [OF this] assms(2) Some n show ?thesis
    by (auto simp: kb_remove_def split: Option.bind_splits)
qed

section \<open>The table\<close>

definition table_ok :: "'v record_pred \<Rightarrow> ('id, 'v) kbuckets_table \<Rightarrow> bool" where
  "table_ok V t \<longleftrightarrow> (\<forall>b\<in>set (kt_buckets t). bucket_ok V b)"

text \<open>The contract of an operation on one bucket, as far as the records are concerned.\<close>

locale record_keeping =
  fixes f :: "('id, 'v) kbucket \<Rightarrow> ('r \<times> ('id, 'v) kbucket) option" and V :: "'v record_pred"
  assumes keeps: "bucket_ok V b \<Longrightarrow> f b = Some (r, b') \<Longrightarrow> bucket_ok V b'"
begin

lemma on_bucket_ok:
  assumes "table_ok V t" "on_bucket i f t = Some (r, t')"
  shows "table_ok V t'"
proof -
  from assms(2) obtain b' where b: "i < length (kt_buckets t)" "f (kt_buckets t ! i) = Some (r, b')"
    "t' = t\<lparr>kt_buckets := (kt_buckets t)[i := b']\<rparr>"
    by (auto simp: on_bucket_def split: Option.bind_splits)
  from b(1) assms(1) have "bucket_ok V (kt_buckets t ! i)" by (simp add: table_ok_def)
  from keeps [OF this b(2)] assms(1) b(3) show ?thesis
    by (auto simp: table_ok_def dest!: set_update_subset_insert [THEN subsetD])
qed

end

interpretation apply_records: record_keeping "kb_apply_pending now" V
  by unfold_locales (rule kb_apply_pending_ok)

interpretation status_records: record_keeping "kb_update_status now k s d" V
  by unfold_locales (rule kb_update_status_ok)

interpretation remove_records: record_keeping "kb_remove now k" V
  by unfold_locales (rule kb_remove_ok)

lemma insert_records: "node_ok V n \<Longrightarrow> record_keeping (kb_insert now n) V"
  by unfold_locales (rule kb_insert_ok)

lemma value_records: "V (hash k) v \<Longrightarrow> record_keeping (kb_update_value k v) V"
  by unfold_locales (rule kb_update_value_ok)

lemma kt_apply_pending_ok:
  assumes "table_ok V t" "kt_apply_pending now i t = Some (r, t')"
  shows "table_ok V t'"
proof -
  from assms(2) obtain t1 where t1: "on_bucket i (kb_apply_pending now) t = Some (r, t1)"
    "kt_buckets t' = kt_buckets t1"
    by (auto simp: kt_apply_pending_def split: Option.bind_splits option.splits)
  from apply_records.on_bucket_ok [OF assms(1) t1(1)] t1(2) show ?thesis by (simp add: table_ok_def)
qed

lemma kt_update_node_status_ok:
  "table_ok V t \<Longrightarrow> kt_update_node_status n1 n2 k s d t = Some (r, t') \<Longrightarrow> table_ok V t'"
  by (auto simp: kt_update_node_status_def split: option.splits Option.bind_splits
      intro: kt_apply_pending_ok status_records.on_bucket_ok)

lemma kt_remove_ok: "table_ok V t \<Longrightarrow> kt_remove n1 n2 k t = Some (r, t') \<Longrightarrow> table_ok V t'"
  by (auto simp: kt_remove_def split: option.splits Option.bind_splits 
      intro: kt_apply_pending_ok remove_records.on_bucket_ok)

lemma kt_update_node_ok:
  assumes "table_ok V t" "V (hash k) v" "kt_update_node n1 n2 k v s t = Some (r, t')"
  shows "table_ok V t'"
proof (cases "kt_get_index k t")
  case None
  with assms(1,3) show ?thesis by (simp add: kt_update_node_def)
next
  case (Some i)
  note c = assms(3) [unfolded kt_update_node_def Let_def Some option.case]
  from c obtain a t1 where t1: "kt_apply_pending n1 i t = Some (a, t1)" by (auto split: Option.bind_splits)
  note ok1 = kt_apply_pending_ok [OF assms(1) t1]
  show ?thesis
  proof (cases "passed_table_filter k v t")
    case False
    with c t1 obtain x where "on_bucket i (kb_remove n2 k) t1 = Some (x, t')" by (auto split: Option.bind_splits)
    from remove_records.on_bucket_ok [OF ok1 this] show ?thesis .
  next
    case True
    with c t1 obtain x t2 where t2: "on_bucket i (kb_update_value k v) t1 = Some (x, t2)"
      by (auto split: Option.bind_splits)
    have up: "t' = t2 \<or> (\<exists>st y. on_bucket i (kb_update_status n2 k st None) t2 = Some (y, t'))"
      using c t1 True t2 by (auto split: Option.bind_splits if_splits option.splits)
    note ok2 = record_keeping.on_bucket_ok [OF value_records [of V, OF assms(2)] ok1 t2]
    from up ok2 status_records.on_bucket_ok [OF ok2] show ?thesis by blast
  qed
qed

lemma kt_insert_or_update_ok:
  assumes "table_ok V t" "V (hash k) v" "kt_insert_or_update n1 n2 k v s t = Some (r, t')"
  shows "table_ok V t'"
proof (cases "kt_get_index k t")
  case None
  with assms(1,3) show ?thesis by (simp add: kt_insert_or_update_def)
next
  case (Some i)
  note c = assms(3) [unfolded kt_insert_or_update_def Let_def Some option.case]
  from c obtain a t1 where t1: "kt_apply_pending n1 i t = Some (a, t1)" by (auto split: Option.bind_splits)
  note ok1 = kt_apply_pending_ok [OF assms(1) t1]
  from c t1 obtain b where b: "vec_get i (kt_buckets t1) = Some b" by (auto split: Option.bind_splits)
  note c1 = c [unfolded t1 Option.bind.bind_lunit prod.case b]
  show ?thesis
  proof (cases "passed_table_filter k v t")
    case False
    with c1 obtain x where "on_bucket i (kb_remove n2 k) t1 = Some (x, t')" by (auto split: Option.bind_splits)
    then show ?thesis by (rule remove_records.on_bucket_ok [OF ok1])
  next
    case passed: True
    show ?thesis
    proof (cases "kb_position k b = None")
      case True
      from c1 passed True obtain x where
        x: "on_bucket i (kb_insert n2 \<lparr>n_key = k, n_value = v, n_status = s\<rparr>) t1 = Some (x, t')"
        by (auto simp del: position_None not_None_eq split: Option.bind_splits)
      have "node_ok V \<lparr>n_key = k, n_value = v, n_status = s\<rparr>" using assms(2) by (simp add: node_ok_def)
      from record_keeping.on_bucket_ok [OF insert_records [OF this] ok1 x] show ?thesis .
    next
      case False
      from c1 passed False obtain x t2 where
        t2: "on_bucket i (kb_update_status n2 k (st_state s) (Some (st_direction s))) t1 = Some (x, t2)"
        by (auto simp del: position_None not_None_eq split: Option.bind_splits)
      have up: "t' = t2 \<or> (\<exists>y. on_bucket i (kb_update_value k v) t2 = Some (y, t'))"
        using c1 passed False t2 by (auto simp del: position_None not_None_eq split: Option.bind_splits if_splits)
      note ok2 = status_records.on_bucket_ok [OF ok1 t2]
      from up ok2 record_keeping.on_bucket_ok [OF value_records [of V, OF assms(2)] ok2] show ?thesis by blast
    qed
  qed
qed


lemma kt_new_ok: "table_ok V (kt_new k d m tf bf)"
  by (simp add: table_ok_def kt_new_def bucket_ok_def kb_new_def)

lemma table_ok_bucket: "table_ok V t \<Longrightarrow> kt_get_bucket k t = Some b \<Longrightarrow> bucket_ok V b"
  by (auto simp: table_ok_def kt_get_bucket_def split: option.splits)

lemma table_ok_stored:
  assumes "table_ok V t" "kt_get_bucket k t = Some b"
  shows "present_value k b = Some v \<Longrightarrow> V (hash k) v"
    and "kb_pending b = Some p \<Longrightarrow> V (khash (pn_node p)) (n_value (pn_node p))"
proof -
  note ok = table_ok_bucket [OF assms]
  show "V (hash k) v" if v: "present_value k b = Some v"
  proof -
    obtain n where "kb_get k b = Some n" "v = n_value n" using v by (auto simp: present_value_def)
    then have "n \<in> set (kb_nodes b)" "khash n = hash k"
      by (auto simp: kb_get_def key_eq_def find_Some_iff)
    with ok \<open>v = n_value n\<close> show ?thesis by (auto simp: bucket_ok_def node_ok_def)
  qed
  show "V (khash (pn_node p)) (n_value (pn_node p))" if "kb_pending b = Some p"
    using ok that by (simp add: bucket_ok_def node_ok_def)
qed

lemma kt_entry_ok: "table_ok V t \<Longrightarrow> kt_entry now k t = Some (e, t') \<Longrightarrow> table_ok V t'"
  by (auto simp: kt_entry_def split: option.splits Option.bind_splits intro: kt_apply_pending_ok)

lemma kt_take_applied_pending_ok: "table_ok V t \<Longrightarrow> table_ok V (snd (kt_take_applied_pending t))"
  by (simp add: kt_take_applied_pending_def table_ok_def split: list.split)

lemma kt_iter_from_ok:
  "table_ok V t \<Longrightarrow> kt_iter_from clock is t = Some (ns, t') \<Longrightarrow> table_ok V t'"
proof (induction "is" arbitrary: t ns)
  case (Cons i "is")
  from Cons.prems(2) obtain a t1 ms where t1: "kt_apply_pending (clock i) i t = Some (a, t1)" "kt_iter_from clock is t1 = Some (ms, t')"
    by (auto split: Option.bind_splits)
  from Cons.IH [OF kt_apply_pending_ok [OF Cons.prems(1) t1(1)] t1(2)] show ?case .
qed simp

lemma kt_iter_ok: "table_ok V t \<Longrightarrow> kt_iter clock t = Some (ns, t') \<Longrightarrow> table_ok V t'"
  unfolding kt_iter_def by (rule kt_iter_from_ok)

lemma nbd_apply_ok: "table_ok V t \<Longrightarrow> nbd_apply clock k m ds c t = Some t' \<Longrightarrow> table_ok V t'"
proof (induction ds arbitrary: k c t)
  case (Cons d ds)
  from Cons.prems(2) obtain a t1 where t1: "kt_apply_pending (clock k) (d - 1) t = Some (a, t1)"
    by (auto split: Option.bind_splits)
  have rest: "t' = t1 \<or> (\<exists>c'. nbd_apply clock (Suc k) m ds c' t1 = Some t')"
    using Cons.prems(2) t1 by (auto simp: Let_def split: Option.bind_splits option.splits if_splits)
  note ok = kt_apply_pending_ok [OF Cons.prems(1) t1]
  from rest ok Cons.IH [OF ok] show ?case by blast
qed simp

lemma kt_nodes_by_distances_ok:
  "table_ok V t \<Longrightarrow> kt_nodes_by_distances clock ds m t = Some (ns, t') \<Longrightarrow> table_ok V t'"
  by (auto simp: kt_nodes_by_distances_def Let_def split: Option.bind_splits intro: nbd_apply_ok)

section \<open>Iterators\<close>

text \<open>What a closest iterator yields comes from stored nodes.\<close>

definition ci_ok :: "'v record_pred \<Rightarrow> ('out \<Rightarrow> bool) \<Rightarrow> ('id, 'v, 'out) closest_iter \<Rightarrow> bool" where
  "ci_ok V P it \<longleftrightarrow> table_ok V (ci_table it) \<and> (\<forall>ks. ci_iter it = Some ks \<longrightarrow> (\<forall>k\<in>set ks. P k))"

lemma ci_next_ok:
  assumes "\<And>m. node_ok V m \<Longrightarrow> P (fmap m)"
  shows "ci_ok V P it \<Longrightarrow> ci_next clock fmap key_of it = Some (r, it') \<Longrightarrow> ci_ok V P it' \<and> (\<forall>k. r = Some k \<longrightarrow> P k)"
  using assms
proof (induction clock fmap key_of it rule: ci_next.induct)
  case (1 clock fmap key_of it)
  show ?case
  proof (cases "ci_iter it")
    case (Some ks)
    show ?thesis
    proof (cases ks)
      case Nil
      have "ci_ok V P (it\<lparr>ci_iter := None\<rparr>)" using "1.prems"(1) by (simp add: ci_ok_def)
      from "1.IH"(2) [OF Some Nil this _ "1.prems"(3)] "1.prems"(2) Some Nil show ?thesis
        by (subst (asm) ci_next.simps) simp
    next
      case (Cons x xs)
      with Some "1.prems"(1,2) show ?thesis by (subst (asm) ci_next.simps) (auto simp: ci_ok_def)
    qed
  next
    case None
    obtain j st where n: "cb_next (ci_distance it) (ci_buckets it) = (j, st)" by fastforce
    show ?thesis
    proof (cases j)
      case None
      with \<open>ci_iter it = None\<close> n "1.prems"(1,2) show ?thesis by (subst (asm) ci_next.simps) (auto simp: ci_ok_def)
    next
      case (Some i)
      with \<open>ci_iter it = None\<close> n "1.prems"(2) obtain a t b where
        t: "kt_apply_pending (clock i) i (ci_table it) = Some (a, t)" "vec_get i (kt_buckets t) = Some b"
        by (subst (asm) ci_next.simps) (auto split: option.splits)
      let ?it = "it\<lparr>ci_buckets := st, ci_table := t,
         ci_iter := Some (sort_key (\<lambda>a. ci_target it XOR hash (key_of a)) (map fmap (kb_nodes b)))\<rparr>"
      have ok: "table_ok V t" using kt_apply_pending_ok [OF _ t(1)] "1.prems"(1) by (simp add: ci_ok_def)
      moreover have "bucket_ok V b" using ok t(2) by (auto simp: table_ok_def)
      ultimately have "ci_ok V P ?it" using "1.prems"(3) by (auto simp: ci_ok_def bucket_ok_def)
      moreover have "ci_next clock fmap key_of ?it = Some (r, it')"
        using "1.prems"(2) None n Some t by (subst (asm) ci_next.simps) simp
      ultimately show ?thesis using "1.IH"(1) [OF None n [symmetric] Some t(1) refl t(2) _ _ "1.prems"(3)] by blast
    qed
  qed
qed

end
