(* ===== verification/Disc_Service_Inv.thy ===== *)
theory Disc_Service_Inv
  imports Disc_Service Disc_Values "HOL-Library.Sublist"
begin

text \<open>
  The invariant of the service and that every operation keeps it without a panic. \<open>service_env_ok\<close> states what
  is assumed of the environment: the first \<open>N\<close> request ids do not repeat, and the orders in which a hash map is walked
  through list its keys.
\<close>

section \<open>Results that hold\<close>

definition okp :: "('a \<Rightarrow> bool) \<Rightarrow> 'a option \<Rightarrow> bool" where
  "okp P r = (case r of None \<Rightarrow> False | Some x \<Rightarrow> P x)"

lemma okp_Some [simp]: "okp P (Some x) = P x"
  by (simp add: okp_def)

lemma okp_bind: "okp (\<lambda>x. okp Q (f x)) r \<Longrightarrow> okp Q (r \<bind> f)"
  by (cases r) (simp_all add: okp_def)

lemma okp_map_option: "okp (\<lambda>x. Q (f x)) r \<Longrightarrow> okp Q (map_option f r)"
  by (cases r) (simp_all add: okp_def)

lemma okp_mono: "okp P r \<Longrightarrow> (\<And>x. P x \<Longrightarrow> Q x) \<Longrightarrow> okp Q r"
  by (cases r) (simp_all add: okp_def)

lemma okp_bindI:
  assumes "okp P r" "\<And>x. P x \<Longrightarrow> okp Q (f x)"
  shows "okp Q (r \<bind> f)"
  using assms by (cases r) (simp_all add: okp_def)

lemma okp_bind2I:
  assumes "okp (\<lambda>(x, s). P x s) r" "\<And>x s. P x s \<Longrightarrow> okp Q (f x s)"
  shows "okp Q (r \<bind> (\<lambda>(x, s). f x s))"
  using assms by (cases r) (auto simp: okp_def)

lemma okp_bind2_SomeI:
  assumes "okp (\<lambda>(x, t). P x t) r" "\<And>x t. P x t \<Longrightarrow> Q (f x t)"
  shows "okp Q (r \<bind> (\<lambda>(x, t). Some (f x t)))"
  by (rule okp_bind2I [OF assms(1)]) (simp add: assms(2))

lemma kt_keeps_okp:
  "kt_keeps t r \<Longrightarrow> (\<And>x t'. r = Some (x, t') \<Longrightarrow> table_ok V t') \<Longrightarrow> okp (\<lambda>(x, t'). kt_inv t' \<and> table_ok V t') r"
  by (auto simp: kt_keeps_def okp_def split: option.splits)

section \<open>The invariant\<close>

definition service_env_ok where
  "service_env_ok E N \<longleftrightarrow> inj_on (se_request_id E) {..<N} \<and>
     (\<forall>n qs. finite (dom qs) \<longrightarrow> set (se_query_order E n qs) = dom qs)"

definition pool_ok :: "('enr \<Rightarrow> bool) \<Rightarrow> ('enr query_target, node_id, 'enr) query_pool \<Rightarrow> bool" where
  "pool_ok R pool \<longleftrightarrow> qpool_inv pool \<and> finite (dom (qpool_queries pool)) \<and>
     (\<forall>qid q. qpool_queries pool qid = Some q \<longrightarrow>
        distances_to_request (qt_info (q_target q)) = DISTANCES_TO_REQUEST_PER_PEER \<and>
        (\<forall>enr\<in>set (untrusted_enrs (qt_info (q_target q))). R enr))"

text \<open>
  The records that a FINDNODE request asks a node for: those at the requested distances, or its own. One response
  to a request may add wanted records, or a single record if the request is for that of the node.
\<close>

definition wanted :: "('enr, 'pk) enr_ops \<Rightarrow> node_id \<Rightarrow> u64 list \<Rightarrow> 'enr \<Rightarrow> bool" where
  "wanted N peer ds enr \<longleftrightarrow>
     (if ds = [0] then enr_node_id N enr = peer
      else \<exists>d. log2_distance (key_from_node_id peer) (key_from_node_id (enr_node_id N enr)) = Some d \<and> of_nat d \<in> set ds)"

definition chunk_ok :: "('enr, 'pk) enr_ops \<Rightarrow> node_id \<Rightarrow> u64 list \<Rightarrow> 'enr list \<Rightarrow> bool" where
  "chunk_ok N peer ds chunk \<longleftrightarrow> (\<forall>enr\<in>set chunk. wanted N peer ds enr) \<or> ds = [0] \<and> length chunk \<le> 1"

text \<open>
  The responses collected for a request, which is a FINDNODE of the service itself. All but the last of them had
  fewer records than a response is meant to have, or there would have been no further one.
\<close>

definition collected where
  "collected N max_nodes a c \<longleftrightarrow>
     ac_callback a = None \<and>
     (\<exists>ds chunks. ac_request_body a = request_body.FindNode ds \<and> nr_received_nodes c = concat chunks \<and>
        nr_count c = length chunks + 1 \<and> (\<forall>chunk\<in>set chunks. chunk_ok N (nc_node_id N (ac_contact a)) ds chunk) \<and>
        (chunks = [] \<or> length (concat (butlast chunks)) < max_nodes))"

text \<open>The callback of a request takes the kind of response that the request asks for.\<close>

fun fits :: "callback_response option \<Rightarrow> request_body \<Rightarrow> bool" where
  "fits None _ = True"
| "fits (Some (CbNodes _)) b = (\<exists>ds. b = request_body.FindNode ds)"
| "fits (Some (CbTalk _)) b = (\<exists>protocol request. b = TalkReq protocol request)"
| "fits (Some (CbPong _)) b = (\<exists>seq. b = Ping seq)"

abbreviation request_fits where
  "request_fits a \<equiv> fits (ac_callback a) (ac_request_body a)"

definition nodes_ok where
  "nodes_ok E s \<longleftrightarrow>
     (\<forall>i a. sv_active_requests s i = Some a \<longrightarrow> request_fits a) \<and>
     dom (sv_active_requests s) \<union> dom (sv_active_nodes_responses s) \<subseteq> se_request_id E ` {..<sv_draws s} \<and>
     (\<forall>i c. sv_active_nodes_responses s i = Some c \<longrightarrow>
        nr_count c \<le> MAX_NODES_RESPONSES \<and> (\<forall>a. sv_active_requests s i = Some a \<longrightarrow>
          collected (se_ops E) (max_nodes_response (sv_config s)) a c))"

text \<open>The contact of an active request is the one the handler was given with its id.\<close>

definition requests_ok where
  "requests_ok E s \<longleftrightarrow>
     (\<forall>contact q. InRequest contact q \<in> set (sv_to_handler s) \<longrightarrow>
        req_id q \<in> se_request_id E ` {..<sv_draws s} \<and>
        (\<forall>a. sv_active_requests s (req_id q) = Some a \<longrightarrow> ac_contact a = contact))"

text \<open>
  The callbacks that wait for the response to a request. \<open>ghost\<close> is what has to be kept from an earlier
  state: what the handler was given then, a set of callbacks that waited or had been answered, a
  property that the records in the table and in the queries have, how many request ids are distinct, the
  mode the service listens in, and the records that sessions are established with.
\<close>

record ('enr, 'pk) ghost =
  gh_log :: "('enr, 'pk) handler_in list"
  gh_callbacks :: "nat set"
  gh_record :: "'enr \<Rightarrow> bool"
  gh_ids :: nat
  gh_mode :: ip_mode
  gh_sessions :: "'enr set"

fun cb_of :: "callback_response \<Rightarrow> nat" where
  "cb_of (CbNodes c) = c"
| "cb_of (CbTalk c) = c"
| "cb_of (CbPong c) = c"

definition cb_set :: "('enr, 'pk) active_request \<Rightarrow> nat set" where
  "cb_set a = cb_of ` set_option (ac_callback a)"

definition cb_waiting where
  "cb_waiting s = {cb. \<exists>i a. sv_active_requests s i = Some a \<and> cb \<in> cb_set a}"

definition cb_answered where
  "cb_answered s = fst ` set (sv_replies s)"

definition gh_kept where
  "gh_kept G s \<longleftrightarrow> prefix (gh_log G) (sv_to_handler s) \<and> gh_callbacks G \<subseteq> cb_waiting s \<union> cb_answered s"

text \<open>A record is stored under its own node id; what the table filter admits, and what a session adds, has the property.\<close>

definition stored_ok :: "('enr, 'pk) enr_ops \<Rightarrow> ('enr \<Rightarrow> bool) \<Rightarrow> 'enr record_pred" where
  "stored_ok N R h enr \<longleftrightarrow> h = enr_node_id N enr \<and> R enr"

definition tab_ok where
  "tab_ok E G t \<longleftrightarrow> kt_inv t \<and> table_ok (stored_ok (se_ops E) (gh_record G)) t"

definition admits_ok where
  "admits_ok E G s \<longleftrightarrow> sv_ip_mode s = gh_mode G \<and>
     (\<forall>enr. table_filter (sv_config s) enr \<longrightarrow> gh_record G enr) \<and>
     (\<forall>enr\<in>gh_sessions G. get_contactable_addr (se_ops E) (sv_ip_mode s) enr \<noteq> None \<longrightarrow> gh_record G enr)"

definition sv_inv where
  "sv_inv E G s \<longleftrightarrow> tab_ok E G (sv_kbuckets s) \<and> pool_ok (gh_record G) (sv_queries s) \<and> admits_ok E G s \<and>
     (sv_draws s \<le> gh_ids G \<longrightarrow> nodes_ok E s \<and> requests_ok E s \<and> gh_kept G s)"

lemmas sv_inv_defs = sv_inv_def nodes_ok_def requests_ok_def gh_kept_def cb_waiting_def cb_answered_def admits_ok_def

lemma sv_inv_frame [simp]:
  "sv_inv E G (s\<lparr>sv_reads := x1\<rparr>) = sv_inv E G s" "sv_inv E G (s\<lparr>sv_events := x2\<rparr>) = sv_inv E G s"
  "sv_inv E G (s\<lparr>sv_tries := x3\<rparr>) = sv_inv E G s" "sv_inv E G (s\<lparr>sv_event_stream := x4\<rparr>) = sv_inv E G s"
  "sv_inv E G (s\<lparr>sv_permit_ban := x7\<rparr>) = sv_inv E G s" "sv_inv E G (s\<lparr>sv_peers_to_ping := x8\<rparr>) = sv_inv E G s"
  "sv_inv E G (s\<lparr>sv_local_enr := x9\<rparr>) = sv_inv E G s" "sv_inv E G (s\<lparr>sv_ip_votes := x10\<rparr>) = sv_inv E G s"
  "sv_inv E G (s\<lparr>sv_handler_open := x11\<rparr>) = sv_inv E G s"
  by (simp_all add: sv_inv_defs)

lemma sv_inv_kbuckets [simp]: "sv_inv E G s \<Longrightarrow> tab_ok E G t \<Longrightarrow> sv_inv E G (s\<lparr>sv_kbuckets := t\<rparr>)"
  by (simp add: sv_inv_defs)

lemma sv_inv_queries [simp]: "sv_inv E G s \<Longrightarrow> pool_ok (gh_record G) p \<Longrightarrow> sv_inv E G (s\<lparr>sv_queries := p\<rparr>)"
  by (simp add: sv_inv_defs)

lemma sv_inv_tab: "sv_inv E G s \<Longrightarrow> tab_ok E G (sv_kbuckets s)"
  by (simp add: sv_inv_def)

lemma sv_inv_table: "sv_inv E G s \<Longrightarrow> kt_inv (sv_kbuckets s)"
  by (simp add: sv_inv_def tab_ok_def)

lemma sv_inv_records: "sv_inv E G s \<Longrightarrow> table_ok (stored_ok (se_ops E) (gh_record G)) (sv_kbuckets s)"
  by (simp add: sv_inv_def tab_ok_def)

lemma sv_inv_pool: "sv_inv E G s \<Longrightarrow> pool_ok (gh_record G) (sv_queries s)"
  by (simp add: sv_inv_def)

lemma sv_inv_remove_active:
  assumes "sv_inv E G s" "sv_active_requests s i = Some a"
  shows "sv_inv E (G\<lparr>gh_callbacks := gh_callbacks G - cb_set a\<rparr>)
    (s\<lparr>sv_active_requests := (sv_active_requests s)(i := None)\<rparr>)" (is "sv_inv E ?G ?s")
proof -
  have "cb_waiting s \<subseteq> cb_waiting ?s \<union> cb_set a"
  proof
    fix cb assume "cb \<in> cb_waiting s"
    then obtain j b where "sv_active_requests s j = Some b" "cb \<in> cb_set b" by (auto simp: cb_waiting_def)
    with assms(2) show "cb \<in> cb_waiting ?s \<union> cb_set a" by (cases "j = i") (auto simp: cb_waiting_def)
  qed
  then have "sv_draws s \<le> gh_ids G \<Longrightarrow> gh_kept ?G ?s" using assms(1) by (auto simp: sv_inv_def gh_kept_def cb_answered_def)
  moreover have "sv_draws s \<le> gh_ids G \<Longrightarrow> nodes_ok E ?s" "sv_draws s \<le> gh_ids G \<Longrightarrow> requests_ok E ?s"
    using assms(1) by (auto simp: sv_inv_def nodes_ok_def requests_ok_def)
  ultimately show ?thesis using assms(1) by (simp add: sv_inv_def tab_ok_def admits_ok_def)
qed

lemma sv_inv_fits: "sv_inv E G s \<Longrightarrow> sv_draws s \<le> gh_ids G \<Longrightarrow> sv_active_requests s i = Some a \<Longrightarrow> request_fits a"
  by (auto simp: sv_inv_def nodes_ok_def)

lemma sv_inv_fewer: "sv_inv E G s \<Longrightarrow> C \<subseteq> gh_callbacks G \<Longrightarrow> sv_inv E (G\<lparr>gh_callbacks := C\<rparr>) s"
  by (auto simp: sv_inv_def gh_kept_def tab_ok_def admits_ok_def)

lemma sv_inv_remove_nodes:
  "sv_inv E G s \<Longrightarrow> sv_inv E G (s\<lparr>sv_active_nodes_responses := (sv_active_nodes_responses s)(i := None)\<rparr>)"
  by (auto simp: sv_inv_defs)

section \<open>Channels\<close>

lemma handler_send_inv [simp]:
  "sv_inv E G s \<Longrightarrow> sv_inv E G (snd (handler_send (InResponse a r) s))"
  "sv_inv E G s \<Longrightarrow> sv_inv E G (snd (handler_send (InWhoAreYou w e) s))"
  by (simp_all add: handler_send_def sv_inv_defs)

lemma reply_inv [simp]: "sv_inv E G s \<Longrightarrow> sv_inv E G (reply cb r s)"
  by (auto simp: reply_def sv_inv_defs)

lemma reply_inv_answered: "sv_inv E (G\<lparr>gh_callbacks := gh_callbacks G - {cb}\<rparr>) s \<Longrightarrow> sv_inv E G (reply cb r s)"
  by (auto simp: reply_def sv_inv_defs tab_ok_def)

lemma ping_set_inv [simp]: "sv_inv E G (ping_insert E i s) = sv_inv E G s" "sv_inv E G (ping_remove E i s) = sv_inv E G s"
  by (simp_all add: ping_insert_def ping_remove_def sv_tick_def)

lemma drop_event_inv [simp]: "sv_inv E G s \<Longrightarrow> sv_inv E G (drop_event e s)"
  by (cases e) (simp_all add: talk_drop_def)

lemma send_event_inv [simp]: "sv_inv E G s \<Longrightarrow> sv_inv E G (send_event E e s)"
  by (simp add: send_event_def Let_def split: send_outcome.split)

lemma ban_inv [simp]: "sv_inv E G (ban E addr s) = sv_inv E G s"
  by (simp add: ban_def sv_tick_def Let_def split: option.split)

section \<open>The table\<close>

fun view_ok where
  "view_ok N R i (ViewPresent enr _) \<longleftrightarrow> stored_ok N R i enr"
| "view_ok N R i (ViewPending enr) \<longleftrightarrow> stored_ok N R i enr"
| "view_ok N R i ViewOther \<longleftrightarrow> True"

lemma table_entry_ok:
  assumes "sv_inv E G s"
  shows "okp (\<lambda>(v, s'). sv_inv E G s' \<and> view_ok (se_ops E) (gh_record G) (hash k) v) (table_entry E k s)"
proof -
  obtain e t where e: "kt_entry (se_clock E (sv_reads s)) k (sv_kbuckets s) = Some (e, t)" "kt_inv t"
    "case kt_get_bucket k t of
        None \<Rightarrow> e = SelfEntry \<and> hash k = hash (kt_local_key (sv_kbuckets s))
      | Some b \<Rightarrow> (case e of
            Present s \<Rightarrow> \<exists>n\<in>set (kb_nodes b). khash n = hash k \<and> n_status n = s
          | Pending s \<Rightarrow> \<exists>p. kb_pending b = Some p \<and> khash (pn_node p) = hash k \<and>
              n_status (pn_node p) = s \<and> hash k \<notin> khash ` set (kb_nodes b)
          | Absent \<Rightarrow> hash k \<notin> bucket_keys b | SelfEntry \<Rightarrow> False)"
    using table_entry_correct [OF sv_inv_table [OF assms]] by blast
  let ?s = "s\<lparr>sv_reads := Suc (sv_reads s), sv_kbuckets := t\<rparr>"
  have t: "table_ok (stored_ok (se_ops E) (gh_record G)) t"
    using kt_entry_ok [OF _ e(1)] sv_inv_tab [OF assms] by (simp add: tab_ok_def)
  have inv: "sv_inv E G ?s"
    using sv_inv_kbuckets [of E G "s\<lparr>sv_reads := Suc (sv_reads s)\<rparr>" t] assms e(2) t by (simp add: tab_ok_def)
  show ?thesis
  proof (cases e)
    case (Present st)
    with e(3) obtain b n where b: "kt_get_bucket k t = Some b" "n \<in> set (kb_nodes b)" "khash n = hash k"
      by (auto split: option.splits)
    then have "kb_get k b \<noteq> None" unfolding kb_get_None kb_position_None by (metis image_eqI)
    then obtain v where v: "present_value k b = Some v" by (auto simp: present_value_def)
    with inv b(1) e(1) Present table_ok_stored(1) [OF t b(1) v] show ?thesis by (simp add: table_entry_def sv_tick_def)
  next
    case (Pending st)
    with e(3) obtain b p where b: "kt_get_bucket k t = Some b" "kb_pending b = Some p" "khash (pn_node p) = hash k"
      by (auto split: option.splits)
    with inv e(1) Pending table_ok_stored(2) [OF t b(1,2)] show ?thesis by (simp add: table_entry_def sv_tick_def)
  qed (use inv e(1) in \<open>simp_all add: table_entry_def sv_tick_def\<close>)
qed

lemma tab_op:
  assumes "kt_keeps t r" "\<And>x t'. r = Some (x, t') \<Longrightarrow> table_ok (stored_ok (se_ops E) (gh_record G)) t'"
  shows "okp (\<lambda>(x, t). tab_ok E G t) r"
  unfolding tab_ok_def by (rule kt_keeps_okp [OF assms])

lemma sv_update_node_ok:
  assumes "sv_inv E G s" "stored_ok (se_ops E) (gh_record G) (hash k) enr"
  shows "okp (\<lambda>(r, s'). sv_inv E G s') (sv_update_node E k enr state s)"
proof -
  have "okp (\<lambda>(x, t). tab_ok E G t)
     (kt_update_node (se_clock E (sv_reads s)) (se_clock E (Suc (sv_reads s))) k enr state (sv_kbuckets s))"
    by (rule tab_op [OF kt_update_node_keeps [OF sv_inv_table [OF assms(1)]]])
      (erule kt_update_node_ok [where V = "stored_ok (se_ops E) (gh_record G)", OF sv_inv_records [OF assms(1)] assms(2)])
  then show ?thesis unfolding sv_update_node_def sv_tick_def
    by simp (rule okp_bind2I, assumption, use assms in \<open>auto intro!: sv_inv_kbuckets\<close>)
qed

section \<open>Requests\<close>

lemma fresh_request_id:
  assumes "service_env_ok E N" "sv_draws s < N"
  shows "se_request_id E (sv_draws s) \<notin> se_request_id E ` {..<sv_draws s}"
  using assms by (auto simp: service_env_ok_def dest: inj_onD)

lemma sv_inv_insert_active:
  assumes "service_env_ok E (gh_ids G)" "sv_inv E G s" "request_fits a"
  shows "sv_inv E G (s\<lparr>sv_draws := Suc (sv_draws s),
    sv_to_handler := sv_to_handler s @ [InRequest (ac_contact a) \<lparr>req_id = se_request_id E (sv_draws s), req_body = b\<rparr>],
    sv_active_requests := (sv_active_requests s)(se_request_id E (sv_draws s) \<mapsto> a)\<rparr>)" (is "sv_inv E G ?s")
proof (cases "sv_draws s < gh_ids G")
  case True
  let ?i = "se_request_id E (sv_draws s)"
  note new = fresh_request_id [OF assms(1) True]
  from assms(2) True have ok: "nodes_ok E s" "requests_ok E s" "gh_kept G s" by (simp_all add: sv_inv_def)
  from new have unused: "sv_active_nodes_responses s ?i = None" "sv_active_requests s ?i = None"
    using ok(1) by (auto simp: nodes_ok_def)
  have other: "req_id q \<noteq> ?i" if "InRequest c q \<in> set (sv_to_handler s)" for c q
    using ok(2) that new unfolding requests_ok_def by metis
  have "nodes_ok E ?s" using ok(1) assms(3) unused unfolding nodes_ok_def
    by (simp add: lessThan_Suc) blast
  moreover have "requests_ok E ?s" using ok(2) other unfolding requests_ok_def
    by (simp add: lessThan_Suc)
  moreover have "cb_waiting s \<subseteq> cb_waiting ?s"
  proof
    fix cb assume "cb \<in> cb_waiting s"
    then obtain j c where "sv_active_requests s j = Some c" "cb \<in> cb_set c" by (auto simp: cb_waiting_def)
    moreover from this unused have "j \<noteq> ?i" by auto
    ultimately show "cb \<in> cb_waiting ?s" by (auto simp: cb_waiting_def)
  qed
  then have "gh_kept G ?s" using ok(3) by (auto simp: gh_kept_def cb_answered_def)
  ultimately show ?thesis using assms(2) by (simp add: sv_inv_def admits_ok_def)
qed (use assms(2) in \<open>simp add: sv_inv_def admits_ok_def\<close>)

lemma sv_inv_draws: "sv_inv E G s \<Longrightarrow> sv_inv E G (s\<lparr>sv_draws := Suc (sv_draws s)\<rparr>)"
  by (simp add: sv_inv_defs lessThan_Suc subset_insertI2 Suc_le_eq less_imp_le)

lemma send_rpc_request_inv:
  assumes "service_env_ok E (gh_ids G)" "sv_inv E G s" "request_fits a"
  shows "sv_inv E G (send_rpc_request E a s)"
proof (cases "sv_handler_open s")
  case True
  show ?thesis using sv_inv_insert_active [OF assms, of "ac_request_body a"] True
    by (simp add: send_rpc_request_def handler_send_def Let_def)
next
  case False
  with sv_inv_draws [OF assms(2)] show ?thesis by (simp add: send_rpc_request_def handler_send_def Let_def)
qed

lemma send_ping_inv:
  assumes "service_env_ok E (gh_ids G)" "sv_inv E G s"
  shows "sv_inv E G (send_ping E enr cb s)"
  using send_rpc_request_inv [OF assms] assms(2) by (cases cb) (simp_all add: send_ping_def split: sum.split)

lemma fold_inv: "(\<And>x s. sv_inv E G s \<Longrightarrow> sv_inv E G (f x s)) \<Longrightarrow> sv_inv E G s \<Longrightarrow> sv_inv E G (fold f xs s)"
  by (induction xs arbitrary: s) auto

lemma ping_connected_peers_ok:
  assumes "service_env_ok E (gh_ids G)" "sv_inv E G s"
  shows "okp (sv_inv E G) (ping_connected_peers E s)"
proof -
  have "okp (\<lambda>(x, t). tab_ok E G t) (kt_iter (\<lambda>i. se_clock E (sv_reads s + i)) (sv_kbuckets s))"
    by (rule tab_op [OF kt_iter_keeps [OF sv_inv_table [OF assms(2)]]]) (erule kt_iter_ok [OF sv_inv_records [OF assms(2)]])
  then show ?thesis unfolding ping_connected_peers_def sv_ticks_def
    by simp (rule okp_bind2I, assumption, use assms in \<open>auto intro!: sv_inv_kbuckets fold_inv send_ping_inv\<close>)
qed

section \<open>Queries\<close>

lemma find_untrusted_ok:
  assumes "pool_ok R p" "find_untrusted N (qpool_queries p) order i = Some enr"
  shows "stored_ok N R i enr"
  using assms(2)
proof (induction order)
  case (Cons qid order)
  show ?case
  proof (cases "qpool_queries p qid")
    case (Some q)
    show ?thesis
    proof (cases "find (\<lambda>enr. enr_node_id N enr = i) (untrusted_enrs (qt_info (q_target q)))")
      case (Some e)
      with Cons.prems \<open>qpool_queries p qid = Some q\<close> have "enr = e" by simp
      moreover have "e \<in> set (untrusted_enrs (qt_info (q_target q)))" "enr_node_id N e = i"
        using Some by (auto simp: find_Some_iff)
      ultimately show ?thesis using assms(1) \<open>qpool_queries p qid = Some q\<close> by (auto simp: pool_ok_def stored_ok_def)
    qed (use Cons Some in simp)
  qed (use Cons in simp)
qed simp

lemma find_enr_ok:
  assumes "sv_inv E G s"
  shows "okp (\<lambda>(e, s'). sv_inv E G s' \<and> (\<forall>enr. e = Some enr \<longrightarrow> stored_ok (se_ops E) (gh_record G) i enr)) (find_enr E i s)"
  unfolding find_enr_def
  by (rule okp_bind2I [OF table_entry_ok [OF assms]])
    (auto simp: Let_def key_from_node_id_def split: view.split dest: find_untrusted_ok [OF sv_inv_pool])

lemma pool_ok_put:
  assumes "pool_ok R p" "qpool_queries p qid = Some q" "iter_inv (q_peer_iter q')" "q_id q' = q_id q"
    "distances_to_request (qt_info (q_target q')) = distances_to_request (qt_info (q_target q))"
    "\<forall>enr\<in>set (untrusted_enrs (qt_info (q_target q'))). R enr"
  shows "pool_ok R (p\<lparr>qpool_queries := (qpool_queries p)(qid \<mapsto> q')\<rparr>)"
  using assms by (auto simp: pool_ok_def qpool_inv_def)

lemma pool_ok_query:
  "pool_ok R p \<Longrightarrow> qpool_queries p qid = Some q \<Longrightarrow>
     iter_inv (q_peer_iter q) \<and> (\<forall>enr\<in>set (untrusted_enrs (qt_info (q_target q))). R enr)"
  by (auto simp: pool_ok_def qpool_inv_def)

lemma query_on_failure_target: "query_on_failure to_key x q = Some q' \<Longrightarrow> q_target q' = q_target q"
  by (auto simp: query_on_failure_def split: query_peer_iter.splits)

lemma query_on_success_target: "query_on_success to_key id_of x rs q = Some q' \<Longrightarrow> q_target q' = q_target q"
  by (auto simp: query_on_success_def split: query_peer_iter.splits)

lemma query_next_target: "query_next now q = Some (r, q') \<Longrightarrow> q_target q' = q_target q"
  by (auto simp: query_next_def split: query_peer_iter.splits)

lemma query_failed_ok:
  assumes "sv_inv E G s"
  shows "okp (sv_inv E G) (query_failed qid peer s)"
proof (cases "qpool_queries (sv_queries s) qid")
  case None
  with assms show ?thesis by (simp add: query_failed_def qpool_get_def)
next
  case (Some q)
  obtain q' where q': "query_on_failure key_from_node_id peer q = Some q'" "iter_inv (q_peer_iter q')" "q_id q' = q_id q"
    using query_on_failure_inv [of q] pool_ok_query [OF sv_inv_pool [OF assms] Some] by blast
  have "pool_ok (gh_record G) ((sv_queries s)\<lparr>qpool_queries := (qpool_queries (sv_queries s))(qid \<mapsto> q')\<rparr>)"
    by (rule pool_ok_put [OF sv_inv_pool [OF assms] Some q'(2,3)])
      (simp_all add: query_on_failure_target [OF q'(1)] pool_ok_query [OF sv_inv_pool [OF assms] Some])
  with q'(1) Some sv_inv_queries [OF assms] show ?thesis by (simp add: query_failed_def qpool_get_def)
qed

lemma send_rpc_query_ok:
  assumes "service_env_ok E (gh_ids G)" "sv_inv E G s"
  shows "okp (sv_inv E G) (send_rpc_query E qid peer body s)"
  unfolding send_rpc_query_def
  by (rule okp_bind2I [OF find_enr_ok [OF assms(2)]])
    (auto split: option.split sum.split intro: query_failed_ok send_rpc_request_inv [OF assms(1)])

lemma ci_all_ok:
  assumes "\<And>m. node_ok V m \<Longrightarrow> P (fmap m)"
  shows "ci_inv it \<Longrightarrow> ci_ok V P it \<Longrightarrow>
    okp (\<lambda>(ks, t). kt_inv t \<and> table_ok V t \<and> (\<forall>k\<in>set ks. P k)) (ci_all clock fmap key_of it)"
  using assms
proof (induction clock fmap key_of it rule: ci_all.induct)
  case (1 clock fmap key_of it)
  obtain r it' where n: "ci_next clock fmap key_of it = Some (r, it')" "ci_inv it'"
    using ci_next_remaining [OF "1.prems"(1), of clock fmap key_of] by blast
  have ok: "ci_ok V P it'" "\<forall>k. r = Some k \<longrightarrow> P k"
    using ci_next_ok [OF "1.prems"(3) "1.prems"(2) n(1)] by simp_all
  show ?case
  proof (cases r)
    case None
    with n ok show ?thesis by (subst ci_all.simps) (simp add: ci_inv_def ci_ok_def)
  next
    case (Some k)
    from "1.IH" [OF n(1) refl Some n(2) ok(1) "1.prems"(3)] obtain ks t where
      "ci_all clock fmap key_of it' = Some (ks, t)" "kt_inv t" "table_ok V t" "\<forall>k\<in>set ks. P k"
      by (auto simp: okp_def split: option.splits)
    with n(1) Some ok(2) show ?thesis by (subst ci_all.simps) simp
  qed
qed

lemma ci_all_new_ok:
  assumes "tab_ok E G t" "\<And>m. node_ok (stored_ok (se_ops E) (gh_record G)) m \<Longrightarrow> P (fmap m)"
  shows "okp (\<lambda>(ks, t). tab_ok E G t \<and> (\<forall>k\<in>set ks. P k)) (ci_all clock fmap key_of (ci_new target t))"
proof -
  have "ci_ok (stored_ok (se_ops E) (gh_record G)) P (ci_new target t)"
    using assms(1) by (simp add: ci_ok_def ci_new_def tab_ok_def Let_def)
  from ci_all_ok [where P = P and V = "stored_ok (se_ops E) (gh_record G)", OF assms(2) ci_new_inv this] assms(1) show ?thesis
    by (auto simp: tab_ok_def okp_def split: option.splits)
qed

lemma query_new_ok:
  assumes "pool_ok R p" "iter_inv it" "distances_to_request (qt_info t) = DISTANCES_TO_REQUEST_PER_PEER"
    "\<forall>enr\<in>set (untrusted_enrs (qt_info t)). R enr"
  shows "pool_ok R (snd (qpool_add it t p))"
  using qpool_add_inv [of p it t] assms by (auto simp: pool_ok_def qpool_add_def Let_def query_new_def)

lemma pool_add_findnode_ok:
  "pool_ok R p \<Longrightarrow> distances_to_request (qt_info t) = DISTANCES_TO_REQUEST_PER_PEER \<Longrightarrow>
     \<forall>enr\<in>set (untrusted_enrs (qt_info t)). R enr \<Longrightarrow>
     pool_ok R (snd (qpool_add_findnode_query target_key cfg t ks p))"
  unfolding qpool_add_findnode_query_def
  by (rule query_new_ok) (simp_all add: iter_inv_def fq_with_config_simulation pq_with_config_inv)

lemma pool_add_predicate_ok:
  "pool_ok R p \<Longrightarrow> distances_to_request (qt_info t) = DISTANCES_TO_REQUEST_PER_PEER \<Longrightarrow>
     \<forall>enr\<in>set (untrusted_enrs (qt_info t)). R enr \<Longrightarrow>
     pool_ok R (snd (qpool_add_predicate_query target_key cfg t ks P p))"
  unfolding qpool_add_predicate_query_def
  by (rule query_new_ok) (simp_all add: iter_inv_def pq_with_config_inv)

lemma start_findnode_query_ok:
  assumes "sv_inv E G s"
  shows "okp (sv_inv E G) (start_findnode_query E target callback s)"
proof -
  have ok: "pool_ok (gh_record G) (sv_queries s)" by (rule sv_inv_pool [OF assms])
  show ?thesis unfolding start_findnode_query_def sv_ticks_def Let_def prod.case
    by (rule okp_bind2I [OF ci_all_new_ok [where E = E and G = G and P = "\<lambda>k. gh_record G (snd k)"]])
      (use assms ok in \<open>auto intro!: sv_inv_queries pool_add_findnode_ok
        simp: sv_inv_tab node_ok_def stored_ok_def\<close>)
qed

lemma start_predicate_query_ok:
  assumes "sv_inv E G s"
  shows "okp (sv_inv E G) (start_predicate_query E target num predicate callback s)"
proof -
  have ok: "pool_ok (gh_record G) (sv_queries s)" by (rule sv_inv_pool [OF assms])
  show ?thesis unfolding start_predicate_query_def sv_ticks_def Let_def prod.case
    by (rule okp_bind2I [OF ci_all_new_ok [where E = E and G = G and P = "\<lambda>k. gh_record G (pv_value k)"]])
      (use assms ok in \<open>auto intro!: sv_inv_queries pool_add_predicate_ok
        simp: sv_inv_tab node_ok_def stored_ok_def\<close>)
qed

lemma found_enrs_ok:
  "sv_inv E G s \<Longrightarrow> okp (\<lambda>(enrs, s'). sv_inv E G s') (found_enrs E is untrusted s)"
proof (induction "is" arbitrary: untrusted s)
  case (Cons i "is")
  show ?case
  proof (cases "position (\<lambda>enr. enr_node_id (se_ops E) enr = i) untrusted")
    case None
    have "okp (\<lambda>(enrs, s'). sv_inv E G s') (do {
        (enr, s) \<leftarrow> find_enr E i s;
        (enrs, s) \<leftarrow> found_enrs E is untrusted s;
        Some (case enr of Some enr \<Rightarrow> enr # enrs | None \<Rightarrow> enrs, s)})"
      by (rule okp_bind2I [OF find_enr_ok [OF Cons.prems]], rule okp_bind2I [OF Cons.IH]) auto
    with None show ?thesis by (simp del: position_None)
  next
    case (Some pos)
    obtain enr untrusted' where sw: "swap_remove pos untrusted = Some (enr, untrusted')"
      using position_SomeD [OF Some] by (simp add: swap_remove_def)
    have "okp (\<lambda>(enrs, s'). sv_inv E G s') (do { (enrs, s) \<leftarrow> found_enrs E is untrusted' s; Some (enr # enrs, s) })"
      by (rule okp_bind2I [OF Cons.IH [OF Cons.prems]]) auto
    with Some sw show ?thesis by simp
  qed
qed simp

lemma query_ended_ok: "sv_inv E G s \<Longrightarrow> okp (sv_inv E G) (query_ended E q s)"
  unfolding query_ended_def query_into_result_def prod.case
  by (rule okp_bind2I [OF found_enrs_ok]) auto

lemma poll_loop_targets:
  "poll_loop now t order qs = Some (qs', stop) \<Longrightarrow> qs' qid = Some q \<Longrightarrow>
     \<exists>q0. qs qid = Some q0 \<and> q_target q = q_target q0"
proof (induction order arbitrary: qs)
  case (Cons i order)
  from Cons.prems(1) obtain q0 where q0: "qs i = Some q0" by (cases "qs i") auto
  let ?q1 = "q0\<lparr>q_started := (case q_started q0 of Some s \<Rightarrow> Some s | None \<Rightarrow> Some now)\<rparr>"
  from Cons.prems(1) q0 obtain r q2 where q2: "query_next now ?q1 = Some (r, q2)"
    by (cases "query_next now ?q1") auto
  have tg: "q_target q2 = q_target q0" using query_next_target [OF q2] by simp
  have "qs' = qs(i \<mapsto> q2) \<or> poll_loop now t order (qs(i \<mapsto> q2)) = Some (qs', stop)"
    using Cons.prems(1) q0 q2 by (auto simp: Let_def split: query_state.splits option.splits if_splits)
  then show ?case
  proof
    assume "qs' = qs(i \<mapsto> q2)"
    with Cons.prems(2) q0 tg show ?thesis by (auto split: if_splits)
  next
    assume "poll_loop now t order (qs(i \<mapsto> q2)) = Some (qs', stop)"
    from Cons.IH [OF this Cons.prems(2)] q0 tg show ?thesis by (auto split: if_splits)
  qed
qed simp

lemma qpool_poll_targets:
  assumes "qpool_poll now order p = Some (r, p')" "qpool_queries p' qid = Some q"
  shows "\<exists>q0. qpool_queries p qid = Some q0 \<and> q_target q = q_target q0"
proof -
  from assms(1) obtain qs stop where l: "poll_loop now (qpool_timeout p) order (qpool_queries p) = Some (qs, stop)"
    by (auto simp: qpool_poll_def split: Option.bind_splits)
  with assms(1) have "\<forall>i q. qpool_queries p' i = Some q \<longrightarrow> qs i = Some q"
    by (auto simp: qpool_poll_def Let_def split: Option.bind_splits option.splits poll_stop.splits if_splits)
  with assms(2) poll_loop_targets [OF l] show ?thesis by blast
qed

lemma rpc_request_ok:
  assumes "distances_to_request info = DISTANCES_TO_REQUEST_PER_PEER"
  shows "\<exists>ds. qi_rpc_request info peer = Some (request_body.FindNode ds)"
proof -
  obtain n where n: "query_type info = QueryFindNode n" by (cases "query_type info")
  obtain ds where "findnode_log2distance n peer 3 = Some ds"
    using findnode_log2distance_eq [of 3 n peer] by auto
  with assms n show ?thesis by (simp add: qi_rpc_request_def DISTANCES_TO_REQUEST_PER_PEER_def)
qed

lemma qpool_poll_ok:
  assumes "pool_ok R p" "set order = dom (qpool_queries p)"
  shows "\<exists>r p'. qpool_poll now order p = Some (r, p') \<and> pool_ok R p' \<and>
    (\<forall>qid peer. r = PoolWaiting (Some (qid, peer)) \<longrightarrow> qid \<in> dom (qpool_queries p'))"
proof -
  have "qpool_inv p" using assms(1) by (simp add: pool_ok_def)
  from qpool_poll_spec [OF this assms(2), of now] obtain r p' where
    r: "qpool_poll now order p = Some (r, p')" "qpool_inv p'"
      "r = PoolWaiting (Some (qid, peer)) \<Longrightarrow> qid \<in> dom (qpool_queries p')" for qid peer
    by (elim exE conjE) (fastforce split: query_pool_state.splits)
  note tg = qpool_poll_targets [OF r(1)]
  have "dom (qpool_queries p') \<subseteq> dom (qpool_queries p)" using tg by blast
  then have "finite (dom (qpool_queries p'))" using assms(1) by (auto simp: pool_ok_def dest: finite_subset)
  moreover have "distances_to_request (qt_info (q_target q)) = DISTANCES_TO_REQUEST_PER_PEER \<and>
      (\<forall>enr\<in>set (untrusted_enrs (qt_info (q_target q))). R enr)"
    if "qpool_queries p' qid = Some q" for qid q
    using tg [OF that] assms(1) by (auto simp: pool_ok_def)
  ultimately have "pool_ok R p'" using r(2) by (auto simp: pool_ok_def)
  with r(1,3) show ?thesis by blast
qed

lemma query_event_ok:
  assumes "service_env_ok E (gh_ids G)" "sv_inv E G s"
  shows "okp (sv_inv E G) (query_event E s)"
proof -
  define order where "order = se_query_order E (Suc (sv_reads s)) (qpool_queries (sv_queries s))"
  have p: "pool_ok (gh_record G) (sv_queries s)" by (rule sv_inv_pool [OF assms(2)])
  then have "set order = dom (qpool_queries (sv_queries s))"
    using assms(1) by (auto simp: pool_ok_def service_env_ok_def order_def)
  from qpool_poll_ok [OF p this] obtain r p' where
    r: "qpool_poll (se_clock E (sv_reads s)) order (sv_queries s) = Some (r, p')" and p': "pool_ok (gh_record G) p'" and
      w: "\<And>qid peer. r = PoolWaiting (Some (qid, peer)) \<Longrightarrow> qid \<in> dom (qpool_queries p')"
    by blast
  let ?s = "s\<lparr>sv_reads := Suc (sv_reads s), sv_queries := p'\<rparr>"
  have inv: "sv_inv E G ?s" using sv_inv_queries [of E G "s\<lparr>sv_reads := Suc (sv_reads s)\<rparr>" p'] assms(2) p' by simp
  have "okp (sv_inv E G) (send_rpc_query E qid peer body ?s)" for qid peer body
    by (rule send_rpc_query_ok [OF assms(1) inv])
  moreover have "\<exists>q ds. qpool_queries p' qid = Some q \<and> qi_rpc_request (qt_info (q_target q)) peer = Some (request_body.FindNode ds)"
    if "r = PoolWaiting (Some (qid, peer))" for qid peer
    using w [OF that] p' rpc_request_ok by (fastforce simp: pool_ok_def)
  ultimately show ?thesis using inv query_ended_ok [OF inv]
    by (auto simp: query_event_def sv_tick_def Let_def r [unfolded order_def] qpool_get_def
        split: query_pool_state.split option.split)
qed


section \<open>Discovered records\<close>

lemma update_discovered_ok:
  assumes "sv_inv E G s" "stored_ok (se_ops E) (gh_record G) (hash key) enr"
  shows "okp (\<lambda>(keep, s'). sv_inv E G s') (if b then do {
      (r, s) \<leftarrow> sv_update_node E key enr None s;
      Some (case r of UFailed _ \<Rightarrow> (False, ping_remove E i s) | _ \<Rightarrow> (c, s)) }
    else Some (c, s))"
  using assms by (auto intro!: okp_bind2I [OF sv_update_node_ok] split: update_result.split)

lemma discovered_one_ok:
  assumes "sv_inv E G s"
  shows "okp (\<lambda>(keep, s'). sv_inv E G s' \<and> (keep \<longrightarrow> gh_record G enr)) (discovered_one E source enr s)"
proof -
  let ?i = "enr_node_id (se_ops E) enr"
  define s1 where "s1 = (if report_discovered_peers (sv_config s) then send_event E (EvDiscovered enr) s else s)"
  have inv: "sv_inv E G s1" using assms by (simp add: s1_def)
  have upd: "okp (\<lambda>(keep, s'). sv_inv E G s' \<and> (keep \<longrightarrow> gh_record G enr)) (if b then do {
      (r, s) \<leftarrow> sv_update_node E (key_from_node_id ?i) enr None s2;
      Some (case r of UFailed _ \<Rightarrow> (False, ping_remove E ?i s) | _ \<Rightarrow> (c, s)) }
    else Some (c, s2))" if "sv_inv E G s2" "gh_record G enr" for s2 b c
    by (rule okp_mono [OF update_discovered_ok [OF that(1)]])
      (use that(2) in \<open>auto simp: stored_ok_def key_from_node_id_def\<close>)
  show ?thesis
  proof (cases "?i \<noteq> enr_node_id (se_ops E) (sv_local_enr s) \<and> table_filter (sv_config s1) enr")
    case True
    then have "gh_record G enr" using inv by (simp add: sv_inv_def admits_ok_def)
    note u = upd [OF _ this]
    from True show ?thesis unfolding discovered_one_def Let_def s1_def [symmetric]
      by (simp only: if_False if_True not_False_eq_True) (rule okp_bind2I [OF table_entry_ok [OF inv]], rule u, simp)
  qed (use assms inv in \<open>auto simp: discovered_one_def Let_def s1_def [symmetric]\<close>)
qed

lemma discovered_retain_ok:
  "sv_inv E G s \<Longrightarrow> okp (\<lambda>(kept, s'). sv_inv E G s' \<and> (\<forall>enr\<in>set kept. gh_record G enr)) (discovered_retain E source enrs s)"
proof (induction enrs arbitrary: s)
  case (Cons enr enrs)
  show ?case unfolding discovered_retain.simps
    by (rule okp_bind2I [OF discovered_one_ok [OF Cons.prems]], rule okp_bind2I [OF Cons.IH]) auto
qed simp

lemma add_untrusted_keeps [simp]:
  "q_id (add_untrusted N enr q) = q_id q" "q_peer_iter (add_untrusted N enr q) = q_peer_iter q"
  "distances_to_request (qt_info (q_target (add_untrusted N enr q))) = distances_to_request (qt_info (q_target q))"
  by (simp_all add: add_untrusted_def Let_def)

lemma fold_untrusted_keeps [simp]:
  "q_id (fold (add_untrusted N) enrs q) = q_id q" "q_peer_iter (fold (add_untrusted N) enrs q) = q_peer_iter q"
  "distances_to_request (qt_info (q_target (fold (add_untrusted N) enrs q))) = distances_to_request (qt_info (q_target q))"
  by (induction enrs arbitrary: q) simp_all

lemma fold_untrusted_ok:
  "\<forall>enr\<in>set (untrusted_enrs (qt_info (q_target q))). R enr \<Longrightarrow> \<forall>enr\<in>set enrs. R enr \<Longrightarrow>
     \<forall>enr\<in>set (untrusted_enrs (qt_info (q_target (fold (add_untrusted N) enrs q)))). R enr"
proof (induction enrs arbitrary: q)
  case (Cons enr enrs)
  have "\<forall>e\<in>set (untrusted_enrs (qt_info (q_target (add_untrusted N enr q)))). R e"
    using Cons.prems by (simp add: add_untrusted_def Let_def)
  with Cons.IH [of "add_untrusted N enr q"] Cons.prems(2) show ?case by simp
qed simp

lemma query_discovered_ok:
  assumes "sv_inv E G s" "qpool_queries (sv_queries s) qid = Some q" "\<forall>enr\<in>set enrs. gh_record G enr"
  shows "okp (sv_inv E G) (do {
    q \<leftarrow> query_on_success key_from_node_id (enr_node_id N) source enrs (fold (add_untrusted N) enrs q);
    Some (s\<lparr>sv_queries := (sv_queries s)\<lparr>qpool_queries := (qpool_queries (sv_queries s))(qid \<mapsto> q)\<rparr>\<rparr>) })"
proof -
  let ?q = "fold (add_untrusted N) enrs q"
  note q = pool_ok_query [OF sv_inv_pool [OF assms(1)] assms(2)]
  then have "iter_inv (q_peer_iter ?q)" by simp
  from query_on_success_inv [OF this] obtain q' where
    q': "query_on_success key_from_node_id (enr_node_id N) source enrs ?q = Some q'" "iter_inv (q_peer_iter q')" "q_id q' = q_id ?q"
    by blast
  have "pool_ok (gh_record G) ((sv_queries s)\<lparr>qpool_queries := (qpool_queries (sv_queries s))(qid \<mapsto> q')\<rparr>)"
    by (rule pool_ok_put [OF sv_inv_pool [OF assms(1)] assms(2) q'(2)])
      (use q q'(3) query_on_success_target [OF q'(1)] fold_untrusted_ok [OF _ assms(3), of q N] in simp_all)
  with sv_inv_queries [OF assms(1)] q'(1) show ?thesis by simp
qed

lemma discovered_ok:
  assumes "sv_inv E G s"
  shows "okp (sv_inv E G) (discovered E source enrs query_id s)"
  unfolding discovered_def qpool_get_def
  by (rule okp_bind2I [OF discovered_retain_ok [OF assms]])
    (auto split: option.split intro: query_discovered_ok)

section \<open>Connections\<close>

lemma insert_connected_ok:
  assumes "sv_inv E G s" "stored_ok (se_ops E) (gh_record G) i enr"
  shows "okp (\<lambda>(r, s'). sv_inv E G s') (insert_connected E i enr direction s)"
proof -
  have st: "stored_ok (se_ops E) (gh_record G) (hash (key_from_node_id i)) enr"
    using assms(2) by (simp add: key_from_node_id_def)
  have "okp (\<lambda>(x, t). tab_ok E G t)
     (kt_insert_or_update (se_clock E (sv_reads s)) (se_clock E (Suc (sv_reads s))) (key_from_node_id i) enr
       \<lparr>st_direction = direction, st_state = Connected\<rparr> (sv_kbuckets s))"
    by (rule tab_op [OF kt_insert_or_update_keeps [OF sv_inv_table [OF assms(1)]]])
      (erule kt_insert_or_update_ok [where V = "stored_ok (se_ops E) (gh_record G)", OF sv_inv_records [OF assms(1)] st])
  then show ?thesis unfolding insert_connected_def sv_tick_def
    by simp (rule okp_bind2I, assumption, use assms in \<open>auto intro!: sv_inv_kbuckets\<close>)
qed

lemma set_disconnected_ok:
  assumes "sv_inv E G s"
  shows "okp (sv_inv E G) (set_disconnected E i s)"
proof -
  have "okp (\<lambda>(x, t). tab_ok E G t)
     (kt_update_node_status (se_clock E (sv_reads s)) (se_clock E (Suc (sv_reads s))) (key_from_node_id i) Disconnected None
       (sv_kbuckets s))"
    by (rule tab_op [OF kt_update_node_status_keeps [OF sv_inv_table [OF assms]]])
      (erule kt_update_node_status_ok [OF sv_inv_records [OF assms]])
  then show ?thesis unfolding set_disconnected_def sv_tick_def
    by simp (rule okp_bind2I, assumption, use assms in \<open>auto intro!: sv_inv_kbuckets\<close>)
qed

lemma ping_disconnected_ok:
  assumes "service_env_ok E (gh_ids G)" "sv_inv E G s"
  shows "okp (sv_inv E G) (ping_disconnected E key s)"
  unfolding ping_disconnected_def
  by (rule okp_bind2I [OF table_entry_ok [OF assms(2)]]) (auto split: view.split intro: send_ping_inv [OF assms(1)])

fun status_ok where
  "status_ok N R i (StConnected enr _) \<longleftrightarrow> stored_ok N R i enr"
| "status_ok N R i (StPongReceived enr) \<longleftrightarrow> stored_ok N R i enr"
| "status_ok N R i StDisconnected \<longleftrightarrow> True"

lemma connection_updated_ok:
  assumes "service_env_ok E (gh_ids G)" "sv_inv E G s" "status_ok (se_ops E) (gh_record G) i st"
  shows "okp (sv_inv E G) (connection_updated E i st s)"
proof (cases st)
  case (StConnected enr direction)
  with assms(3) have ok: "stored_ok (se_ops E) (gh_record G) i enr" by simp
  show ?thesis unfolding connection_updated_def StConnected connection_status.case
    by (rule okp_bind2I [OF insert_connected_ok [OF assms(2) ok]])
      (auto simp: Let_def send_ping_inv [OF assms(1)] split: table_insert_result.split intro: ping_disconnected_ok [OF assms(1)])
next
  case (StPongReceived enr)
  with assms(3) have ok: "stored_ok (se_ops E) (gh_record G) (hash (key_from_node_id i)) enr"
    by (simp add: key_from_node_id_def)
  show ?thesis unfolding connection_updated_def StPongReceived connection_status.case
    by (rule okp_bind2I [OF sv_update_node_ok [OF assms(2) ok]]) (auto split: update_result.split)
next
  case StDisconnected
  show ?thesis unfolding connection_updated_def StDisconnected connection_status.case
    by (rule okp_map_option, rule okp_mono [OF set_disconnected_ok [OF assms(2)]]) simp
qed

lemma inject_session_established_ok:
  assumes "service_env_ok E (gh_ids G)" "sv_inv E G s" "enr \<in> gh_sessions G"
  shows "okp (sv_inv E G) (inject_session_established E enr direction s)"
proof (cases "get_contactable_addr (se_ops E) (sv_ip_mode s) enr")
  case None
  with assms(2) show ?thesis by (simp add: inject_session_established_def)
next
  case (Some a)
  then have "stored_ok (se_ops E) (gh_record G) (enr_node_id (se_ops E) enr) enr"
    using assms(2,3) by (simp add: stored_ok_def sv_inv_def admits_ok_def)
  with connection_updated_ok [OF assms(1,2)] Some show ?thesis by (simp add: inject_session_established_def Let_def)
qed

section \<open>Answering requests\<close>

lemma nodes_to_send_ok:
  assumes "sv_inv E G s"
  shows "okp (\<lambda>(nodes, s'). sv_inv E G s') (nodes_to_send E requester distances s)"
proof -
  have nb: "okp (\<lambda>(x, t). tab_ok E G t) (kt_nodes_by_distances clock ds m (sv_kbuckets s))" for clock ds m
    by (rule tab_op [OF kt_nodes_by_distances_keeps [OF sv_inv_table [OF assms]]])
      (erule kt_nodes_by_distances_ok [OF sv_inv_records [OF assms]])
  show ?thesis unfolding nodes_to_send_def sv_ticks_def Let_def
    by (auto simp: assms intro!: okp_bind2I [OF nb] sv_inv_kbuckets split: list.split)
qed

lemma send_nodes_response_ok:
  assumes "sv_inv E G s"
  shows "okp (sv_inv E G) (send_nodes_response E addr rpc_id distances s)"
  unfolding send_nodes_response_def
  by (rule okp_bind2I [OF nodes_to_send_ok [OF assms]]) (auto intro: fold_inv)

text \<open>The record that the table holds, or has pending, for a node.\<close>

definition stored_enr where
  "stored_enr E i s =
     (case table_entry E (key_from_node_id i) s of
        Some (ViewPresent enr _, _) \<Rightarrow> Some enr
      | Some (ViewPending enr, _) \<Rightarrow> Some enr
      | _ \<Rightarrow> None)"

text \<open>
  The two assertions of the service: a stored record that a PING shows to be outdated is contactable, and a
  response comes from the address the request went to.
\<close>

definition request_expected where
  "request_expected E addr request s \<longleftrightarrow>
     (case req_body request of
        Ping seq \<Rightarrow>
          (case stored_enr E (na_node_id addr) s of
             Some enr \<Rightarrow> enr_seq (se_ops E) enr < seq \<longrightarrow> get_contactable_addr (se_ops E) (sv_ip_mode s) enr \<noteq> None
           | None \<Rightarrow> True)
      | _ \<Rightarrow> True)"

definition response_expected where
  "response_expected E addr response s \<longleftrightarrow>
     (case sv_active_requests s (resp_id response) of
        Some active \<Rightarrow> nc_node_address (se_ops E) (ac_contact active) = addr
      | None \<Rightarrow> True)"

lemma table_entry_ip_mode: "table_entry E k s = Some (v, s') \<Longrightarrow> sv_ip_mode s' = sv_ip_mode s"
  by (auto simp: table_entry_def sv_tick_def Let_def split: Option.bind_splits entry.splits)

lemma handle_rpc_request_ok:
  assumes "service_env_ok E (gh_ids G)" "sv_inv E G s"
  shows "if request_expected E addr request s then okp (sv_inv E G) (handle_rpc_request E addr request s)
    else handle_rpc_request E addr request s = None"
proof (cases "req_body request")
  case (Ping seq)
  obtain v s1 where v: "table_entry E (key_from_node_id (na_node_id addr)) s = Some (v, s1)" "sv_inv E G s1"
    using table_entry_ok [OF assms(2), of "key_from_node_id (na_node_id addr)"] by (auto simp: okp_def split: option.splits)
  define r where "r = (case v of
      ViewPresent enr _ \<Rightarrow> if enr_seq (se_ops E) enr < seq then Some enr else None
    | ViewPending enr \<Rightarrow> if enr_seq (se_ops E) enr < seq then Some enr else None
    | ViewOther \<Rightarrow> None)"
  have e: "request_expected E addr request s \<longleftrightarrow>
      (case r of Some enr \<Rightarrow> get_contactable_addr (se_ops E) (sv_ip_mode s) enr \<noteq> None | None \<Rightarrow> True)"
    by (auto simp: request_expected_def stored_enr_def Ping v(1) r_def split: view.splits option.splits)
  have h: "handle_rpc_request E addr request s =
     do { s2 \<leftarrow> (case map_option (\<lambda>enr. try_from_enr (se_ops E) enr (sv_ip_mode s1)) r of
                 None \<Rightarrow> Some s1
               | Some (Inr contact) \<Rightarrow> Some (request_find_node_designated_peer E contact [0] None s1)
               | Some (Inl _) \<Rightarrow> None);
          Some (if sa_port (na_socket_addr addr) \<noteq> 0
                then snd (handler_send (InResponse addr \<lparr>resp_id = req_id request,
                  resp_body = Pong (enr_seq (se_ops E) (sv_local_enr s2)) (sa_ip (na_socket_addr addr)) (sa_port (na_socket_addr addr))\<rparr>) s2)
                else s2) }"
    by (simp add: handle_rpc_request_def Ping v(1) r_def Let_def)
  show ?thesis unfolding e h
    using v(2) table_entry_ip_mode [OF v(1)]
    by (auto simp: request_find_node_designated_peer_def okp_def send_rpc_request_inv [OF assms(1)] try_from_enr_def
        split: option.split)
qed (use assms send_nodes_response_ok [OF assms(2)] in \<open>simp_all add: request_expected_def handle_rpc_request_def\<close>)

section \<open>Responses\<close>

lemma filter_nodes_inv: "sv_inv E G s \<Longrightarrow> sv_inv E G (snd (filter_nodes E addr distances nodes s))"
  by (simp add: filter_nodes_def Let_def)

lemma ban_frame [simp]:
  "sv_active_requests (ban E addr s) = sv_active_requests s" "sv_draws (ban E addr s) = sv_draws s"
  "sv_active_nodes_responses (ban E addr s) = sv_active_nodes_responses s"
  "sv_to_handler (ban E addr s) = sv_to_handler s" "sv_kbuckets (ban E addr s) = sv_kbuckets s"
  "sv_queries (ban E addr s) = sv_queries s" "sv_replies (ban E addr s) = sv_replies s"
  "sv_config (ban E addr s) = sv_config s" "sv_ip_mode (ban E addr s) = sv_ip_mode s"
  by (simp_all add: ban_def sv_tick_def Let_def split: option.split)

lemma filter_nodes_frame [simp]:
  "sv_active_requests (snd (filter_nodes E addr ds nodes s)) = sv_active_requests s"
  "sv_draws (snd (filter_nodes E addr ds nodes s)) = sv_draws s"
  "sv_active_nodes_responses (snd (filter_nodes E addr ds nodes s)) = sv_active_nodes_responses s"
  "sv_to_handler (snd (filter_nodes E addr ds nodes s)) = sv_to_handler s"
  "sv_kbuckets (snd (filter_nodes E addr ds nodes s)) = sv_kbuckets s"
  "sv_queries (snd (filter_nodes E addr ds nodes s)) = sv_queries s"
  "sv_replies (snd (filter_nodes E addr ds nodes s)) = sv_replies s"
  "sv_config (snd (filter_nodes E addr ds nodes s)) = sv_config s"
  "sv_ip_mode (snd (filter_nodes E addr ds nodes s)) = sv_ip_mode s"
  by (simp_all add: filter_nodes_def Let_def)

lemma log2_distance_self: "log2_distance (key_from_node_id i) (key_from_node_id j) = None \<longleftrightarrow> j = i"
  by (auto simp: log2_distance_bucket_index key_from_node_id_def)

lemma filter_nodes_kept:
  "fst (filter_nodes E addr ds nodes s) =
     (if ds = [0] \<and> length nodes \<le> 1 then nodes else filter (wanted (se_ops E) (na_node_id addr) ds) nodes)"
proof (cases "ds = [0]")
  case False
  then have "at_distances (se_ops E) (na_node_id addr) ds = wanted (se_ops E) (na_node_id addr) ds"
    by (auto simp: fun_eq_iff at_distances_def wanted_def split: option.split)
  with False show ?thesis by (simp add: filter_nodes_def Let_def)
qed (auto simp: filter_nodes_def wanted_def log2_distance_self Let_def intro!: filter_cong)

lemma filter_nodes_chunk: "chunk_ok (se_ops E) (na_node_id addr) ds (fst (filter_nodes E addr ds nodes s))"
  by (auto simp: chunk_ok_def filter_nodes_kept)

text \<open>The responses to a request so far, of which there are fewer than have been counted.\<close>

definition current_nodes where
  "current_nodes s i = (case sv_active_nodes_responses s i of Some c \<Rightarrow> c | None \<Rightarrow> nodes_response_default)"

lemma current_nodes_collected:
  assumes "sv_inv E G s" "sv_draws s \<le> gh_ids G" "sv_active_requests s i = Some active"
    "ac_request_body active = request_body.FindNode ds" "ac_callback active = None"
  shows "collected (se_ops E) (max_nodes_response (sv_config s)) active (current_nodes s i) \<and>
    nr_count (current_nodes s i) \<le> MAX_NODES_RESPONSES"
proof (cases "sv_active_nodes_responses s i")
  case None
  then show ?thesis using assms(4,5)
    by (auto simp: current_nodes_def collected_def nodes_response_default_def MAX_NODES_RESPONSES_def MAX_NODES_PER_BUCKET_def
        DISTANCES_TO_REQUEST_PER_PEER_def)
next
  case (Some c)
  with assms(1-3) show ?thesis by (simp add: current_nodes_def sv_inv_def nodes_ok_def)
qed

text \<open>Storing a further response keeps what was collected at the requested distances.\<close>

lemma collected_append:
  assumes "collected N m active c" "ac_request_body active = request_body.FindNode ds"
    "chunk_ok N (nc_node_id N (ac_contact active)) ds chunk" "length (nr_received_nodes c) < m"
  shows "collected N m active \<lparr>nr_count = nr_count c + 1, nr_received_nodes = nr_received_nodes c @ chunk\<rparr>"
proof -
  from assms(1,2) obtain chunks where "nr_received_nodes c = concat chunks" "nr_count c = length chunks + 1"
    "\<forall>chunk\<in>set chunks. chunk_ok N (nc_node_id N (ac_contact active)) ds chunk" "ac_callback active = None"
    by (auto simp: collected_def)
  with assms(2-4) show ?thesis by (auto simp: collected_def intro!: exI [of _ "chunks @ [chunk]"])
qed

lemma store_nodes_inv:
  assumes inv: "sv_inv E G s" and room: "sv_draws s \<le> gh_ids G" and i: "sv_active_requests s i = Some active"
    and ds: "ac_request_body active = request_body.FindNode ds" and cb: "ac_callback active = None"
    and n: "nr_count (current_nodes s i) < MAX_NODES_RESPONSES" "length (nr_received_nodes (current_nodes s i)) < max_nodes_response (sv_config s)"
    and nodes: "chunk_ok (se_ops E) (nc_node_id (se_ops E) (ac_contact active)) ds nodes"
    and s': "sv_kbuckets s' = sv_kbuckets s" "sv_to_handler s' = sv_to_handler s" "sv_queries s' = sv_queries s" "sv_draws s' = sv_draws s"
      "sv_active_requests s' = sv_active_requests s"
      "sv_active_nodes_responses s' = (sv_active_nodes_responses s)(i \<mapsto>
         \<lparr>nr_count = nr_count (current_nodes s i) + 1, nr_received_nodes = nr_received_nodes (current_nodes s i) @ nodes\<rparr>)"
      "sv_replies s' = sv_replies s" "sv_config s' = sv_config s" "sv_ip_mode s' = sv_ip_mode s"
  shows "sv_inv E G s'"
proof -
  from collected_append [OF conjunct1 [OF current_nodes_collected [OF inv room i ds cb]] ds nodes n(2)]
  have "nodes_ok E s'" using inv room i n(1) s'(4-6,8) by (auto simp: sv_inv_def nodes_ok_def)
  moreover have "requests_ok E s'" "gh_kept G s'"
    using inv room s'(2,4,5,7) by (simp_all add: sv_inv_def requests_ok_def gh_kept_def cb_waiting_def cb_answered_def)
  ultimately show ?thesis using inv s'(1,3,8,9) by (simp add: sv_inv_def admits_ok_def)
qed

lemma handle_nodes_ok:
  assumes inv: "sv_inv E G s" and room: "sv_draws s \<le> gh_ids G" and i: "sv_active_requests s i = Some active"
    and ds: "ac_request_body active = request_body.FindNode ds" and cb: "ac_callback active = None"
    and addr: "nc_node_address (se_ops E) (ac_contact active) = addr"
  shows "okp (sv_inv E G) (handle_nodes E addr i active n_total nodes
     (s\<lparr>sv_active_requests := (sv_active_requests s)(i := None)\<rparr>))"
proof -
  define s1 where "s1 = s\<lparr>sv_active_requests := (sv_active_requests s)(i := None)\<rparr>"
  have inv1: "sv_inv E G s1" using sv_inv_remove_active [OF inv i] by (simp add: s1_def cb_set_def cb)
  obtain kept s2 where f: "filter_nodes E addr ds nodes s1 = (kept, s2)" by fastforce
  have inv2: "sv_inv E G s2" using filter_nodes_inv [OF inv1, of addr ds nodes] f by simp
  note frame = filter_nodes_frame [of E addr ds nodes s1, unfolded f snd_conv, unfolded s1_def, simplified]
  define c where "c = current_nodes s2 i"
  have c_s: "c = current_nodes s i" using frame by (simp add: c_def current_nodes_def)
  define cleared where "cleared = s2\<lparr>sv_active_nodes_responses := (sv_active_nodes_responses s2)(i := None)\<rparr>"
  have clr: "sv_inv E G cleared" unfolding cleared_def by (rule sv_inv_remove_nodes [OF inv2])
  define stored where "stored = s2\<lparr>sv_active_nodes_responses := (sv_active_nodes_responses s2)(i \<mapsto>
       \<lparr>nr_count = nr_count c + 1, nr_received_nodes = nr_received_nodes c @ kept\<rparr>),
     sv_active_requests := (sv_active_requests s2)(i \<mapsto> active)\<rparr>"
  have st: "sv_inv E G stored" if "nr_count c < MAX_NODES_RESPONSES" "length (nr_received_nodes c) < max_nodes_response (sv_config s2)"
  proof (rule store_nodes_inv [OF inv room i ds cb])
    show "chunk_ok (se_ops E) (nc_node_id (se_ops E) (ac_contact active)) ds kept"
      using filter_nodes_chunk [of E addr ds nodes s1] f addr by (auto simp: nc_node_address_def)
  qed (use i c_s frame that in \<open>simp_all add: stored_def fun_upd_idem\<close>)
  have upd: "active\<lparr>ac_callback := None\<rparr> = active" using cb by simp
  show ?thesis unfolding s1_def [symmetric]
    using inv1 st discovered_ok [OF clr] f
    by (auto simp: handle_nodes_def ds cb upd Let_def c_def current_nodes_def cleared_def stored_def split: option.split)
qed

lemma update_local_socket_inv: "sv_inv E G s \<Longrightarrow> update_local_socket E socket s = (u, s') \<Longrightarrow> sv_inv E G s'"
  by (auto simp: update_local_socket_def split: option.splits)

lemma update_sockets_ok:
  assumes "service_env_ok E (gh_ids G)" "sv_inv E G s"
  shows "okp (sv_inv E G) (update_sockets E n4 n6 s)"
proof -
  obtain u6 s6 where s6: "(case n6 of Some m \<Rightarrow> update_local_socket E (v6_socket m) s | None \<Rightarrow> (False, s)) = (u6, s6)" by fastforce
  have i6: "sv_inv E G s6"
    using s6 assms(2) update_local_socket_inv [OF assms(2)] by (cases n6) (simp, metis option.simps(5))
  obtain u4 s4 where s4: "(case n4 of Some m \<Rightarrow> update_local_socket E (v4_socket m) s6 | None \<Rightarrow> (False, s6)) = (u4, s4)" by fastforce
  have "sv_inv E G s4" using s4 i6 update_local_socket_inv [OF i6] by (cases n4) (simp, metis option.simps(5))
  with ping_connected_peers_ok [OF assms(1) this] show ?thesis by (simp add: update_sockets_def s6 s4)
qed

lemma count_vote_ok:
  assumes "service_env_ok E (gh_ids G)" "sv_inv E G s"
  shows "okp (sv_inv E G) (count_vote E i socket s)"
proof -
  show ?thesis
  proof (cases "sv_ip_votes s")
    case None
    with assms(2) show ?thesis by (simp add: count_vote_def)
  next
    case (Some votes)
    let ?s = "s\<lparr>sv_reads := Suc (Suc (sv_reads s))\<rparr>"
    obtain o1 o2 o3 where o: "se_vote_orders E (Suc (Suc (sv_reads s))) (iv_insert (se_clock E (sv_reads s)) i socket votes) = (o1, o2, o3)"
      by (metis prod.exhaust)
    obtain m4 m6 v where m: "iv_majority (se_clock E (Suc (sv_reads s))) o1 o2 o3 (iv_insert (se_clock E (sv_reads s)) i socket votes) = ((m4, m6), v)"
      by (metis prod.exhaust)
    have inv: "sv_inv E G (?s\<lparr>sv_ip_votes := Some v\<rparr>)" using assms(2) by simp
    show ?thesis unfolding count_vote_def Some option.case sv_tick_def Let_def prod.case
      using inv update_sockets_ok [OF assms(1) inv] by (simp add: o m)
  qed
qed

lemma handle_pong_ok:
  assumes "service_env_ok E (gh_ids G)" "sv_inv E G s" "ac_callback active = None"
  shows "okp (sv_inv E G) (handle_pong E addr active seq ip port s)"
proof -
  have tail: "okp (sv_inv E G) (do {
            (enr, s) \<leftarrow> find_enr E i s;
            case enr of
              None \<Rightarrow> Some s
            | Some enr \<Rightarrow>
                let s = (if enr_seq (se_ops E) enr < seq
                         then send_rpc_request E \<lparr>ac_contact = ac_contact active, ac_request_body = request_body.FindNode [0],
                           ac_query_id = None, ac_callback = None\<rparr> s
                         else s)
                in connection_updated E i (StPongReceived enr) s })" if "sv_inv E G s" for i s
    by (rule okp_bind2I [OF find_enr_ok [OF that]])
      (auto simp: Let_def split: option.split intro!: connection_updated_ok [OF assms(1)] send_rpc_request_inv [OF assms(1)])
  have "okp (sv_inv E G) (do {
            (view, s) \<leftarrow> table_entry E (key_from_node_id (na_node_id addr)) s;
            let should_count = (case view of ViewPresent _ status \<Rightarrow> is_connected status \<and> \<not> is_incoming status | _ \<Rightarrow> False);
            s \<leftarrow> (if should_count then count_vote E (na_node_id addr) (socket_of ip port) s else Some s);
            (enr, s) \<leftarrow> find_enr E (na_node_id addr) s;
            case enr of
              None \<Rightarrow> Some s
            | Some enr \<Rightarrow>
                let s = (if enr_seq (se_ops E) enr < seq
                         then send_rpc_request E \<lparr>ac_contact = ac_contact active, ac_request_body = request_body.FindNode [0],
                           ac_query_id = None, ac_callback = None\<rparr> s
                         else s)
                in connection_updated E (na_node_id addr) (StPongReceived enr) s })"
    unfolding Let_def
    by (rule okp_bind2I [OF table_entry_ok [OF assms(2)]], rule okp_bindI [where P = "sv_inv E G"])
      (simp_all add: count_vote_ok [OF assms(1)] tail [unfolded Let_def])
  with assms(3) show ?thesis by (simp add: handle_pong_def Let_def)
qed

text \<open>
  A response of another kind than the one asked for makes the service forget the request: its callback is
  released without an answer.
\<close>

definition released :: "('enr, 'pk) service_event \<Rightarrow> ('enr, 'pk, 'mp) service \<Rightarrow> nat set" where
  "released event s =
     (case event of
        FromHandler (OutResponse addr response) \<Rightarrow>
          (case sv_active_requests s (resp_id response) of
             Some a \<Rightarrow> if match_request response (ac_request_body a) then {} else cb_set a
           | None \<Rightarrow> {})
      | _ \<Rightarrow> {})"

abbreviation without where
  "without G C \<equiv> G\<lparr>gh_callbacks := gh_callbacks G - C\<rparr>"

lemma matched_response_ok:
  assumes "service_env_ok E (gh_ids G)" "sv_inv E G s" "sv_draws s \<le> gh_ids G" "sv_active_requests s (resp_id response) = Some active"
    "match_request response (ac_request_body active)" "nc_node_address (se_ops E) (ac_contact active) = addr"
  shows "okp (sv_inv E G) (handle_rpc_response E addr response s)"
proof -
  let ?s = "s\<lparr>sv_active_requests := (sv_active_requests s)(resp_id response := None)\<rparr>"
  have fits: "request_fits active" by (rule sv_inv_fits [OF assms(2-4)])
  have inv: "sv_inv E (without G (cb_set active)) ?s" by (rule sv_inv_remove_active [OF assms(2,4)])
  show ?thesis
  proof (cases "ac_callback active")
    case None
    with inv have inv: "sv_inv E G ?s" by (simp add: cb_set_def)
    have nodes: "okp (sv_inv E G) (handle_nodes E addr (resp_id response) active n ns ?s)"
      if "resp_body response = Nodes n ns" for n ns
    proof -
      from assms(5) that obtain ds where "ac_request_body active = request_body.FindNode ds"
        by (cases "ac_request_body active") (simp_all add: match_request_def)
      from handle_nodes_ok [OF assms(2-4) this None assms(6)] show ?thesis .
    qed
    show ?thesis using inv nodes handle_pong_ok [OF assms(1) inv None]
      by (auto simp: handle_rpc_response_def assms(4-6) Let_def handle_talk_def None split: response_body.split)
  next
    case (Some cb)
    then have ans: "sv_inv E G (reply (cb_of cb) r ?s)" for r
      using inv by (intro reply_inv_answered) (simp add: cb_set_def)
    show ?thesis using fits assms(5) ans
      by (cases cb; cases "resp_body response")
        (auto simp: handle_rpc_response_def assms(4-6) Let_def handle_talk_def handle_nodes_def handle_pong_def Some match_request_def)
  qed
qed

lemma handle_rpc_response_ok:
  assumes "service_env_ok E (gh_ids G)" "sv_inv E G s" "sv_draws s \<le> gh_ids G"
  shows "if response_expected E addr response s
    then okp (sv_inv E (without G (released (FromHandler (OutResponse addr response)) s))) (handle_rpc_response E addr response s)
    else handle_rpc_response E addr response s = None"
proof (cases "sv_active_requests s (resp_id response)")
  case None
  with assms(2) show ?thesis by (simp add: response_expected_def handle_rpc_response_def released_def)
next
  case (Some active)
  consider "nc_node_address (se_ops E) (ac_contact active) \<noteq> addr"
    | "nc_node_address (se_ops E) (ac_contact active) = addr" "match_request response (ac_request_body active)"
    | "nc_node_address (se_ops E) (ac_contact active) = addr" "\<not> match_request response (ac_request_body active)" by blast
  then show ?thesis
  proof cases
    case 2
    with matched_response_ok [OF assms Some 2(2,1)] Some show ?thesis by (simp add: response_expected_def released_def)
  qed (use Some sv_inv_remove_active [OF assms(2) Some] in
    \<open>simp_all add: response_expected_def handle_rpc_response_def Let_def released_def\<close>)
qed

section \<open>Failed requests\<close>

lemma reply_error_inv: "sv_inv E (without G {cb_of cb}) s \<Longrightarrow> sv_inv E G (reply_error cb error s)"
  by (cases cb) (simp_all add: reply_inv_answered)

lemma query_id_failed_ok: "sv_inv E G s \<Longrightarrow> okp (sv_inv E G) (query_id_failed query_id peer s)"
  by (simp add: query_id_failed_def query_failed_ok split: option.split)

lemma rpc_failure_ok:
  assumes "service_env_ok E (gh_ids G)" "sv_inv E G s"
  shows "okp (sv_inv E G) (rpc_failure E i error s)"
proof (cases "sv_active_requests s i")
  case None
  with assms(2) show ?thesis by (simp add: rpc_failure_def)
next
  case (Some active)
  define s1 where "s1 = s\<lparr>sv_active_requests := (sv_active_requests s)(i := None)\<rparr>"
  have inv: "sv_inv E (without G (cb_set active)) s1" unfolding s1_def by (rule sv_inv_remove_active [OF assms(2) Some])
  show ?thesis
  proof (cases "ac_callback active")
    case None
    with inv have inv: "sv_inv E G s1" by (simp add: cb_set_def)
    note clr = sv_inv_remove_nodes [OF inv, of i]
    show ?thesis unfolding rpc_failure_def Some None option.case Let_def s1_def [symmetric]
      by (rule okp_bindI [where P = "sv_inv E G"])
        (use inv clr discovered_ok [OF clr] query_id_failed_ok [OF inv] in
          \<open>auto simp: Let_def connection_updated_ok [OF assms(1)] split: request_body.split option.split\<close>)
  next
    case cb: (Some cb)
    with inv have "sv_inv E G (reply_error cb error s1)" by (intro reply_error_inv) (simp add: cb_set_def)
    then show ?thesis by (simp add: rpc_failure_def Some cb s1_def Let_def)
  qed
qed

section \<open>The loop\<close>

lemma bucket_maintenance_inv:
  assumes "sv_inv E G s"
  shows "sv_inv E G (bucket_maintenance E s)"
proof -
  obtain r t where t: "kt_take_applied_pending (sv_kbuckets s) = (r, t)" by fastforce
  have "tab_ok E G t" using sv_inv_tab [OF assms] kt_take_applied_pending_keeps [of "sv_kbuckets s"] kt_take_applied_pending_ok [of _ "sv_kbuckets s"]
    by (auto simp: tab_ok_def t kt_keeps_def)
  with assms show ?thesis
    by (auto simp: bucket_maintenance_def t split: option.split)
qed

lemma ping_timer_ok:
  assumes "service_env_ok E (gh_ids G)" "sv_inv E G s"
  shows "okp (sv_inv E G) (ping_timer E s)"
proof -
  obtain r m where r: "ds_poll (se_ping_set E) (se_clock E (sv_reads s)) (sv_peers_to_ping s) = (r, m)" by fastforce
  let ?s = "s\<lparr>sv_reads := Suc (sv_reads s), sv_peers_to_ping := m\<rparr>"
  have "sv_inv E G ?s" using assms(2) by (simp add: sv_inv_defs)
  then show ?thesis unfolding ping_timer_def sv_tick_def
    by (auto simp: Let_def r split: polled.split view.split intro!: okp_bind2I [OF table_entry_ok] send_ping_inv [OF assms(1)])
qed

lemma whoareyou_ok: "sv_inv E G s \<Longrightarrow> okp (sv_inv E G) (whoareyou E wru s)"
  by (cases wru) (auto simp: whoareyou_def intro!: okp_bind2I [OF find_enr_ok])

definition event_expected where
  "event_expected E event s \<longleftrightarrow>
     (case event of
        FromHandler (OutRequest addr request) \<Rightarrow> request_expected E addr request s
      | FromHandler (OutResponse addr response) \<Rightarrow> response_expected E addr response s
      | _ \<Rightarrow> True)"

text \<open>The record that an event reports a session with.\<close>

definition established_by :: "('enr, 'pk) service_event \<Rightarrow> 'enr set" where
  "established_by event = (case event of FromHandler (OutEstablished enr _ _) \<Rightarrow> {enr} | _ \<Rightarrow> {})"

lemma service_step_ok:
  assumes "service_env_ok E (gh_ids G)" "sv_inv E G s" "sv_draws s \<le> gh_ids G" "established_by event \<subseteq> gh_sessions G"
  shows "if event_expected E event s then okp (sv_inv E (without G (released event s))) (service_step E event s)
    else service_step E event s = None"
proof (cases event)
  case (FromUser r)
  show ?thesis
  proof (cases r)
    case (StartQuery k cb)
    with FromUser show ?thesis using start_findnode_query_ok [OF assms(2)] start_predicate_query_ok [OF assms(2)]
      by (cases k) (simp_all add: event_expected_def released_def service_step_def)
  qed (use FromUser assms send_ping_inv [OF assms(1,2)] send_rpc_request_inv [OF assms(1,2)] in
    \<open>simp_all add: event_expected_def released_def service_step_def request_find_node_designated_peer_def service_talk_request_def\<close>)
next
  case (FromHandler out)
  show ?thesis
  proof (cases out)
    case (OutRequest a q)
    with FromHandler handle_rpc_request_ok [OF assms(1,2), of a q] show ?thesis by (simp add: event_expected_def released_def service_step_def)
  next
    case (OutResponse a q)
    with FromHandler handle_rpc_response_ok [OF assms(1-3), of a q] show ?thesis by (simp add: event_expected_def service_step_def)
  qed (use FromHandler assms rpc_failure_ok [OF assms(1,2)] whoareyou_ok [OF assms(2)] in
    \<open>simp_all add: event_expected_def released_def service_step_def established_by_def inject_session_established_ok [OF assms(1)]\<close>)
qed (use assms bucket_maintenance_inv [OF assms(2)] query_event_ok [OF assms(1,2)] ping_timer_ok [OF assms(1,2)] in
  \<open>simp_all add: event_expected_def released_def service_step_def\<close>)

end
