(* ===== verification/Disc_Discv5.thy ===== *)
theory Disc_Discv5
  imports Disc_Service_Inv Disc_Filter
begin

text \<open>
  \<open>src/discv5.rs\<close>: the interface of the crate. \<open>discv5\<close> holds the fields of \<open>Discv5\<close>; the routing table, the
  local record and the global permit and ban list are shared with the running service, so a call of the
  interface runs between \<open>share_in\<close>, which reads them from the service, and \<open>share_out\<close>. The record \<open>api_env\<close>
  holds what the \<open>enr\<close> crate provides, with the key of the node fixed. An asynchronous operation is a function
  of what its channels do: whether the service took the request, and what came back on the callback.
\<close>

section \<open>State\<close>

record 'enr discv5 =
  dv_config :: "'enr config"
  dv_service_channel :: bool
  dv_service_exit :: bool
  dv_kbuckets :: "(node_id, 'enr) kbuckets_table"
  dv_local_enr :: 'enr
  dv_permit_ban :: permit_ban_list
  dv_ip_mode :: ip_mode

record ('enr, 'pk) api_env =
  ae_ops :: "('enr, 'pk) enr_ops"
  ae_key_public :: 'pk
  ae_ip4 :: "'enr \<Rightarrow> ipv4 option"
  ae_tcp4_socket :: "'enr \<Rightarrow> (ipv4 \<times> u16) option"
  ae_tcp6_socket :: "'enr \<Rightarrow> (ipv6 \<times> u16 \<times> u32 \<times> u32) option"
  ae_set_udp_socket :: "socket_addr \<Rightarrow> 'enr \<Rightarrow> 'enr option"
  ae_set_tcp_socket :: "socket_addr \<Rightarrow> 'enr \<Rightarrow> 'enr option"
  ae_insert :: "string \<Rightarrow> byte list \<Rightarrow> 'enr \<Rightarrow> (string + byte list option) \<times> 'enr"

definition discv5_new :: "('enr, 'pk) api_env \<Rightarrow> 'enr \<Rightarrow> 'enr config \<Rightarrow> string + 'enr discv5" where
  "discv5_new A local_enr config =
     (if enr_public_key (ae_ops A) local_enr \<noteq> ae_key_public A
      then Inl ''Provided keypair does not match the provided ENR''
      else
        let config = (if has_executor config then config else config\<lparr>has_executor := True\<rparr>);
            (table_filter, bucket_filter) =
              (if ip_limit config then (Some (IpTableFilter (ae_ip4 A)), Some (IpBucketFilter (ae_ip4 A))) else (None, None))
        in Inr \<lparr>dv_config = config, dv_service_channel = False, dv_service_exit = False,
             dv_kbuckets = kt_new (key_from_node_id (enr_node_id (ae_ops A) local_enr)) (60 * SECOND)
               (incoming_bucket_limit config) table_filter bucket_filter,
             dv_local_enr = local_enr, dv_permit_ban = cfg_permit_ban_list config,
             dv_ip_mode = new_from_listen_config (listen_config config)\<rparr>)"

text \<open>\<open>bind_error\<close> is the error of the sockets, if they cannot be bound.\<close>

definition discv5_start ::
  "('enr, 'pk, 'e, 'mp) service_env \<Rightarrow> string option \<Rightarrow> 'enr discv5
     \<Rightarrow> (('c disc_error + ('enr, 'pk, 'mp) service) \<times> 'enr discv5) option" where
  "discv5_start E bind_error dv =
     (if dv_service_channel dv then Some (Inl EServiceAlreadyStarted, dv)
      else do {
        s \<leftarrow> service_spawn E (dv_local_enr dv) (dv_kbuckets dv) (dv_permit_ban dv) (dv_config dv);
        Some (case bind_error of
                Some e \<Rightarrow> (Inl (EIo e), dv)
              | None \<Rightarrow> (Inr s, dv\<lparr>dv_service_exit := True, dv_service_channel := True\<rparr>))
      })"

text \<open>The result is whether the service was told to exit.\<close>

definition shutdown :: "'enr discv5 \<Rightarrow> bool \<times> 'enr discv5" where
  "shutdown dv =
     (if dv_service_exit dv then (True, dv\<lparr>dv_service_exit := False, dv_service_channel := False\<rparr>) else (False, dv))"

section \<open>The routing table\<close>

definition add_enr ::
  "('enr, 'pk) api_env \<Rightarrow> instant \<Rightarrow> instant \<Rightarrow> 'enr \<Rightarrow> 'enr discv5 \<Rightarrow> ((string + unit) \<times> 'enr discv5) option" where
  "add_enr A now1 now2 enr dv =
     (if get_contactable_addr (ae_ops A) (dv_ip_mode dv) enr = None
      then Some (Inl ''ENR has no compatible UDP socket to connect to'', dv)
      else if \<not> table_filter (dv_config dv) enr then Some (Inl ''ENR banned by table filter'', dv)
      else do {
        (r, t) \<leftarrow> kt_insert_or_update now1 now2 (key_from_node_id (enr_node_id (ae_ops A) enr)) enr
          \<lparr>st_direction = Incoming, st_state = Disconnected\<rparr> (dv_kbuckets dv);
        Some (case r of
                TFailed BucketFull \<Rightarrow> Inl ''Table full''
              | TFailed BucketFilter \<Rightarrow> Inl ''Failed bucket filter''
              | TFailed TableFilter \<Rightarrow> Inl ''Failed table filter''
              | TFailed InvalidSelfUpdate \<Rightarrow> Inl ''Invalid self update''
              | TFailed _ \<Rightarrow> Inl ''Failed to insert ENR''
              | _ \<Rightarrow> Inr (),
              dv\<lparr>dv_kbuckets := t\<rparr>)
      })"

definition remove_node :: "instant \<Rightarrow> instant \<Rightarrow> node_id \<Rightarrow> 'enr discv5 \<Rightarrow> (bool \<times> 'enr discv5) option" where
  "remove_node now1 now2 i dv = do {
     (r, t) \<leftarrow> kt_remove now1 now2 (key_from_node_id i) (dv_kbuckets dv);
     Some (r, dv\<lparr>dv_kbuckets := t\<rparr>)
   }"

definition nodes_by_distance ::
  "(nat \<Rightarrow> instant) \<Rightarrow> u64 list \<Rightarrow> 'enr discv5 \<Rightarrow> ('enr list \<times> 'enr discv5) option" where
  "nodes_by_distance clock distances dv =
     (let distances = dedup_adjacent (sort distances);
          own = (case distances of d # _ \<Rightarrow> if d = 0 then [dv_local_enr dv] else [] | [] \<Rightarrow> []);
          distances = (case distances of d # ds \<Rightarrow> if d = 0 then ds else distances | [] \<Rightarrow> [])
      in if distances = [] then Some (own, dv)
         else do {
           (nodes, t) \<leftarrow> kt_nodes_by_distances clock (map unat distances) (max_nodes_response (dv_config dv)) (dv_kbuckets dv);
           Some (own @ map n_value nodes, dv\<lparr>dv_kbuckets := t\<rparr>)
         })"

definition disconnect_node :: "instant \<Rightarrow> instant \<Rightarrow> node_id \<Rightarrow> 'enr discv5 \<Rightarrow> (bool \<times> 'enr discv5) option" where
  "disconnect_node now1 now2 i dv = do {
     (r, t) \<leftarrow> kt_update_node_status now1 now2 (key_from_node_id i) Disconnected None (dv_kbuckets dv);
     Some (case r of UFailed _ \<Rightarrow> False | _ \<Rightarrow> True, dv\<lparr>dv_kbuckets := t\<rparr>)
   }"

definition dv_table_entries :: "(nat \<Rightarrow> instant) \<Rightarrow> 'enr discv5 \<Rightarrow> ((node_id, 'enr) node list \<times> 'enr discv5) option" where
  "dv_table_entries clock dv = do {
     (nodes, t) \<leftarrow> kt_iter clock (dv_kbuckets dv);
     Some (nodes, dv\<lparr>dv_kbuckets := t\<rparr>)
   }"

definition connected_peers :: "(nat \<Rightarrow> instant) \<Rightarrow> 'enr discv5 \<Rightarrow> (nat \<times> 'enr discv5) option" where
  "connected_peers clock dv = do {
     (nodes, dv) \<leftarrow> dv_table_entries clock dv;
     Some (length (filter (\<lambda>n. is_connected (n_status n)) nodes), dv)
   }"

definition table_entries_id :: "(nat \<Rightarrow> instant) \<Rightarrow> 'enr discv5 \<Rightarrow> (node_id list \<times> 'enr discv5) option" where
  "table_entries_id clock dv = do {
     (nodes, dv) \<leftarrow> dv_table_entries clock dv;
     Some (map (\<lambda>n. preimage (n_key n)) nodes, dv)
   }"

definition table_entries_enr :: "(nat \<Rightarrow> instant) \<Rightarrow> 'enr discv5 \<Rightarrow> ('enr list \<times> 'enr discv5) option" where
  "table_entries_enr clock dv = do {
     (nodes, dv) \<leftarrow> dv_table_entries clock dv;
     Some (map n_value nodes, dv)
   }"

definition table_entries ::
  "(nat \<Rightarrow> instant) \<Rightarrow> 'enr discv5 \<Rightarrow> ((node_id \<times> 'enr \<times> node_status) list \<times> 'enr discv5) option" where
  "table_entries clock dv = do {
     (nodes, dv) \<leftarrow> dv_table_entries clock dv;
     Some (map (\<lambda>n. (preimage (n_key n), n_value n, n_status n)) nodes, dv)
   }"

definition dv_find_enr :: "instant \<Rightarrow> node_id \<Rightarrow> 'enr discv5 \<Rightarrow> ('enr option \<times> 'enr discv5) option" where
  "dv_find_enr now i dv =
     (let key = key_from_node_id i
      in do {
        (entry, t) \<leftarrow> kt_entry now key (dv_kbuckets dv);
        let dv = dv\<lparr>dv_kbuckets := t\<rparr>;
        case entry of
          Present _ \<Rightarrow> do { b \<leftarrow> kt_get_bucket key t; v \<leftarrow> present_value key b; Some (Some v, dv) }
        | _ \<Rightarrow> Some (None, dv)
      })"

section \<open>The permit and ban list\<close>

definition ban_node ::
  "instant \<Rightarrow> instant \<Rightarrow> instant \<Rightarrow> node_id \<Rightarrow> duration option \<Rightarrow> 'enr discv5 \<Rightarrow> 'enr discv5 option" where
  "ban_node now now1 now2 i duration_of_ban dv =
     (let time_to_unban = map_option (\<lambda>v. now + v) duration_of_ban
      in do {
        (_, dv) \<leftarrow> remove_node now1 now2 i dv;
        let l = dv_permit_ban dv;
        Some (dv\<lparr>dv_permit_ban := l\<lparr>ban_nodes := (ban_nodes l)(i \<mapsto> time_to_unban)\<rparr>\<rparr>)
      })"

definition ban_node_remove :: "node_id \<Rightarrow> permit_ban_list \<Rightarrow> permit_ban_list" where
  "ban_node_remove i l = l\<lparr>ban_nodes := (ban_nodes l)(i := None)\<rparr>"

definition permit_node :: "node_id \<Rightarrow> permit_ban_list \<Rightarrow> permit_ban_list" where
  "permit_node i l = l\<lparr>permit_nodes := insert i (permit_nodes l)\<rparr>"

definition permit_node_remove :: "node_id \<Rightarrow> permit_ban_list \<Rightarrow> permit_ban_list" where
  "permit_node_remove i l = l\<lparr>permit_nodes := permit_nodes l - {i}\<rparr>"

definition ban_ip :: "instant \<Rightarrow> ip_addr \<Rightarrow> duration option \<Rightarrow> permit_ban_list \<Rightarrow> permit_ban_list" where
  "ban_ip now ip duration_of_ban l =
     l\<lparr>ban_ips := (ban_ips l)(ip \<mapsto> map_option (\<lambda>v. now + v) duration_of_ban)\<rparr>"

definition ban_ip_remove :: "ip_addr \<Rightarrow> permit_ban_list \<Rightarrow> permit_ban_list" where
  "ban_ip_remove ip l = l\<lparr>ban_ips := (ban_ips l)(ip := None)\<rparr>"

definition permit_ip :: "ip_addr \<Rightarrow> permit_ban_list \<Rightarrow> permit_ban_list" where
  "permit_ip ip l = l\<lparr>permit_ips := insert ip (permit_ips l)\<rparr>"

definition permit_ip_remove :: "ip_addr \<Rightarrow> permit_ban_list \<Rightarrow> permit_ban_list" where
  "permit_ip_remove ip l = l\<lparr>permit_ips := permit_ips l - {ip}\<rparr>"

section \<open>The local record\<close>

definition set_local_socket :: "'enr option \<Rightarrow> 'enr discv5 \<Rightarrow> bool \<times> 'enr discv5" where
  "set_local_socket r dv = (case r of Some enr \<Rightarrow> (True, dv\<lparr>dv_local_enr := enr\<rparr>) | None \<Rightarrow> (False, dv))"

fun update_local_enr_socket :: "('enr, 'pk) api_env \<Rightarrow> socket_addr \<Rightarrow> bool \<Rightarrow> 'enr discv5 \<Rightarrow> bool \<times> 'enr discv5" where
  "update_local_enr_socket A (SocketV4 a p) False dv =
     (if Some (a, p) \<noteq> enr_udp4_socket (ae_ops A) (dv_local_enr dv)
      then set_local_socket (ae_set_udp_socket A (SocketV4 a p) (dv_local_enr dv)) dv else (False, dv))"
| "update_local_enr_socket A (SocketV4 a p) True dv =
     (if Some (a, p) \<noteq> ae_tcp4_socket A (dv_local_enr dv)
      then set_local_socket (ae_set_tcp_socket A (SocketV4 a p) (dv_local_enr dv)) dv else (False, dv))"
| "update_local_enr_socket A (SocketV6 a p f c) False dv =
     (if Some (a, p, f, c) \<noteq> enr_udp6_socket (ae_ops A) (dv_local_enr dv)
      then set_local_socket (ae_set_udp_socket A (SocketV6 a p f c) (dv_local_enr dv)) dv else (False, dv))"
| "update_local_enr_socket A (SocketV6 a p f c) True dv =
     (if Some (a, p, f, c) \<noteq> ae_tcp6_socket A (dv_local_enr dv)
      then set_local_socket (ae_set_tcp_socket A (SocketV6 a p f c) (dv_local_enr dv)) dv else (False, dv))"

definition enr_insert :: "('enr, 'pk) api_env \<Rightarrow> string \<Rightarrow> byte list \<Rightarrow> 'enr discv5 \<Rightarrow> (string + byte list option) \<times> 'enr discv5" where
  "enr_insert A key value dv =
     (case ae_insert A key value (dv_local_enr dv) of (r, enr) \<Rightarrow> (r, dv\<lparr>dv_local_enr := enr\<rparr>))"

section \<open>Requests to the service\<close>

definition clone_channel :: "'enr discv5 \<Rightarrow> 'c disc_error + unit" where
  "clone_channel dv = (if dv_service_channel dv then Inr () else Inl EServiceNotStarted)"

text \<open>The request that reaches the service, if any, and the result of the future.\<close>

definition await_request ::
  "'enr discv5 \<Rightarrow> ('enr, 'pk) service_request \<Rightarrow> bool \<Rightarrow> string + (request_error + 'a)
     \<Rightarrow> ('enr, 'pk) service_request option \<times> (request_error + 'a)" where
  "await_request dv event sent answer =
     (case (clone_channel dv :: unit disc_error + unit) of
        Inl _ \<Rightarrow> (None, Inl RServiceNotStarted)
      | Inr _ \<Rightarrow>
          if \<not> sent then (None, Inl (RChannelFailed ''Service channel closed''))
          else (Some event, case answer of Inl e \<Rightarrow> Inl (RChannelFailed e) | Inr r \<Rightarrow> r))"

definition dv_send_ping where
  "dv_send_ping dv enr callback sent answer = await_request dv (SvPing enr (Some callback)) sent answer"

definition contact_request where
  "contact_request A dv enr event sent answer =
     (case try_from_enr (ae_ops A) enr (dv_ip_mode dv) of
        Inl _ \<Rightarrow> (None, Inl (RInvalidEnr ''ENR is not contactable''))
      | Inr contact \<Rightarrow> await_request dv (event contact) sent answer)"

definition talk_req where
  "talk_req A dv enr protocol request callback sent answer =
     contact_request A dv enr (\<lambda>contact. SvTalk contact protocol request callback) sent answer"

definition find_node_designated_peer where
  "find_node_designated_peer A dv enr distances callback sent answer =
     contact_request A dv enr (\<lambda>contact. FindNodeDesignated contact distances callback) sent answer"

datatype query_error =
    QServiceNotStarted | QChannelFailed string | QInvalidEnr string | QEncryptionFailed string | QInvalidMultiaddr string

definition await_query ::
  "'enr discv5 \<Rightarrow> ('enr, 'pk) service_request \<Rightarrow> bool \<Rightarrow> string + 'enr list
     \<Rightarrow> ('enr, 'pk) service_request option \<times> (query_error + 'enr list)" where
  "await_query dv event sent answer =
     (case (clone_channel dv :: unit disc_error + unit) of
        Inl _ \<Rightarrow> (None, Inl QServiceNotStarted)
      | Inr _ \<Rightarrow>
          if \<not> sent then (None, Inl (QChannelFailed ''Service channel closed''))
          else (Some event, case answer of Inl e \<Rightarrow> Inl (QChannelFailed e) | Inr enrs \<Rightarrow> Inr enrs))"

definition find_node where
  "find_node dv target callback sent answer = await_query dv (StartQuery (KindFindNode target) callback) sent answer"

definition find_node_predicate where
  "find_node_predicate dv target predicate target_peer_no callback sent answer =
     await_query dv (StartQuery (KindPredicate target target_peer_no predicate) callback) sent answer"

definition event_stream :: "'enr discv5 \<Rightarrow> bool \<Rightarrow> bool \<Rightarrow> ('enr, 'pk) service_request option \<times> ('c disc_error + unit)" where
  "event_stream dv sent answered =
     (case clone_channel dv of
        Inl e \<Rightarrow> (None, Inl e)
      | Inr _ \<Rightarrow>
          if \<not> sent then (None, Inl EServiceChannelClosed)
          else (Some RequestEventStream, if answered then Inr () else Inl EServiceChannelClosed))"

end
