(* ===== verification/Disc_Node.thy ===== *)
theory Disc_Node
  imports Disc_Discv5
begin

text \<open>
  A running node: the interface and the service, which share the routing table, the local record and the
  permit and ban list. The steps of the service and the calls of the interface are interleaved in any order,
  each one holding the locks it takes; \<open>node_reachable\<close> is what they can reach, with restarts of the service,
  while a run of the service draws at most \<open>N\<close> request ids.
\<close>

section \<open>Calls of the interface\<close>

datatype 'enr api_call =
    AddEnr 'enr | RemoveNode node_id | NodesByDistance "u64 list" | DisconnectNode node_id | TableEntries
  | LookupEnr node_id | BanNode node_id "duration option" | BanNodeRemove node_id | PermitNode node_id
  | PermitNodeRemove node_id | BanIp ip_addr "duration option" | BanIpRemove ip_addr | PermitIp ip_addr
  | PermitIpRemove ip_addr | UpdateLocalEnrSocket socket_addr bool | EnrInsert string "byte list"

definition on_list :: "(permit_ban_list \<Rightarrow> permit_ban_list) \<Rightarrow> 'enr discv5 \<Rightarrow> 'enr discv5" where
  "on_list f dv = dv\<lparr>dv_permit_ban := f (dv_permit_ban dv)\<rparr>"

fun api_run :: "('enr, 'pk) api_env \<Rightarrow> (nat \<Rightarrow> instant) \<Rightarrow> 'enr api_call \<Rightarrow> 'enr discv5 \<Rightarrow> 'enr discv5 option" where
  "api_run A clock (AddEnr enr) dv = map_option snd (add_enr A (clock 0) (clock 1) enr dv)"
| "api_run A clock (RemoveNode i) dv = map_option snd (remove_node (clock 0) (clock 1) i dv)"
| "api_run A clock (NodesByDistance ds) dv = map_option snd (nodes_by_distance clock ds dv)"
| "api_run A clock (DisconnectNode i) dv = map_option snd (disconnect_node (clock 0) (clock 1) i dv)"
| "api_run A clock TableEntries dv = map_option snd (table_entries clock dv)"
| "api_run A clock (LookupEnr i) dv = map_option snd (dv_find_enr (clock 0) i dv)"
| "api_run A clock (BanNode i d) dv = ban_node (clock 0) (clock 1) (clock 2) i d dv"
| "api_run A clock (BanNodeRemove i) dv = Some (on_list (ban_node_remove i) dv)"
| "api_run A clock (PermitNode i) dv = Some (on_list (permit_node i) dv)"
| "api_run A clock (PermitNodeRemove i) dv = Some (on_list (permit_node_remove i) dv)"
| "api_run A clock (BanIp ip d) dv = Some (on_list (ban_ip (clock 0) ip d) dv)"
| "api_run A clock (BanIpRemove ip) dv = Some (on_list (ban_ip_remove ip) dv)"
| "api_run A clock (PermitIp ip) dv = Some (on_list (permit_ip ip) dv)"
| "api_run A clock (PermitIpRemove ip) dv = Some (on_list (permit_ip_remove ip) dv)"
| "api_run A clock (UpdateLocalEnrSocket a tcp) dv = Some (snd (update_local_enr_socket A a tcp dv))"
| "api_run A clock (EnrInsert key v) dv = Some (snd (enr_insert A key v dv))"

text \<open>What the interface sees of a running service, and what the service sees afterwards.\<close>

definition share_in :: "('enr, 'pk, 'mp) service \<Rightarrow> 'enr discv5 \<Rightarrow> 'enr discv5" where
  "share_in s dv = dv\<lparr>dv_kbuckets := sv_kbuckets s, dv_local_enr := sv_local_enr s, dv_permit_ban := sv_permit_ban s\<rparr>"

definition share_out :: "'enr discv5 \<Rightarrow> ('enr, 'pk, 'mp) service \<Rightarrow> ('enr, 'pk, 'mp) service" where
  "share_out dv s = s\<lparr>sv_kbuckets := dv_kbuckets dv, sv_local_enr := dv_local_enr dv, sv_permit_ban := dv_permit_ban dv\<rparr>"

text \<open>
  The runs in which the service hears of sessions only with records in \<open>S\<close>; \<open>node_reachable\<close> is what all runs reach.
\<close>

inductive node_runs ::
  "('enr, 'pk, 'e, 'mp) service_env \<Rightarrow> ('enr, 'pk) api_env \<Rightarrow> nat \<Rightarrow> 'enr config \<Rightarrow> 'enr set
     \<Rightarrow> 'enr discv5 \<Rightarrow> ('enr, 'pk, 'mp) service option \<Rightarrow> bool"
  for E A N config S where
  created: "discv5_new A enr config = Inr dv \<Longrightarrow> node_runs E A N config S dv None"
| called: "node_runs E A N config S dv None \<Longrightarrow> api_run A clock c dv = Some dv' \<Longrightarrow> node_runs E A N config S dv' None"
| started: "node_runs E A N config S dv None \<Longrightarrow> discv5_start E None dv = Some (Inr s :: unit disc_error + _, dv') \<Longrightarrow>
    node_runs E A N config S dv' (Some s)"
| served: "node_runs E A N config S dv (Some s) \<Longrightarrow> service_step E event s = Some s' \<Longrightarrow> sv_draws s' \<le> N \<Longrightarrow>
    established_by event \<subseteq> S \<Longrightarrow> node_runs E A N config S dv (Some s')"
| shared: "node_runs E A N config S dv (Some s) \<Longrightarrow> api_run A clock c (share_in s dv) = Some dv' \<Longrightarrow>
    node_runs E A N config S dv' (Some (share_out dv' s))"
| stopped: "node_runs E A N config S dv (Some s) \<Longrightarrow> shutdown (share_in s dv) = (told, dv') \<Longrightarrow> node_runs E A N config S dv' None"

abbreviation node_reachable where
  "node_reachable E A N config \<equiv> node_runs E A N config UNIV"

section \<open>Calls keep the table well formed\<close>

text \<open>
  \<open>R\<close> is any property that the records admitted by the table filter have, and the contactable records that
  sessions are established with. The records of the table have it, and stand under their own node ids.
\<close>

abbreviation config_mode :: "'enr config \<Rightarrow> ip_mode" where
  "config_mode config \<equiv> new_from_listen_config (listen_config config)"

definition admits :: "('enr, 'pk) enr_ops \<Rightarrow> ('enr \<Rightarrow> bool) \<Rightarrow> 'enr set \<Rightarrow> 'enr config \<Rightarrow> ip_mode \<Rightarrow> bool" where
  "admits N R S config mode \<longleftrightarrow>
     (\<forall>enr. table_filter config enr \<longrightarrow> R enr) \<and> (\<forall>enr\<in>S. get_contactable_addr N mode enr \<noteq> None \<longrightarrow> R enr)"

definition dv_ok :: "('enr, 'pk) api_env \<Rightarrow> ('enr \<Rightarrow> bool) \<Rightarrow> 'enr set \<Rightarrow> 'enr discv5 \<Rightarrow> bool" where
  "dv_ok A R S dv \<longleftrightarrow> kt_inv (dv_kbuckets dv) \<and> table_ok (stored_ok (ae_ops A) R) (dv_kbuckets dv) \<and>
     admits (ae_ops A) R S (dv_config dv) (dv_ip_mode dv)"

lemma okp_snd: "okp (\<lambda>(r, x). P x) r \<Longrightarrow> okp P (map_option snd r)"
  by (cases r) (auto simp: okp_def)

lemma dv_table_op:
  assumes "dv_ok A R S dv" "kt_keeps (dv_kbuckets dv) r"
    "\<And>x t. r = Some (x, t) \<Longrightarrow> table_ok (stored_ok (ae_ops A) R) t"
  shows "okp (\<lambda>(x, dv'). dv_ok A R S dv') (r \<bind> (\<lambda>(x, t). Some (f x, dv\<lparr>dv_kbuckets := t\<rparr>)))"
  by (rule okp_bind2I [OF kt_keeps_okp [OF assms(2,3)]]) (use assms(1) in \<open>simp_all add: dv_ok_def\<close>)

lemma dv_ok_table: "dv_ok A R S dv \<Longrightarrow> kt_inv (dv_kbuckets dv)"
  by (simp add: dv_ok_def)

lemma dv_ok_records: "dv_ok A R S dv \<Longrightarrow> table_ok (stored_ok (ae_ops A) R) (dv_kbuckets dv)"
  by (simp add: dv_ok_def)

lemma remove_node_ok:
  assumes "dv_ok A R S dv"
  shows "okp (\<lambda>(r, dv'). dv_ok A R S dv') (remove_node n1 n2 i dv)"
  unfolding remove_node_def
  by (rule dv_table_op [where f = "\<lambda>x. x", OF assms kt_remove_keeps [OF dv_ok_table [OF assms]]])
    (erule kt_remove_ok [OF dv_ok_records [OF assms]])

lemma dv_table_entries_ok:
  assumes "dv_ok A R S dv"
  shows "okp (\<lambda>(r, dv'). dv_ok A R S dv') (dv_table_entries clock dv)"
  unfolding dv_table_entries_def
  by (rule dv_table_op [where f = "\<lambda>x. x", OF assms kt_iter_keeps [OF dv_ok_table [OF assms]]])
    (erule kt_iter_ok [OF dv_ok_records [OF assms]])

lemma table_entries_ok: "dv_ok A R S dv \<Longrightarrow> okp (\<lambda>(r, dv'). dv_ok A R S dv') (table_entries clock dv)"
  unfolding table_entries_def by (rule okp_bind2I [OF dv_table_entries_ok]) simp_all

lemma disconnect_node_ok:
  assumes "dv_ok A R S dv"
  shows "okp (\<lambda>(r, dv'). dv_ok A R S dv') (disconnect_node n1 n2 i dv)"
  unfolding disconnect_node_def
  by (rule dv_table_op [OF assms kt_update_node_status_keeps [OF dv_ok_table [OF assms]]])
    (erule kt_update_node_status_ok [OF dv_ok_records [OF assms]])

lemma add_enr_ok:
  assumes "dv_ok A R S dv"
  shows "okp (\<lambda>(r, dv'). dv_ok A R S dv') (add_enr A n1 n2 enr dv)"
proof (cases "get_contactable_addr (ae_ops A) (dv_ip_mode dv) enr = None \<or> \<not> table_filter (dv_config dv) enr")
  case False
  let ?k = "key_from_node_id (enr_node_id (ae_ops A) enr)"
  from False assms have st: "stored_ok (ae_ops A) R (hash ?k) enr"
    by (simp add: dv_ok_def admits_def stored_ok_def key_from_node_id_def)
  show ?thesis unfolding add_enr_def using False
    by (simp only: if_False de_Morgan_disj not_not simp_thms)
      (rule dv_table_op [OF assms kt_insert_or_update_keeps [OF dv_ok_table [OF assms]]],
        erule kt_insert_or_update_ok [where V = "stored_ok (ae_ops A) R", OF dv_ok_records [OF assms] st])
qed (use assms in \<open>auto simp: add_enr_def\<close>)

lemma kt_nodes_dv_ok:
  assumes "dv_ok A R S dv"
  shows "okp (\<lambda>(r, dv'). dv_ok A R S dv') (kt_nodes_by_distances clock ds m (dv_kbuckets dv) \<bind>
      (\<lambda>(x, t). Some (f x, dv\<lparr>dv_kbuckets := t\<rparr>)))"
  by (rule dv_table_op [OF assms kt_nodes_by_distances_keeps [OF dv_ok_table [OF assms]]])
    (erule kt_nodes_by_distances_ok [OF dv_ok_records [OF assms]])

lemma nodes_by_distance_ok:
  "dv_ok A R S dv \<Longrightarrow> okp (\<lambda>(r, dv'). dv_ok A R S dv') (nodes_by_distance clock ds dv)"
  unfolding nodes_by_distance_def Let_def by (simp add: kt_nodes_dv_ok)

lemma ban_node_ok: "dv_ok A R S dv \<Longrightarrow> okp (dv_ok A R S) (ban_node n0 n1 n2 i d dv)"
  unfolding ban_node_def Let_def by (rule okp_bind2I [OF remove_node_ok]) (simp_all add: dv_ok_def)

lemma kt_entry_Present:
  assumes "kt_inv t"
  shows "\<exists>e t'. kt_entry now k t = Some (e, t') \<and> kt_inv t' \<and>
    (case e of Present st \<Rightarrow> \<exists>b n. kt_get_bucket k t' = Some b \<and> n \<in> set (kb_nodes b) \<and> khash n = hash k | _ \<Rightarrow> True)"
  using table_entry_correct [OF assms, of now k] by (fastforce split: option.splits entry.splits)

lemma dv_find_enr_ok:
  assumes "dv_ok A R S dv"
  shows "okp (\<lambda>(r, dv'). dv_ok A R S dv') (dv_find_enr now i dv)"
proof -
  let ?k = "key_from_node_id i"
  obtain e t where e: "kt_entry now ?k (dv_kbuckets dv) = Some (e, t)" "kt_inv t"
    "case e of Present st \<Rightarrow> \<exists>b n. kt_get_bucket ?k t = Some b \<and> n \<in> set (kb_nodes b) \<and> khash n = hash ?k | _ \<Rightarrow> True"
    using kt_entry_Present [OF dv_ok_table [OF assms]] by blast
  have ok: "dv_ok A R S (dv\<lparr>dv_kbuckets := t\<rparr>)"
    using assms e(2) kt_entry_ok [OF dv_ok_records [OF assms] e(1)] by (simp add: dv_ok_def)
  show ?thesis
  proof (cases e)
    case (Present st)
    with e(3) obtain b n where b: "kt_get_bucket ?k t = Some b" "n \<in> set (kb_nodes b)" "khash n = hash ?k" by auto
    then have "kb_get ?k b \<noteq> None" unfolding kb_get_None kb_position_None by (metis image_eqI)
    with b(1) e(1) ok Present show ?thesis by (auto simp: dv_find_enr_def present_value_def)
  qed (use e(1) ok in \<open>simp_all add: dv_find_enr_def\<close>)
qed

lemma update_local_enr_socket_frame [simp]:
  "dv_kbuckets (snd (update_local_enr_socket A a tcp dv)) = dv_kbuckets dv"
  "dv_config (snd (update_local_enr_socket A a tcp dv)) = dv_config dv"
  "dv_ip_mode (snd (update_local_enr_socket A a tcp dv)) = dv_ip_mode dv"
  by (cases a; cases tcp; simp add: set_local_socket_def split: option.split)+

lemma api_run_ok:
  assumes "dv_ok A R S dv"
  shows "okp (dv_ok A R S) (api_run A clock c dv)"
proof (cases c)
  case (UpdateLocalEnrSocket a tcp)
  with assms show ?thesis by (simp add: dv_ok_def)
qed (use assms in \<open>simp_all add: okp_snd add_enr_ok remove_node_ok nodes_by_distance_ok disconnect_node_ok
      table_entries_ok dv_find_enr_ok ban_node_ok\<close>,
    simp_all add: dv_ok_def on_list_def enr_insert_def split: prod.split)

section \<open>Runs\<close>

definition records_ghost :: "nat \<Rightarrow> ('enr \<Rightarrow> bool) \<Rightarrow> 'enr set \<Rightarrow> ip_mode \<Rightarrow> ('enr, 'pk) ghost" where
  "records_ghost N R S mode = \<lparr>gh_log = [], gh_callbacks = {}, gh_record = R, gh_ids = N, gh_mode = mode, gh_sessions = S\<rparr>"

lemma service_spawn_inv:
  assumes "service_spawn E (dv_local_enr dv) (dv_kbuckets dv) l (dv_config dv) = Some s" "dv_ok A R S dv" "ae_ops A = se_ops E"
    "mode = new_from_listen_config (listen_config (dv_config dv))" "dv_ip_mode dv = mode"
  shows "sv_inv E (records_ghost N R S mode) s \<and> sv_draws s = 0"
  using assms by (auto simp: service_spawn_def dv_ok_def admits_def sv_inv_defs tab_ok_def pool_ok_def qpool_inv_def
      qpool_new_def records_ghost_def split: Option.bind_splits if_splits)

text \<open>The interface keeps the configuration it was created with, and the service runs with it.\<close>

definition node_inv where
  "node_inv E A N R S config dv service \<longleftrightarrow>
     dv_config dv = config\<lparr>has_executor := True\<rparr> \<and> dv_ip_mode dv = config_mode config \<and>
     (case service of
        Some s \<Rightarrow> sv_inv E (records_ghost N R S (config_mode config)) s \<and> sv_draws s \<le> N
      | None \<Rightarrow> dv_ok A R S dv)"

lemma node_inv_service: "node_inv E A N R S config dv (Some s) \<Longrightarrow> sv_inv E (records_ghost N R S (config_mode config)) s"
  by (simp add: node_inv_def)

lemma api_run_frame:
  "api_run A clock c dv = Some dv' \<Longrightarrow> dv_config dv' = dv_config dv \<and> dv_ip_mode dv' = dv_ip_mode dv"
  by (cases c)
    (auto simp: add_enr_def remove_node_def nodes_by_distance_def Let_def disconnect_node_def table_entries_def
      dv_table_entries_def dv_find_enr_def ban_node_def on_list_def enr_insert_def
      split: Option.bind_splits if_splits entry.splits option.splits prod.splits)

lemma share_inv:
  assumes "sv_inv E (records_ghost N R S mode) s" "dv_ok A R S dv" "ae_ops A = se_ops E"
  shows "sv_inv E (records_ghost N R S mode) (share_out dv s)"
  using assms by (simp add: share_out_def dv_ok_def tab_ok_def records_ghost_def)

lemma share_in_ok:
  assumes "node_inv E A N R S config dv (Some s)" "ae_ops A = se_ops E" "admits (ae_ops A) R S config (config_mode config)"
  shows "dv_ok A R S (share_in s dv)"
  using assms by (simp add: node_inv_def dv_ok_def share_in_def admits_def sv_inv_def tab_ok_def records_ghost_def)

lemma node_reachable_inv:
  assumes "service_env_ok E N" "ae_ops A = se_ops E" "admits (ae_ops A) R S config (config_mode config)"
    "node_runs E A N config S dv service"
  shows "node_inv E A N R S config dv service"
  using assms(4)
proof induction
  case (created enr dv)
  have "(if has_executor config then config else config\<lparr>has_executor := True\<rparr>) = config\<lparr>has_executor := True\<rparr>" by simp
  with created assms(3) show ?case
    by (auto simp: discv5_new_def node_inv_def dv_ok_def admits_def kt_new_inv kt_new_ok Let_def split: if_splits)
next
  case (called dv clock c dv')
  then show ?case using api_run_ok [of A R S dv clock c] api_run_frame [OF called(2)] by (simp add: node_inv_def)
next
  case (started dv s dv')
  then show ?case using service_spawn_inv [of E dv _ s A R S _ N] assms(2)
    by (auto simp: node_inv_def discv5_start_def split: if_splits Option.bind_splits)
next
  case (served dv s event s')
  then have "sv_inv E (records_ghost N R S (config_mode config)) s" "sv_draws s \<le> gh_ids (records_ghost N R S (config_mode config))"
    by (simp_all add: node_inv_def records_ghost_def)
  from service_step_ok [OF _ this, of event] assms(1) served show ?case
    by (auto simp: node_inv_def records_ghost_def split: if_splits)
next
  case (shared dv s clock c dv')
  have "dv_ok A R S dv'"
    using api_run_ok [OF share_in_ok [OF shared(3) assms(2,3)], of clock c] shared(2) by simp
  from share_inv [OF node_inv_service [OF shared(3)] this assms(2)] api_run_frame [OF shared(2)] shared(3)
  show ?case by (simp add: node_inv_def share_in_def share_out_def)
next
  case (stopped dv s told dv')
  from share_in_ok [OF stopped(3) assms(2,3)] stopped(2,3) show ?case
    by (auto simp: node_inv_def shutdown_def dv_ok_def share_in_def split: if_splits)
qed

end
