(* ===== verification/Disc_Runs.thy ===== *)
theory Disc_Runs
  imports Disc_Node
begin

text \<open>
  What holds of every run of a node, with any interleaving of calls of the interface, requests of the user,
  messages of the handler and timers: which events make the service panic, which records the routing table
  can hold, what is collected from NODES responses, and that callbacks are not forgotten.
\<close>

section \<open>From the invariant\<close>

lemma reachable_service:
  assumes "service_env_ok E N" "ae_ops A = se_ops E" "node_runs E A N config S dv (Some s)" "admits (ae_ops A) R S config (config_mode config)"
  shows "sv_inv E (records_ghost N R S (config_mode config)) s" "sv_draws s \<le> N" "dv_ok A R S (share_in s dv)"
  using node_reachable_inv [OF assms(1,2,4,3)] share_in_ok [OF _ assms(2,4)] by (simp_all add: node_inv_def)

lemma okp_not_None: "okp P r \<Longrightarrow> r \<noteq> None"
  by (cases r) (simp_all add: okp_def)

lemma admits_any: "admits ops (\<lambda>_. True) S config mode"
  by (simp add: admits_def)

lemma sv_inv_keep:
  assumes "sv_inv E G s" "sv_draws s \<le> gh_ids G" "prefix l (sv_to_handler s)" "C \<subseteq> cb_waiting s \<union> cb_answered s"
  shows "sv_inv E (G\<lparr>gh_log := l, gh_callbacks := C\<rparr>) s"
  using assms by (simp add: sv_inv_def tab_ok_def admits_ok_def gh_kept_def)

lemma reachable_step_ok:
  assumes "service_env_ok E N" "ae_ops A = se_ops E" "node_reachable E A N config dv (Some s)" "admits (ae_ops A) R UNIV config (config_mode config)"
  shows "if event_expected E event s
    then okp (sv_inv E ((records_ghost N R UNIV (config_mode config))\<lparr>gh_log := sv_to_handler s,
      gh_callbacks := cb_waiting s \<union> cb_answered s - released event s\<rparr>)) (service_step E event s)
    else service_step E event s = None"
proof -
  let ?G = "(records_ghost N R UNIV (config_mode config))\<lparr>gh_log := sv_to_handler s, gh_callbacks := cb_waiting s \<union> cb_answered s\<rparr>"
  note r = reachable_service [OF assms]
  have "sv_inv E ?G s" using sv_inv_keep [OF r(1), of "sv_to_handler s" "cb_waiting s \<union> cb_answered s"] r(2)
    by (simp add: records_ghost_def)
  from service_step_ok [OF _ this, of event] assms(1) r(2) show ?thesis by (auto simp: records_ghost_def split: if_splits)
qed

lemma stored_enr_ok: "sv_inv E G s \<Longrightarrow> stored_enr E i s = Some enr \<Longrightarrow> gh_record G enr"
  using table_entry_ok [of E G s "key_from_node_id i"]
  by (auto simp: stored_enr_def okp_def stored_ok_def split: option.splits view.splits)

lemma reachable_panics:
  assumes "service_env_ok E N" "ae_ops A = se_ops E" "node_reachable E A N config dv (Some s)"
  shows "service_step E event s = None \<longleftrightarrow> \<not> event_expected E event s"
  using reachable_step_ok [OF assms admits_any, of event] by (auto dest: okp_not_None split: if_splits)

lemma contactable_expected:
  assumes "service_env_ok E N" "ae_ops A = se_ops E" "node_reachable E A N config dv (Some s)"
    "\<forall>enr. table_filter config enr \<longrightarrow> get_contactable_addr (ae_ops A) (config_mode config) enr \<noteq> None"
  shows "request_expected E addr request s"
proof -
  let ?R = "\<lambda>enr. get_contactable_addr (ae_ops A) (config_mode config) enr \<noteq> None"
  have R: "admits (ae_ops A) ?R UNIV config (config_mode config)" using assms(4) by (simp add: admits_def)
  note r = reachable_service [OF assms(1-3) R]
  have "sv_ip_mode s = config_mode config" using r(1) by (simp add: sv_inv_def admits_ok_def records_ghost_def)
  then show ?thesis
    using stored_enr_ok [OF r(1)] assms(2)
    by (auto simp: request_expected_def records_ghost_def split: request_body.split option.split)
qed

section \<open>Properties\<close>

text \<open>
  C9. In every run of a node the service panics on an event exactly in two cases: a response carries the id of
  an active request but comes from another address, or a PING announces a newer record of a node whose stored
  record is not contactable. A call of the interface never panics.
\<close>

theorem service_panics_iff:
  assumes "service_env_ok E N" "ae_ops A = se_ops E" "node_reachable E A N config dv (Some s)"
  shows "(service_step E event s = None \<longleftrightarrow> \<not> event_expected E event s) \<and> api_run A clock c (share_in s dv) \<noteq> None"
proof -
  have "api_run A clock c (share_in s dv) \<noteq> None"
    by (rule okp_not_None [OF api_run_ok [OF reachable_service(3) [OF assms admits_any]]])
  with reachable_panics [OF assms] show ?thesis by simp
qed

text \<open>
  If the table filter admits only records that are contactable in the mode the node listens in, the service
  panics only on a response that carries the id of an active request and comes from another address.
\<close>

lemma contactable_filter_safe:
  assumes "service_env_ok E N" "ae_ops A = se_ops E" "node_reachable E A N config dv (Some s)"
    "\<forall>enr. table_filter config enr \<longrightarrow> get_contactable_addr (ae_ops A) (new_from_listen_config (listen_config config)) enr \<noteq> None"
  shows "service_step E event s = None \<longleftrightarrow>
    (\<exists>addr response. event = FromHandler (OutResponse addr response) \<and> \<not> response_expected E addr response s)"
proof -
  have "event_expected E event s \<longleftrightarrow>
      \<not> (\<exists>addr response. event = FromHandler (OutResponse addr response) \<and> \<not> response_expected E addr response s)"
    using contactable_expected [OF assms] by (cases event) (auto simp: event_expected_def split: handler_out.split)
  with reachable_panics [OF assms(1-3)] show ?thesis by simp
qed

text \<open>
  C11. The records of the routing table, pending ones included, stand under their own node ids. Each is admitted
  by the table filter, or it is contactable and the service was told of a session with it: whatever was added
  by a call, discovered by a query or updated, and through restarts, no other record gets in.
\<close>

theorem table_records_admitted:
  assumes "service_env_ok E N" "ae_ops A = se_ops E" "node_runs E A N config S dv (Some s)"
    "b \<in> set (kt_buckets (sv_kbuckets s))" "n \<in> set (kb_nodes b) \<or> (\<exists>p. kb_pending b = Some p \<and> n = pn_node p)"
  shows "khash n = enr_node_id (se_ops E) (n_value n) \<and>
    (table_filter config (n_value n) \<or>
     n_value n \<in> S \<and> get_contactable_addr (se_ops E) (new_from_listen_config (listen_config config)) (n_value n) \<noteq> None)"
proof -
  let ?R = "\<lambda>enr. table_filter config enr \<or> enr \<in> S \<and> get_contactable_addr (se_ops E) (config_mode config) enr \<noteq> None"
  have "admits (ae_ops A) ?R S config (config_mode config)" using assms(2) by (simp add: admits_def)
  from reachable_service(1) [OF assms(1-3) this] have "table_ok (stored_ok (se_ops E) ?R) (sv_kbuckets s)"
    by (simp add: sv_inv_def tab_ok_def records_ghost_def)
  with assms(4,5) show ?thesis by (auto simp: table_ok_def bucket_ok_def node_ok_def stored_ok_def)
qed


text \<open>
  C10. A callback that waits for the response to a request is never forgotten: after an event it still waits or
  has been sent an answer, unless the event is a response to its request of another kind than the one asked
  for.
\<close>

theorem callbacks_answered:
  assumes "service_env_ok E N" "ae_ops A = se_ops E" "node_reachable E A N config dv (Some s)"
    "service_step E event s = Some s'" "sv_draws s' \<le> N" "cb \<in> cb_waiting s"
  shows "cb \<in> cb_waiting s' \<or> cb \<in> cb_answered s' \<or> cb \<in> released event s"
  using reachable_step_ok [OF assms(1-3) admits_any, of event] assms(4-6)
  by (auto simp: sv_inv_def gh_kept_def records_ghost_def split: if_splits)

section \<open>Witnesses\<close>

text \<open>
  Records that are an id, a sequence number and whether they have a socket, and an environment over them in
  which clock and request ids count.
\<close>

definition demo_ops :: "(u64 \<times> u64 \<times> bool, u64) enr_ops" where
  "demo_ops = \<lparr>enr_node_id = (\<lambda>(k, _, _). ucast k), enr_seq = (\<lambda>(_, n, _). n),
     enr_udp4_socket = (\<lambda>(_, _, c). if c then Some ((127, 0, 0, 1), 9000) else None),
     enr_udp6_socket = (\<lambda>_. None), enr_public_key = (\<lambda>(k, _, _). k), pk_node_id = (\<lambda>k. ucast k)\<rparr>"

definition list_delay_set :: "('k list, 'k) delay_set" where
  "list_delay_set = \<lparr>ds_new = (\<lambda>_. []), ds_insert = (\<lambda>_ k m. if k \<in> set m then m else m @ [k]),
     ds_remove = (\<lambda>k m. filter (\<lambda>x. x \<noteq> k) m), ds_contains = (\<lambda>k m. k \<in> set m),
     ds_poll = (\<lambda>_ m. case m of [] \<Rightarrow> (PollEnded, m) | k # ks \<Rightarrow> (PollExpired k (), ks))\<rparr>"

definition demo_service_env :: "(u64 \<times> u64 \<times> bool, u64, unit, node_id list) service_env" where
  "demo_service_env = \<lparr>se_ops = demo_ops,
     se_codec = \<lparr>parse_node_id = (\<lambda>bs. Some (bytes_word bs)), rlp_encode_enr = (\<lambda>(k, n, c). word_bytes 8 k @ word_bytes 8 n),
       rlp_decode_enr = (\<lambda>_. Inl ())\<rparr>,
     se_set_udp_socket = (\<lambda>_ _. None), se_ping_set = list_delay_set, se_clock = (\<lambda>i. i),
     se_request_id = (\<lambda>i. RequestId (word_bytes 8 (of_nat i :: u64))), se_try_send = (\<lambda>_. SendOk),
     se_query_order = (\<lambda>_ qs. sorted_list_of_set (dom qs)), se_vote_orders = (\<lambda>_ _. ([], [], []))\<rparr>"

definition demo_api_env :: "(u64 \<times> u64 \<times> bool, u64) api_env" where
  "demo_api_env = \<lparr>ae_ops = demo_ops, ae_key_public = 7, ae_ip4 = (\<lambda>_. None), ae_tcp4_socket = (\<lambda>_. None),
     ae_tcp6_socket = (\<lambda>_. None), ae_set_udp_socket = (\<lambda>_ _. None), ae_set_tcp_socket = (\<lambda>_ _. None),
     ae_insert = (\<lambda>_ _ enr. (Inl [], enr))\<rparr>"

definition demo_config :: "(u64 \<times> u64 \<times> bool) config" where
  "demo_config =
     \<lparr>enable_packet_filter = False, request_timeout = SECOND, vote_duration = 30 * SECOND,
      query_peer_timeout = 2 * SECOND, query_timeout = 60 * SECOND, request_retries = 1,
      session_timeout = 86400 * SECOND, session_cache_capacity = 1000, enr_update = False,
      max_nodes_response = 16, enr_peer_update_min = 10, query_parallelism = 3, ip_limit = False,
      incoming_bucket_limit = MAX_NODES_PER_BUCKET, table_filter = (\<lambda>(_, _, c). c), ping_interval = 300 * SECOND,
      report_discovered_peers = True, filter_rate_limiter = None, filter_max_nodes_per_ip = Some 10,
      filter_max_bans_per_ip = Some 5, cfg_permit_ban_list = empty_permit_ban_list,
      ban_duration = Some (3600 * SECOND), has_executor = True, listen_config = listen_default\<rparr>"

definition demo_dv :: "(u64 \<times> u64 \<times> bool) discv5" where
  "demo_dv = projr (discv5_new demo_api_env (7, 1, True) demo_config)"

definition demo_service :: "(u64 \<times> u64 \<times> bool, u64, node_id list) service" where
  "demo_service = the (service_spawn demo_service_env (dv_local_enr demo_dv) (dv_kbuckets demo_dv) (dv_permit_ban demo_dv) demo_config)"

lemma inj_word_ids: "inj_on (\<lambda>i. RequestId (word_bytes 8 (of_nat i :: u64))) {..<1000}"
proof (rule inj_onI)
  fix i j :: nat
  assume ij: "i \<in> {..<1000}" "j \<in> {..<1000}" and "RequestId (word_bytes 8 (of_nat i :: u64)) = RequestId (word_bytes 8 (of_nat j :: u64))"
  then have "bytes_word (word_bytes 8 (of_nat i :: u64)) = (bytes_word (word_bytes 8 (of_nat j :: u64)) :: u64)" by simp
  then have "unat (of_nat i :: u64) = unat (of_nat j :: u64)" by (simp add: bytes_word_bytes)
  with ij show "i = j" by (simp add: unat_of_nat take_bit_nat_eq_self)
qed

lemma demo_env_ok: "service_env_ok demo_service_env 1000" "ae_ops demo_api_env = se_ops demo_service_env"
  using inj_word_ids by (simp_all add: service_env_ok_def demo_service_env_def demo_api_env_def)

lemma demo_new: "discv5_new demo_api_env (7, 1, True) demo_config = Inr demo_dv"
  by (simp add: demo_dv_def discv5_new_def demo_api_env_def demo_ops_def demo_config_def Let_def)

lemma demo_dv_fields [simp]: "dv_config demo_dv = demo_config" "dv_service_channel demo_dv = False"
  by (simp_all add: demo_dv_def discv5_new_def demo_api_env_def demo_ops_def demo_config_def Let_def)

lemma demo_spawn:
  "service_spawn demo_service_env (dv_local_enr demo_dv) (dv_kbuckets demo_dv) (dv_permit_ban demo_dv) demo_config = Some demo_service"
  by (simp add: demo_service_def service_spawn_def demo_config_def)

lemma demo_reachable:
  "node_reachable demo_service_env demo_api_env 1000 demo_config
     (demo_dv\<lparr>dv_service_exit := True, dv_service_channel := True\<rparr>) (Some demo_service)"
  by (rule node_runs.started [OF node_runs.created [OF demo_new]]) (simp add: discv5_start_def demo_spawn)

text \<open>
  A run: a record is added to the table, its node sends a PING with a newer sequence number, the service asks it
  for its record, and the first of two NODES responses comes.
\<close>

definition demo_running :: "(u64 \<times> u64 \<times> bool) discv5" where
  "demo_running = demo_dv\<lparr>dv_service_exit := True, dv_service_channel := True\<rparr>"

definition demo_added :: "(u64 \<times> u64 \<times> bool) discv5" where
  "demo_added = the (api_run demo_api_env (\<lambda>_. 0) (AddEnr (5, 1, True)) (share_in demo_service demo_running))"

definition demo_known :: "(u64 \<times> u64 \<times> bool, u64, node_id list) service" where
  "demo_known = share_out demo_added demo_service"

definition demo_addr :: node_address where
  "demo_addr = \<lparr>na_socket_addr = SocketV4 (127, 0, 0, 1) 9000, na_node_id = 5\<rparr>"

definition demo_ping :: "(u64 \<times> u64 \<times> bool, u64) service_event" where
  "demo_ping = FromHandler (OutRequest demo_addr \<lparr>req_id = RequestId [1], req_body = Ping 5\<rparr>)"

definition demo_asked :: "(u64 \<times> u64 \<times> bool, u64, node_id list) service" where
  "demo_asked = the (service_step demo_service_env demo_ping demo_known)"

definition demo_nodes :: "(u64 \<times> u64 \<times> bool, u64) service_event" where
  "demo_nodes = FromHandler (OutResponse demo_addr \<lparr>resp_id = RequestId (word_bytes 8 (0 :: u64)), resp_body = Nodes 2 [(5, 2, True)]\<rparr>)"

definition demo_collected :: "(u64 \<times> u64 \<times> bool, u64, node_id list) service" where
  "demo_collected = the (service_step demo_service_env demo_nodes demo_asked)"

lemma demo_known_reachable: "node_reachable demo_service_env demo_api_env 1000 demo_config demo_added (Some demo_known)"
proof -
  have "api_run demo_api_env (\<lambda>_. 0) (AddEnr (5, 1, True)) (share_in demo_service demo_running) \<noteq> None"
    unfolding demo_running_def
    by (rule okp_not_None [OF api_run_ok [OF reachable_service(3) [OF demo_env_ok demo_reachable admits_any]]])
  then have "api_run demo_api_env (\<lambda>_. 0) (AddEnr (5, 1, True)) (share_in demo_service demo_running) = Some demo_added"
    unfolding demo_added_def by (metis option.collapse)
  with demo_reachable show ?thesis unfolding demo_known_def demo_running_def by (rule node_runs.shared)
qed

lemma demo_index: "bucket_index (distance (key_from_node_id 7) (key_from_node_id 5)) = Some 1"
  by code_simp

abbreviation demo_node :: "(node_id, u64 \<times> u64 \<times> bool) node" where
  "demo_node \<equiv> \<lparr>n_key = key_from_node_id 5, n_value = (5, 1, True), n_status = \<lparr>st_direction = Incoming, st_state = Disconnected\<rparr>\<rparr>"

lemma demo_service_table: "sv_kbuckets demo_service = kt_new (key_from_node_id 7) (60 * SECOND) MAX_NODES_PER_BUCKET None None"
  by (simp add: demo_service_def service_spawn_def demo_dv_def discv5_new_def demo_api_env_def demo_ops_def demo_config_def Let_def)

lemma kt_insert_fresh:
  assumes "kt_get_index k t = Some i" "vec_get i (kt_buckets t) = Some (kb_new d m None)" "kt_table_filter t = None"
  shows "kt_insert_or_update n1 n2 k v \<lparr>st_direction = dir, st_state = Disconnected\<rparr> t =
    Some (TInserted, t\<lparr>kt_buckets := (kt_buckets t)[i := (kb_new d m None)
      \<lparr>kb_nodes := [\<lparr>n_key = k, n_value = v, n_status = \<lparr>st_direction = dir, st_state = Disconnected\<rparr>\<rparr>]\<rparr>]\<rparr>)"
  using assms
  by (auto simp: kt_insert_or_update_def Let_def passed_table_filter_def kt_apply_pending_def on_bucket_def kb_apply_pending_def
      kb_new_def vec_get_def kb_position_def kb_insert_def passes_filter_def is_full_def av_push_def clear_pending_if_def MAX_NODES_PER_BUCKET_def
      split: if_splits)

lemma demo_added_table:
  "demo_added = (share_in demo_service demo_running)\<lparr>dv_kbuckets := (sv_kbuckets demo_service)\<lparr>kt_buckets := (kt_buckets (sv_kbuckets demo_service))
     [1 := (kb_new (60 * SECOND) MAX_NODES_PER_BUCKET None)\<lparr>kb_nodes := [demo_node]\<rparr>]\<rparr>\<rparr>"
proof -
  have k: "kt_get_index (key_from_node_id 5) (sv_kbuckets demo_service) = Some 1"
    "vec_get 1 (kt_buckets (sv_kbuckets demo_service)) = Some (kb_new (60 * SECOND) MAX_NODES_PER_BUCKET None)"
    "kt_table_filter (sv_kbuckets demo_service) = None"
    using demo_index by (simp_all add: demo_service_table kt_get_index_def kt_new_def vec_get_def NUM_BUCKETS_def)
  have "dv_ip_mode (share_in demo_service demo_running) = Ip4" "dv_config (share_in demo_service demo_running) = demo_config"
    by (simp_all add: share_in_def demo_running_def demo_dv_def discv5_new_def demo_api_env_def demo_ops_def demo_config_def
        Let_def listen_default_def)
  moreover have "dv_kbuckets (share_in demo_service demo_running) = sv_kbuckets demo_service" by (simp add: share_in_def)
  ultimately show ?thesis
    using kt_insert_fresh [OF k, of 0 0 "(5, 1, True)" Incoming]
    by (simp add: demo_added_def add_enr_def demo_api_env_def demo_ops_def demo_config_def)
qed

lemma kt_apply_pending_idle:
  assumes "vec_get i (kt_buckets t) = Some b" "kb_pending b = None"
  shows "kt_apply_pending now i t = Some (None, t)"
  using assms by (auto simp: kt_apply_pending_def on_bucket_def kb_apply_pending_def vec_get_def split: if_splits)

lemma demo_known_bucket:
  "kt_get_index (key_from_node_id 5) (sv_kbuckets demo_known) = Some 1"
  "vec_get 1 (kt_buckets (sv_kbuckets demo_known)) =
     Some ((kb_new (60 * SECOND) MAX_NODES_PER_BUCKET None)\<lparr>kb_nodes := [demo_node]\<rparr>)"
  using demo_index by (simp_all add: demo_known_def share_out_def demo_added_table demo_service_table kt_get_index_def kt_new_def
    vec_get_def NUM_BUCKETS_def)

lemma entry_single:
  assumes "kt_get_index k t = Some i" "vec_get i (kt_buckets t) = Some b" "kb_nodes b = [n]" "kb_pending b = None" "n_key n = k"
  shows "kt_entry now k t = Some (Present (n_status n), t)" "kt_get_bucket k t = Some b" "present_value k b = Some (n_value n)"
  using assms kt_apply_pending_idle [OF assms(2,4)]
  by (simp_all add: kt_entry_def kt_get_bucket_def entry_new_def kb_position_def kb_status_def vec_get_def present_value_def kb_get_def key_eq_def)

lemma demo_known_entry: "table_entry demo_service_env (key_from_node_id 5) demo_known =
    Some (ViewPresent (5, 1, True) \<lparr>st_direction = Incoming, st_state = Disconnected\<rparr>, demo_known\<lparr>sv_reads := 1\<rparr>)"
proof -
  have "sv_reads demo_known = 0"
    by (simp add: demo_known_def share_out_def demo_service_def service_spawn_def demo_config_def)
  moreover have "kb_pending ((kb_new (60 * SECOND) MAX_NODES_PER_BUCKET None)\<lparr>kb_nodes := [demo_node]\<rparr>) = None"
    by (simp add: kb_new_def)
  ultimately show ?thesis
    using entry_single [OF demo_known_bucket, of demo_node] by (simp add: table_entry_def sv_tick_def Let_def)
qed

lemma demo_asked_step:
  "service_step demo_service_env demo_ping demo_known = Some demo_asked"
  "sv_draws demo_asked = 1"
  "sv_active_requests demo_asked = [RequestId (word_bytes 8 (0 :: u64)) \<mapsto>
     \<lparr>ac_contact = \<lparr>nc_public_key = 5, nc_socket_addr = SocketV4 (127, 0, 0, 1) 9000, nc_enr = Some (5, 1, True)\<rparr>,
      ac_request_body = request_body.FindNode [0], ac_query_id = None, ac_callback = None\<rparr>]"
  "sv_active_nodes_responses demo_asked = Map.empty" "sv_config demo_asked = demo_config"
proof -
  have f: "sv_ip_mode demo_known = Ip4" "sv_draws demo_known = 0" "sv_handler_open demo_known" "sv_active_requests demo_known = Map.empty"
     "sv_active_nodes_responses demo_known = Map.empty" "sv_config demo_known = demo_config"
    by (simp_all add: demo_known_def share_out_def demo_service_def service_spawn_def demo_config_def listen_default_def)
  have "\<exists>s. service_step demo_service_env demo_ping demo_known = Some s \<and> sv_draws s = 1 \<and>
    sv_active_requests s = [RequestId (word_bytes 8 (0 :: u64)) \<mapsto>
     \<lparr>ac_contact = \<lparr>nc_public_key = 5, nc_socket_addr = SocketV4 (127, 0, 0, 1) 9000, nc_enr = Some (5, 1, True)\<rparr>,
      ac_request_body = request_body.FindNode [0], ac_query_id = None, ac_callback = None\<rparr>] \<and>
     sv_active_nodes_responses s = Map.empty \<and> sv_config s = demo_config"
    unfolding service_step_def demo_ping_def handle_rpc_request_def 
    using f demo_known_entry by (simp add: demo_addr_def request_find_node_designated_peer_def send_rpc_request_def handler_send_def Let_def
      try_from_enr_def demo_service_env_def demo_ops_def v4_socket_def)
  then show "service_step demo_service_env demo_ping demo_known = Some demo_asked"
  "sv_draws demo_asked = 1"
  "sv_active_requests demo_asked = [RequestId (word_bytes 8 (0 :: u64)) \<mapsto>
     \<lparr>ac_contact = \<lparr>nc_public_key = 5, nc_socket_addr = SocketV4 (127, 0, 0, 1) 9000, nc_enr = Some (5, 1, True)\<rparr>,
      ac_request_body = request_body.FindNode [0], ac_query_id = None, ac_callback = None\<rparr>]"
  "sv_active_nodes_responses demo_asked = Map.empty" "sv_config demo_asked = demo_config"
    by (auto simp: demo_asked_def)
qed

lemma demo_asked_reachable: "node_reachable demo_service_env demo_api_env 1000 demo_config demo_added (Some demo_asked)"
  by (rule node_runs.served [OF demo_known_reachable demo_asked_step(1)]) (simp_all add: demo_asked_step(2))

lemma demo_collected_step:
  "service_step demo_service_env demo_nodes demo_asked = Some demo_collected"
  "sv_draws demo_collected = 1"
  "sv_active_requests demo_collected = sv_active_requests demo_asked"
  "sv_active_nodes_responses demo_collected =
     [RequestId (word_bytes 8 (0 :: u64)) \<mapsto> \<lparr>nr_count = 2, nr_received_nodes = [(5, 2, True)]\<rparr>]"
proof -
  have a: "nc_node_address (se_ops demo_service_env)
      \<lparr>nc_public_key = 5, nc_socket_addr = SocketV4 (127, 0, 0, 1) 9000, nc_enr = Some (5, 1, True)\<rparr> = demo_addr"
    by (simp add: nc_node_address_def nc_node_id_def demo_service_env_def demo_ops_def demo_addr_def)
  have "\<exists>s. service_step demo_service_env demo_nodes demo_asked = Some s \<and> sv_draws s = 1 \<and>
     sv_active_requests s = sv_active_requests demo_asked \<and>
     sv_active_nodes_responses s = [RequestId (word_bytes 8 (0 :: u64)) \<mapsto> \<lparr>nr_count = 2, nr_received_nodes = [(5, 2, True)]\<rparr>]"
    unfolding service_step_def demo_nodes_def handle_rpc_response_def
    using demo_asked_step(2-5) a by (simp add: demo_config_def MAX_NODES_RESPONSES_def MAX_NODES_PER_BUCKET_def
      DISTANCES_TO_REQUEST_PER_PEER_def numeral_2_eq_2 Let_def match_request_def handle_nodes_def filter_nodes_def nodes_response_default_def)
  then show "service_step demo_service_env demo_nodes demo_asked = Some demo_collected" "sv_draws demo_collected = 1"
    "sv_active_requests demo_collected = sv_active_requests demo_asked"
    "sv_active_nodes_responses demo_collected =
     [RequestId (word_bytes 8 (0 :: u64)) \<mapsto> \<lparr>nr_count = 2, nr_received_nodes = [(5, 2, True)]\<rparr>]"
    by (auto simp: demo_collected_def)
qed

lemma demo_collected_reachable: "node_reachable demo_service_env demo_api_env 1000 demo_config demo_added (Some demo_collected)"
  by (rule node_runs.served [OF demo_asked_reachable demo_collected_step(1)]) (simp_all add: demo_collected_step(2))

theorem service_panics_iff_witness:
  "service_step demo_service_env QueryPoll demo_collected \<noteq> None \<and>
   service_step demo_service_env (FromHandler (OutResponse (demo_addr\<lparr>na_node_id := 6\<rparr>)
     \<lparr>resp_id = RequestId (word_bytes 8 (0 :: u64)), resp_body = Nodes 2 []\<rparr>)) demo_collected = None"
proof -
  have "nc_node_address (se_ops demo_service_env)
      \<lparr>nc_public_key = 5, nc_socket_addr = SocketV4 (127, 0, 0, 1) 9000, nc_enr = Some (5, 1, True)\<rparr> \<noteq> demo_addr\<lparr>na_node_id := 6\<rparr>"
    by (simp add: nc_node_address_def nc_node_id_def demo_service_env_def demo_ops_def demo_addr_def)
  then have "\<not> event_expected demo_service_env (FromHandler (OutResponse (demo_addr\<lparr>na_node_id := 6\<rparr>)
     \<lparr>resp_id = RequestId (word_bytes 8 (0 :: u64)), resp_body = Nodes 2 []\<rparr>)) demo_collected"
    by (simp add: event_expected_def response_expected_def demo_collected_step(3) demo_asked_step(3))
  with service_panics_iff [OF demo_env_ok demo_collected_reachable] show ?thesis by (simp add: event_expected_def)
qed

theorem table_records_admitted_witness:
  "\<exists>b\<in>set (kt_buckets (sv_kbuckets demo_known)). demo_node \<in> set (kb_nodes b) \<and>
     khash demo_node = enr_node_id (se_ops demo_service_env) (5, 1, True) \<and> table_filter demo_config (5, 1, True)"
proof -
  let ?b = "(kb_new (60 * SECOND) MAX_NODES_PER_BUCKET None)\<lparr>kb_nodes := [demo_node]\<rparr>"
  from demo_known_bucket(2) have b: "?b \<in> set (kt_buckets (sv_kbuckets demo_known))"
    unfolding vec_get_Some by (metis nth_mem)
  from table_records_admitted [OF demo_env_ok demo_known_reachable b, of demo_node] have
    "khash demo_node = enr_node_id (se_ops demo_service_env) (5, 1, True)" by simp
  then show ?thesis by (intro bexI [OF _ b]) (simp add: demo_config_def)
qed


definition demo_contact :: "(u64 \<times> u64 \<times> bool, u64) node_contact" where
  "demo_contact = \<lparr>nc_public_key = 5, nc_socket_addr = SocketV4 (127, 0, 0, 1) 9000, nc_enr = None\<rparr>"

definition demo_talking :: "(u64 \<times> u64 \<times> bool, u64, node_id list) service" where
  "demo_talking = service_talk_request demo_service_env demo_contact [1] [2] 3 demo_known"

lemma demo_talking_fields:
  "sv_draws demo_talking = 1"
  "\<exists>a. sv_active_requests demo_talking (RequestId (word_bytes 8 (0 :: u64))) = Some a \<and> ac_callback a = Some (CbTalk 3)"
  "3 \<in> cb_waiting demo_talking"
proof -
  have f: "sv_draws demo_known = 0" "sv_handler_open demo_known"
    by (simp_all add: demo_known_def share_out_def demo_service_def service_spawn_def demo_config_def)
  then show "sv_draws demo_talking = 1"
    and a: "\<exists>a. sv_active_requests demo_talking (RequestId (word_bytes 8 (0 :: u64))) = Some a \<and> ac_callback a = Some (CbTalk 3)"
    by (simp_all add: demo_talking_def service_talk_request_def send_rpc_request_def handler_send_def Let_def demo_service_env_def)
  from a show "3 \<in> cb_waiting demo_talking" by (force simp: cb_waiting_def cb_set_def)
qed

lemma demo_talking_reachable:
  "node_reachable demo_service_env demo_api_env 1000 demo_config demo_added (Some demo_talking)"
proof -
  have "service_step demo_service_env (FromUser (SvTalk demo_contact [1] [2] 3)) demo_known = Some demo_talking"
    by (simp add: service_step_def demo_talking_def)
  with demo_talking_fields(1) show ?thesis
    by (intro node_runs.served [OF demo_known_reachable]) simp_all
qed

theorem callbacks_answered_witness:
  "3 \<in> cb_waiting demo_talking \<and>
   (\<exists>s'. service_step demo_service_env (FromHandler (OutRequestFailed (RequestId (word_bytes 8 (0 :: u64))) RTimeout)) demo_talking = Some s' \<and>
      3 \<in> cb_waiting s' \<union> cb_answered s')"
proof -
  let ?e = "FromHandler (OutRequestFailed (RequestId (word_bytes 8 (0 :: u64))) RTimeout)"
  obtain s' where s': "service_step demo_service_env ?e demo_talking = Some s'" "sv_draws s' = 1"
    using demo_talking_fields by (auto simp: service_step_def rpc_failure_def Let_def reply_def)
  with callbacks_answered [OF demo_env_ok demo_talking_reachable s'(1) _ demo_talking_fields(3)] demo_talking_fields(3)
  show ?thesis by (auto simp: released_def)
qed

end
