(* ===== verification/Disc_Nodes_Answer.thy ===== *)
theory Disc_Nodes_Answer
  imports Disc_Runs
begin

text \<open>
  The answer to a FINDNODE request: which records it has, how they are spread over NODES responses, and that the
  datagram of each response stays within the size limit. \<open>rlp_size_ok\<close> and \<open>aead_size_ok\<close> state the sizes of
  the encodings that the \<open>rlp\<close> and \<open>aes-gcm\<close> crates produce.
\<close>

section \<open>Packing\<close>

definition enrs_size :: "('enr, 'e) enr_codec \<Rightarrow> 'enr list \<Rightarrow> nat" where
  "enrs_size C enrs = sum_list (map (\<lambda>enr. length (rlp_encode_enr C enr)) enrs)"

lemma pack_nodes_concat: "concat (pack_nodes C enrs packed current n) = concat packed @ current @ enrs"
  by (induction C enrs packed current n rule: pack_nodes.induct) (simp_all add: Let_def)

lemma pack_nodes_length: "length (pack_nodes C enrs packed current n) \<le> length packed + length enrs + 1"
  by (induction C enrs packed current n rule: pack_nodes.induct) (auto simp: Let_def)

lemma pack_nodes_nonempty: "pack_nodes C enrs packed current n \<noteq> []"
  by (induction C enrs packed current n rule: pack_nodes.induct) (auto simp: Let_def)

lemma pack_nodes_size:
  assumes "\<forall>p\<in>set packed. enrs_size C p < MAX_PACKET_SIZE - 104" "enrs_size C current = n" "n < MAX_PACKET_SIZE - 104"
    "\<forall>enr\<in>set enrs. length (rlp_encode_enr C enr) < MAX_PACKET_SIZE - 104"
  shows "\<forall>p\<in>set (pack_nodes C enrs packed current n). enrs_size C p < MAX_PACKET_SIZE - 104"
  using assms
  by (induction C enrs packed current n rule: pack_nodes.induct) (auto simp: Let_def enrs_size_def)

definition nodes_of :: "'enr response \<Rightarrow> 'enr list" where
  "nodes_of r = (case resp_body r of Nodes _ ns \<Rightarrow> ns | _ \<Rightarrow> [])"

lemma nodes_responses_spec:
  "nodes_responses C rid nodes \<noteq> []" "concat (map nodes_of (nodes_responses C rid nodes)) = nodes"
  "length (nodes_responses C rid nodes) \<le> length nodes + 1"
  "\<forall>r\<in>set (nodes_responses C rid nodes). resp_id r = rid \<and> resp_body r = Nodes (of_nat (length (nodes_responses C rid nodes))) (nodes_of r)"
  using pack_nodes_concat [of C nodes "[]" "[]" 0] pack_nodes_length [of C nodes "[]" "[]" 0]
  by (auto simp: nodes_responses_def Let_def pack_nodes_nonempty comp_def nodes_of_def)

lemma nodes_responses_size:
  assumes "\<forall>enr\<in>set nodes. length (rlp_encode_enr C enr) < MAX_PACKET_SIZE - 104" "r \<in> set (nodes_responses C rid nodes)"
  shows "enrs_size C (nodes_of r) < MAX_PACKET_SIZE - 104"
  using assms pack_nodes_size [of "[]" C "[]" 0 nodes]
  by (auto simp: nodes_responses_def nodes_of_def Let_def enrs_size_def MAX_PACKET_SIZE_def split: if_splits)

section \<open>Selection\<close>

lemma set_dedup_adjacent [simp]: "set (dedup_adjacent xs) = set xs"
  by (induction xs rule: dedup_adjacent.induct) auto

lemma sorted_dedup_adjacent: "sorted xs \<Longrightarrow> sorted (dedup_adjacent xs)"
  by (induction xs rule: dedup_adjacent.induct) auto

lemma distinct_dedup_adjacent: "sorted xs \<Longrightarrow> distinct (dedup_adjacent xs)"
  by (induction xs rule: dedup_adjacent.induct) (auto dest: order_antisym)

lemma fold_handler_send:
  "sv_handler_open s \<Longrightarrow> fold (\<lambda>r s. snd (handler_send (f r) s)) rs s = s\<lparr>sv_to_handler := sv_to_handler s @ map f rs\<rparr>"
  by (induction rs arbitrary: s) (simp_all add: handler_send_def)

text \<open>The distances in increasing order, each once; the local record stands for distance 0.\<close>

lemma zero_first:
  assumes "dedup_adjacent (sort ds) = d # (es :: 'a::len word list)"
  shows "0 \<in> set ds \<longleftrightarrow> d = 0" "0 \<notin> set es"
proof -
  have s: "sorted (d # es)" "distinct (d # es)" "set ds = set (d # es)"
    using assms sorted_dedup_adjacent [of "sort ds"] distinct_dedup_adjacent [of "sort ds"] set_dedup_adjacent [of "sort ds"]
    by simp_all
  then show "0 \<in> set ds \<longleftrightarrow> d = 0" "0 \<notin> set es" by (auto simp: word_le_0_iff)
qed

definition asked_nodes where
  "asked_nodes requester ds m t =
     filter (\<lambda>n. preimage (n_key n) \<noteq> requester) (take (max 1 m) (nodes_at t (valid_distances (map unat (dedup_adjacent (sort ds))))))"

lemma nodes_to_send_spec:
  assumes "kt_inv (sv_kbuckets s)"
  shows "\<exists>s'. nodes_to_send E requester ds s = Some ((if 0 \<in> set ds then [sv_local_enr s] else []) @
      map n_value (asked_nodes requester ds (max_nodes_response (sv_config s)) (sv_kbuckets s')), s') \<and>
    kt_inv (sv_kbuckets s') \<and> kt_local_key (sv_kbuckets s') = kt_local_key (sv_kbuckets s) \<and>
    sv_handler_open s' = sv_handler_open s \<and> sv_to_handler s' = sv_to_handler s"
proof -
  define es where "es = (case dedup_adjacent (sort ds) of d # es \<Rightarrow> if d = 0 then es else dedup_adjacent (sort ds) | [] \<Rightarrow> [])"
  have own: "(case dedup_adjacent (sort ds) of d # _ \<Rightarrow> if d = 0 then [sv_local_enr s] else [] | [] \<Rightarrow> []) =
      (if 0 \<in> set ds then [sv_local_enr s] else [])"
  proof (cases "dedup_adjacent (sort ds)")
    case Nil
    with set_dedup_adjacent [of "sort ds"] have "set ds = {}" by simp
    with Nil show ?thesis by simp
  next
    case (Cons d es)
    with zero_first(1) [OF this] show ?thesis by simp
  qed
  have valid: "valid_distances (map unat es) = valid_distances (map unat (dedup_adjacent (sort ds)))"
    by (auto simp: es_def valid_distances_def split: list.split)
  show ?thesis
  proof (cases "es = []")
    case True
    with valid have "asked_nodes requester ds m t = []" for m and t :: "(node_id, 'a) kbuckets_table"
      by (simp add: asked_nodes_def valid_distances_def nodes_at_def)
    with True assms own show ?thesis by (simp add: nodes_to_send_def Let_def es_def)
  next
    case False
    from kt_nodes_by_distances_eq [OF assms, of "\<lambda>i. se_clock E (sv_reads s + i)" "max_nodes_response (sv_config s)" "map unat es"]
    obtain t where t: "kt_inv t" "kt_local_key t = kt_local_key (sv_kbuckets s)"
      "kt_nodes_by_distances (\<lambda>i. se_clock E (sv_reads s + i)) (map unat es) (max_nodes_response (sv_config s)) (sv_kbuckets s) =
         Some (take (max 1 (max_nodes_response (sv_config s))) (nodes_at t (valid_distances (map unat es))), t)" by blast
    with False own valid show ?thesis
      by (simp add: nodes_to_send_def Let_def es_def [symmetric] sv_ticks_def asked_nodes_def)
  qed
qed

lemma asked_node_distance:
  assumes "kt_inv t" "n \<in> set (asked_nodes requester ds m t)"
  shows "preimage (n_key n) \<noteq> requester" "\<exists>d\<in>set ds. log2_distance (kt_local_key t) (n_key n) = Some (unat d)"
proof -
  show "preimage (n_key n) \<noteq> requester" using assms(2) by (simp add: asked_nodes_def)
  from assms(2) obtain d where d: "d \<in> set ds" "0 < unat d" "unat d \<le> NUM_BUCKETS" "n \<in> set (kb_nodes (kt_buckets t ! (unat d - 1)))"
    by (auto simp: asked_nodes_def nodes_at_def valid_distances_def dest!: in_set_takeD)
  with kt_node_index [OF assms(1) _ d(4)] show "\<exists>d\<in>set ds. log2_distance (kt_local_key t) (n_key n) = Some (unat d)"
    by (auto simp: log2_distance_bucket_index distance_def intro!: bexI [of _ d])
qed

section \<open>Properties\<close>

text \<open>
  C12. The answer to a FINDNODE request: the responses together hold, in order, the local record if distance 0 is
  asked for, and then the records of the table at the requested distances, at most \<open>max_nodes_response\<close> (but at
  least one) before the requester itself is left out. Every response has the id of the request and tells how
  many responses there are.
\<close>

theorem nodes_answer_correct:
  assumes "kt_inv (sv_kbuckets s)" "sv_handler_open s"
  shows "\<exists>ns rs s'. send_nodes_response E addr rid ds s = Some s' \<and>
    sv_to_handler s' = sv_to_handler s @ map (InResponse addr) rs \<and> rs \<noteq> [] \<and>
    concat (map nodes_of rs) = (if 0 \<in> set ds then [sv_local_enr s] else []) @ map n_value ns \<and>
    (\<forall>r\<in>set rs. resp_id r = rid \<and> resp_body r = Nodes (of_nat (length rs)) (nodes_of r)) \<and>
    ns = asked_nodes (na_node_id addr) ds (max_nodes_response (sv_config s)) (sv_kbuckets s') \<and>
    (\<forall>n\<in>set ns. preimage (n_key n) \<noteq> na_node_id addr \<and>
       (\<exists>d\<in>set ds. log2_distance (kt_local_key (sv_kbuckets s)) (n_key n) = Some (unat d)))"
proof -
  from nodes_to_send_spec [OF assms(1), of E "na_node_id addr" ds] obtain s1 where
    s1: "nodes_to_send E (na_node_id addr) ds s = Some ((if 0 \<in> set ds then [sv_local_enr s] else []) @
      map n_value (asked_nodes (na_node_id addr) ds (max_nodes_response (sv_config s)) (sv_kbuckets s1)), s1)"
    "kt_inv (sv_kbuckets s1)" "kt_local_key (sv_kbuckets s1) = kt_local_key (sv_kbuckets s)"
    "sv_handler_open s1 = sv_handler_open s" "sv_to_handler s1 = sv_to_handler s" by blast
  define ns where "ns = asked_nodes (na_node_id addr) ds (max_nodes_response (sv_config s)) (sv_kbuckets s1)"
  define nodes where "nodes = (if 0 \<in> set ds then [sv_local_enr s] else []) @ map n_value ns"
  define rs where "rs = nodes_responses (se_codec E) rid nodes"
  have "send_nodes_response E addr rid ds s = Some (s1\<lparr>sv_to_handler := sv_to_handler s @ map (InResponse addr) rs\<rparr>)"
    using assms(2) s1 by (simp add: send_nodes_response_def fold_handler_send rs_def nodes_def ns_def)
  moreover have "\<forall>n\<in>set ns. preimage (n_key n) \<noteq> na_node_id addr \<and>
       (\<exists>d\<in>set ds. log2_distance (kt_local_key (sv_kbuckets s)) (n_key n) = Some (unat d))"
    using asked_node_distance [OF s1(2)] unfolding ns_def s1(3) by blast
  ultimately show ?thesis
    using nodes_responses_spec [of "se_codec E" rid nodes, folded rs_def]
    by (intro exI [of _ ns] exI [of _ rs] exI [of _ "s1\<lparr>sv_to_handler := sv_to_handler s @ map (InResponse addr) rs\<rparr>"])
      (simp add: nodes_def ns_def)
qed

section \<open>Sizes\<close>

text \<open>
  The size of an RLP list of an id, a number below 128 and a list of records, and of an encrypted message: an RLP
  string of up to 55 bytes has one byte more, a list of less than 64 KiB at most three, and AES-GCM adds a tag of
  16 bytes.
\<close>

definition rlp_size_ok :: "'enr rlp \<Rightarrow> ('enr, 'e) enr_codec \<Rightarrow> bool" where
  "rlp_size_ok R C \<longleftrightarrow> (\<forall>i n enrs. length i \<le> 55 \<longrightarrow> n < 128 \<longrightarrow> length i + enrs_size C enrs < 65000 \<longrightarrow>
     length (rlp_out R [FBytes i, FUint n, FEnrs enrs]) \<le> 3 + (1 + length i) + 1 + (3 + enrs_size C enrs))"

definition aead_size_ok :: "('vk, 'sk, 'pt) crypto \<Rightarrow> bool" where
  "aead_size_ok K \<longleftrightarrow> (\<forall>k n m aad c. aead_encrypt K k n m aad = Some c \<longrightarrow> length c = length m + 16)"

lemma session_encrypt_size:
  assumes "aead_size_ok K" "session_encrypt K C P rnd iv src_id m s = Some (Inr p, s')"
  shows "length (packet_encode ctr C P dst_id p) = 16 + 55 + (length m + 16)"
  using assms by (auto simp: aead_size_ok_def session_encrypt_def encrypt_bytes_def packet_encode_def encrypt_header_def
      header_encode_def id_raw_def Let_def split: if_splits option.splits)

text \<open>
  C13. If every record is smaller than \<open>MAX_PACKET_SIZE - 104\<close> bytes, each response of an answer with fewer than 127
  records to a request with an id of at most 8 bytes becomes, in an established session, a datagram of at most
  \<open>MAX_PACKET_SIZE\<close> bytes: the estimated overhead of 104 bytes is enough.
\<close>

theorem nodes_datagram_fits:
  assumes "rlp_size_ok R C" "aead_size_ok K" "\<forall>enr\<in>set nodes. length (rlp_encode_enr C enr) < MAX_PACKET_SIZE - 104"
    "length nodes < 127" "length (as_bytes rid) \<le> 8" "r \<in> set (nodes_responses C rid nodes)"
    "session_encrypt K C P rnd iv src_id (response_encode R r) s = Some (Inr p, s')"
  shows "length (packet_encode ctr C P dst_id p) \<le> MAX_PACKET_SIZE"
proof -
  let ?n = "length (nodes_responses C rid nodes)"
  have r: "resp_id r = rid" "resp_body r = Nodes (of_nat ?n) (nodes_of r)" using nodes_responses_spec(4) [of C rid nodes] assms(6) by auto
  have "?n < 128" using nodes_responses_spec(3) [of C rid nodes] assms(4) by simp
  then have n: "(of_nat ?n :: u64) < 128" by (simp add: word_less_nat_alt unat_of_nat take_bit_nat_eq_self)
  have size: "enrs_size C (nodes_of r) < MAX_PACKET_SIZE - 104" by (rule nodes_responses_size [OF assms(3,6)])
  have "length (rlp_out R [FBytes (as_bytes rid), FUint (of_nat ?n), FEnrs (nodes_of r)]) \<le> 16 + enrs_size C (nodes_of r)"
    using assms(1) [unfolded rlp_size_ok_def, rule_format, of "as_bytes rid" "of_nat ?n" "nodes_of r"] assms(5) n size
    by (simp add: MAX_PACKET_SIZE_def)
  then have "length (response_encode R r) \<le> 17 + enrs_size C (nodes_of r)" using r by (simp add: response_encode_def)
  with session_encrypt_size [OF assms(2,7)] size show ?thesis by (simp add: MAX_PACKET_SIZE_def)
qed

section \<open>Witnesses\<close>

text \<open>The encoder of RLP for the fields of a response.\<close>

definition rlp_prefix :: "byte \<Rightarrow> nat \<Rightarrow> byte list" where
  "rlp_prefix base n =
     (if n \<le> 55 then [base + of_nat n] else if n < 256 then [base + 56, of_nat n] else [base + 57, of_nat (n div 256), of_nat n])"

definition rlp_string :: "byte list \<Rightarrow> byte list" where
  "rlp_string bs = (if length bs = 1 \<and> hd bs < 128 then bs else rlp_prefix 128 (length bs) @ bs)"

fun rlp_item :: "('enr, 'e) enr_codec \<Rightarrow> 'enr rlp_field \<Rightarrow> byte list" where
  "rlp_item C (FBytes bs) = rlp_string bs"
| "rlp_item C (FUint n) = rlp_string (dropWhile (\<lambda>b. b = 0) (word_bytes 8 n))"
| "rlp_item C (FUints ns) = (let items = concat (map (\<lambda>n. rlp_string (dropWhile (\<lambda>b. b = 0) (word_bytes 8 n))) ns)
     in rlp_prefix 192 (length items) @ items)"
| "rlp_item C (FEnrs enrs) = (let items = concat (map (rlp_encode_enr C) enrs) in rlp_prefix 192 (length items) @ items)"

definition rlp_encoder :: "('enr, 'e) enr_codec \<Rightarrow> 'enr rlp" where
  "rlp_encoder C = \<lparr>rlp_out = (\<lambda>fs. let items = concat (map (rlp_item C) fs) in rlp_prefix 192 (length items) @ items),
     rlp_item_count = (\<lambda>_. Inl RlpIsTooShort), rlp_payload_info = (\<lambda>_. Inl RlpIsTooShort),
     rlp_val_at_bytes = (\<lambda>_ _. Inl RlpIsTooShort), rlp_val_at_u64 = (\<lambda>_ _. Inl RlpIsTooShort),
     rlp_val_at_u16 = (\<lambda>_ _. Inl RlpIsTooShort), rlp_list_at_u64 = (\<lambda>_ _. Inl RlpIsTooShort),
     rlp_at = (\<lambda>_ _. Inl RlpIsTooShort), rlp_is_empty = (\<lambda>_. True), rlp_as_enr_list = (\<lambda>_. Inl RlpIsTooShort)\<rparr>"

lemma length_rlp_prefix: "length (rlp_prefix base n) \<le> 3" "n \<le> 55 \<Longrightarrow> length (rlp_prefix base n) = 1"
  by (simp_all add: rlp_prefix_def)

lemma be_bytes_0: "be_bytes k 0 = replicate k 0"
  by (induction k) (simp_all add: replicate_append_same)

lemma dropWhile_zeros: "dropWhile (\<lambda>b. b = 0) (replicate k 0 @ bs) = dropWhile (\<lambda>b. b = 0) bs"
  by (induction k) simp_all

lemma length_small_uint:
  assumes "(n :: u64) < 128"
  shows "length (rlp_string (dropWhile (\<lambda>b. b = 0) (word_bytes 8 n))) \<le> 1"
proof -
  have n: "unat n < 128" using assms by (simp add: word_less_nat_alt)
  then have "word_bytes 8 n = replicate 7 0 @ [of_nat (unat n)]"
    using be_bytes.simps(2) [of 7 "unat n"] by (simp add: word_bytes_def be_bytes_0)
  then have d: "dropWhile (\<lambda>b. b = 0) (word_bytes 8 n) = (if (of_nat (unat n) :: byte) = 0 then [] else [of_nat (unat n)])"
    by (simp add: dropWhile_zeros)
  have "unat (of_nat (unat n) :: byte) = unat n" using n unfolding unat_of_nat by simp
  then have "(of_nat (unat n) :: byte) < 128" using n by (simp add: word_less_nat_alt)
  with d show ?thesis by (simp add: rlp_string_def rlp_prefix_def)
qed

lemma rlp_encoder_size: "rlp_size_ok (rlp_encoder C) C"
  unfolding rlp_size_ok_def
proof (intro allI impI)
  fix i :: "byte list" and n :: u64 and enrs :: "'a list"
  assume "length i \<le> 55" "n < 128"
  then have "length (rlp_string i) \<le> 1 + length i" by (simp add: rlp_string_def length_rlp_prefix(2))
  moreover have "length (concat (map (rlp_encode_enr C) enrs)) = enrs_size C enrs" by (simp add: enrs_size_def length_concat comp_def)
  then have "length (rlp_item C (FEnrs enrs)) \<le> 3 + enrs_size C enrs"
    using length_rlp_prefix(1) [of 192 "enrs_size C enrs"] by (simp add: Let_def)
  moreover note length_small_uint [OF \<open>n < 128\<close>] 
    length_rlp_prefix(1) [of 192 "length (concat (map (rlp_item C) [FBytes i, FUint n, FEnrs enrs]))"]
  ultimately show "length (rlp_out (rlp_encoder C) [FBytes i, FUint n, FEnrs enrs]) \<le> 3 + (1 + length i) + 1 + (3 + enrs_size C enrs)"
    by (simp add: rlp_encoder_def Let_def del: rlp_item.simps(4))
qed

lemma toy_crypto_size: "aead_size_ok toy_crypto"
  by (auto simp: aead_size_ok_def toy_crypto_def toy_mac_def)

theorem nodes_answer_correct_witness:
  "\<exists>(ns :: (node_id, u64 \<times> u64 \<times> bool) node list) rs s'. send_nodes_response demo_service_env (demo_addr\<lparr>na_node_id := 6\<rparr>) (RequestId [1]) [0, 2 :: u64] demo_known = Some s' \<and>
     sv_to_handler s' = map (InResponse (demo_addr\<lparr>na_node_id := 6\<rparr>)) rs \<and>
     concat (map nodes_of rs) = (7, 1, True) # map n_value ns"
proof -
  have inv: "kt_inv (sv_kbuckets demo_known)"
    by (rule sv_inv_table [OF reachable_service(1) [OF demo_env_ok demo_known_reachable admits_any]])
  have f: "sv_handler_open demo_known" "sv_to_handler demo_known = []" "sv_local_enr demo_known = (7, 1, True)"
    by (simp_all add: demo_known_def share_out_def demo_added_table share_in_def demo_service_def service_spawn_def demo_config_def
        demo_dv_def discv5_new_def demo_api_env_def demo_ops_def Let_def)
  from nodes_answer_correct [OF inv f(1), of demo_service_env "demo_addr\<lparr>na_node_id := 6\<rparr>" "RequestId [1]" "[0, 2 :: u64]"]
  obtain ns :: "(node_id, u64 \<times> u64 \<times> bool) node list" and rs s' where "send_nodes_response demo_service_env (demo_addr\<lparr>na_node_id := 6\<rparr>) (RequestId [1]) [0, 2 :: u64] demo_known = Some s'"
    "sv_to_handler s' = sv_to_handler demo_known @ map (InResponse (demo_addr\<lparr>na_node_id := 6\<rparr>)) rs"
    "concat (map nodes_of rs) = (if 0 \<in> set [0, 2 :: u64] then [sv_local_enr demo_known] else []) @ map n_value ns" by blast
  with f show ?thesis by (intro exI [of _ ns] exI [of _ rs] exI [of _ s']) simp
qed

theorem nodes_datagram_fits_witness:
  "\<exists>p s'. session_encrypt toy_crypto ex_codec DefaultProtocolId 3 17 7
       (response_encode (rlp_encoder ex_codec) (hd (nodes_responses ex_codec (RequestId [1]) [[1, 2, 3]])))
       (session_new \<lparr>ks_encryption_key = [1], ks_decryption_key = [2]\<rparr>) = Some (Inr p :: unit disc_error + byte list packet, s') \<and>
     length (packet_encode ex_ctr ex_codec DefaultProtocolId 5 p) \<le> MAX_PACKET_SIZE"
proof -
  let ?r = "hd (nodes_responses ex_codec (RequestId [1]) [[1, 2, 3]])"
  have r: "?r \<in> set (nodes_responses ex_codec (RequestId [1]) [[1, 2, 3]])" by (rule hd_in_set [OF nodes_responses_spec(1)])
  obtain p s' where p: "session_encrypt toy_crypto ex_codec DefaultProtocolId 3 17 7
       (response_encode (rlp_encoder ex_codec) ?r)
       (session_new \<lparr>ks_encryption_key = [1], ks_decryption_key = [2]\<rparr>) = Some (Inr p :: unit disc_error + byte list packet, s')"
    by (simp add: session_encrypt_def session_new_def encrypt_bytes_def toy_crypto_def Let_def)
  from nodes_datagram_fits [OF rlp_encoder_size toy_crypto_size _ _ _ r p] p show ?thesis
    by (simp add: ex_codec_def MAX_PACKET_SIZE_def)
qed

end
