(* ===== verification/Disc_Multiaddr.thy ===== *)
theory Disc_Multiaddr
  imports Disc_Runs
begin

text \<open>
  Contacts from multiaddresses: \<open>try_from_multiaddr\<close> of \<open>src/node_info.rs\<close> and \<open>request_enr\<close> of \<open>src/discv5.rs\<close>.
  A multiaddress is the list of its protocols, of which the code reads four. Peer ids and public keys are types
  of the \<open>libp2p\<close> crate; \<open>libp2p_ops\<close> holds the operations on them and the constructors of \<open>enr\<close>'s keys.
  \<open>libp2p_laws\<close> states that decoding inverts encoding, for public keys and for points of the curve, and that the
  type of a public key says which kind of key it holds.
\<close>

section \<open>Contacts\<close>

datatype 'peer protocol = ProtoUdp u16 | ProtoIp4 ipv4 | ProtoIp6 ipv6 | ProtoP2p 'peer | ProtoOther

datatype key_type = KeyTypeSecp256k1 | KeyTypeEd25519 | KeyTypeOther

record ('peer, 'lpk, 'vk) libp2p_ops =
  peer_id_to_bytes :: "'peer \<Rightarrow> byte list"
  encode_protobuf :: "'lpk \<Rightarrow> byte list"
  try_decode_protobuf :: "byte list \<Rightarrow> 'lpk option"
  lpk_key_type :: "'lpk \<Rightarrow> key_type"
  try_into_secp256k1 :: "'lpk \<Rightarrow> byte list option"
  try_into_ed25519 :: "'lpk \<Rightarrow> byte list option"
  secp256k1_to_bytes_uncompressed :: "'vk \<Rightarrow> byte list"
  secp256k1_from_sec1_bytes :: "byte list \<Rightarrow> 'vk option"
  ed25519_from_bytes :: "byte list \<Rightarrow> byte list option"

definition libp2p_laws :: "('peer, 'lpk, 'vk) libp2p_ops \<Rightarrow> bool" where
  "libp2p_laws L \<longleftrightarrow>
     (\<forall>pk. try_decode_protobuf L (encode_protobuf L pk) = Some pk) \<and>
     (\<forall>v. secp256k1_from_sec1_bytes L (secp256k1_to_bytes_uncompressed L v) = Some v) \<and>
     (\<forall>pk. lpk_key_type L pk = KeyTypeSecp256k1 \<longleftrightarrow>
        (\<exists>v. try_into_secp256k1 L pk = Some (secp256k1_to_bytes_uncompressed L v))) \<and>
     (\<forall>pk. lpk_key_type L pk = KeyTypeEd25519 \<longleftrightarrow>
        (\<exists>bs. try_into_ed25519 L pk = Some bs \<and> ed25519_from_bytes L bs = Some bs))"

text \<open>The pass over the protocols, with the address, port and peer id found so far.\<close>

fun scan_protocols ::
  "'peer protocol list \<Rightarrow> ip_addr option \<times> u16 option \<times> 'peer option \<Rightarrow> ip_addr option \<times> u16 option \<times> 'peer option" where
  "scan_protocols [] found = found"
| "scan_protocols (p # ps) (ip_addr, udp_port, p2p) =
     scan_protocols ps
       (case p of
          ProtoUdp port \<Rightarrow> (ip_addr, Some port, p2p)
        | ProtoIp4 addr \<Rightarrow> (Some (V4 addr), udp_port, p2p)
        | ProtoIp6 addr \<Rightarrow> (Some (V6 addr), udp_port, p2p)
        | ProtoP2p peer_id \<Rightarrow> (ip_addr, udp_port, Some peer_id)
        | ProtoOther \<Rightarrow> (ip_addr, udp_port, p2p))"

fun socket_addr_new :: "ip_addr \<Rightarrow> u16 \<Rightarrow> socket_addr" where
  "socket_addr_new (V4 ip) port = SocketV4 ip port"
| "socket_addr_new (V6 ip) port = SocketV6 ip port 0 0"

definition multiaddr_public_key ::
  "('peer, 'lpk, 'vk) libp2p_ops \<Rightarrow> 'peer \<Rightarrow> (string + 'vk combined_public_key) option" where
  "multiaddr_public_key L peer_id =
     (let bytes = peer_id_to_bytes L peer_id
      in if length bytes < 2 then None
         else (case try_decode_protobuf L (drop 2 bytes) of
                 None \<Rightarrow> Some (Inl ''Invalid public key'')
               | Some pk \<Rightarrow>
                   (case lpk_key_type L pk of
                      KeyTypeSecp256k1 \<Rightarrow> do {
                        bs \<leftarrow> try_into_secp256k1 L pk;
                        v \<leftarrow> secp256k1_from_sec1_bytes L bs;
                        Some (Inr (PubSecp256k1 v))
                      }
                    | KeyTypeEd25519 \<Rightarrow> do {
                        bs \<leftarrow> try_into_ed25519 L pk;
                        v \<leftarrow> ed25519_from_bytes L bs;
                        Some (Inr (PubEd25519 v))
                      }
                    | KeyTypeOther \<Rightarrow> Some (Inl ''The key type is not supported''))))"

definition try_from_multiaddr ::
  "('peer, 'lpk, 'vk) libp2p_ops \<Rightarrow> 'peer protocol list \<Rightarrow> (string + ('enr, 'vk combined_public_key) node_contact) option" where
  "try_from_multiaddr L multiaddr =
     (case scan_protocols multiaddr (None, None, None) of
        (_, None, _) \<Rightarrow> Some (Inl ''A UDP port must be specified in the multiaddr'')
      | (None, _, _) \<Rightarrow> Some (Inl ''An IP address must be specified in the multiaddr'')
      | (_, _, None) \<Rightarrow> Some (Inl ''The p2p protocol must be specified in the multiaddr'')
      | (Some ip_addr, Some udp_port, Some peer_id) \<Rightarrow>
          map_option (map_sum id (\<lambda>public_key. \<lparr>nc_public_key = public_key,
            nc_socket_addr = socket_addr_new ip_addr udp_port, nc_enr = None\<rparr>)) (multiaddr_public_key L peer_id))"

section \<open>Requesting a record\<close>

text \<open>
  \<open>multiaddr\<close> is the result of the conversion of the argument, and \<open>sent\<close> and \<open>answer\<close> what the channels do. The
  result is the request that reaches the service, if any, and that of the future; it is \<open>None\<close> on a panic.
\<close>

definition request_enr ::
  "('peer, 'lpk, 'vk) libp2p_ops \<Rightarrow> 'enr discv5 \<Rightarrow> 'peer protocol list option \<Rightarrow> nat \<Rightarrow> bool
     \<Rightarrow> string + (request_error + 'enr list)
     \<Rightarrow> (('enr, 'vk combined_public_key) service_request option \<times> (request_error + 'enr)) option" where
  "request_enr L dv multiaddr callback sent answer =
     (case (clone_channel dv :: unit disc_error + unit) of
        Inl _ \<Rightarrow> Some (None, Inl RServiceNotStarted)
      | Inr _ \<Rightarrow>
          (case multiaddr of
             None \<Rightarrow> Some (None, Inl (RInvalidMultiaddr ''Could not convert to multiaddr''))
           | Some multiaddr \<Rightarrow> do {
               converted \<leftarrow> try_from_multiaddr L multiaddr;
               Some (case converted of
                       Inl e \<Rightarrow> (None, Inl (RInvalidMultiaddr e))
                     | Inr node_contact \<Rightarrow>
                         if \<not> sent then (None, Inl (RChannelFailed ''Service channel closed''))
                         else (Some (FindNodeDesignated node_contact [0] callback),
                           (case answer of
                              Inl e \<Rightarrow> Inl (RChannelFailed e)
                            | Inr (Inr nodes) \<Rightarrow>
                                if nodes = [] then Inl (RInvalidEnr ''Peer did not return an ENR'') else Inr (last nodes)
                            | Inr (Inl err) \<Rightarrow> Inl err)))
             }))"

section \<open>Correctness\<close>

text \<open>What the pass finds, if it finds anything, is the last address, port and peer id of the multiaddress.\<close>

fun proto_ip :: "'peer protocol \<Rightarrow> ip_addr option" where
  "proto_ip (ProtoIp4 a) = Some (V4 a)"
| "proto_ip (ProtoIp6 a) = Some (V6 a)"
| "proto_ip _ = None"

fun proto_port :: "'peer protocol \<Rightarrow> u16 option" where
  "proto_port (ProtoUdp port) = Some port"
| "proto_port _ = None"

fun proto_peer :: "'peer protocol \<Rightarrow> 'peer option" where
  "proto_peer (ProtoP2p i) = Some i"
| "proto_peer _ = None"

definition last_of :: "('a \<Rightarrow> 'b option) \<Rightarrow> 'a list \<Rightarrow> 'b option" where
  "last_of f xs = find_map f (rev xs)"

lemma find_map_append: "find_map f (xs @ ys) = (case find_map f xs of None \<Rightarrow> find_map f ys | Some y \<Rightarrow> Some y)"
  by (induction xs) (auto simp del: find_map_None split: option.splits)

lemma last_of_Cons: "last_of f (x # xs) = (case last_of f xs of None \<Rightarrow> f x | Some y \<Rightarrow> Some y)"
  by (auto simp: last_of_def find_map_append simp del: find_map_None split: option.splits)

lemma scan_protocols_last:
  "scan_protocols ps (a, p, i) =
     (case last_of proto_ip ps of None \<Rightarrow> a | r \<Rightarrow> r, case last_of proto_port ps of None \<Rightarrow> p | r \<Rightarrow> r,
      case last_of proto_peer ps of None \<Rightarrow> i | r \<Rightarrow> r)"
proof (induction ps arbitrary: a p i)
  case (Cons q ps)
  then show ?case by (cases q) (simp_all add: last_of_Cons split: option.split)
qed (simp add: last_of_def)

text \<open>
  The peer id of a public key whose encoding is short, as for the two supported types: the multihash with the
  identity code, the length, and the encoding itself.
\<close>

definition peer_of :: "('peer, 'lpk, 'vk) libp2p_ops \<Rightarrow> 'lpk \<Rightarrow> 'peer \<Rightarrow> bool" where
  "peer_of L pk peer \<longleftrightarrow>
     peer_id_to_bytes L peer = [0, of_nat (length (encode_protobuf L pk))] @ encode_protobuf L pk"

text \<open>The key of a node in the form that \<open>enr\<close> has it: a point of the curve, or the bytes of an Ed25519 key.\<close>

definition key_of :: "('peer, 'lpk, 'vk) libp2p_ops \<Rightarrow> 'lpk \<Rightarrow> 'vk combined_public_key \<Rightarrow> bool" where
  "key_of L pk k \<longleftrightarrow>
     (case k of
        PubSecp256k1 v \<Rightarrow> lpk_key_type L pk = KeyTypeSecp256k1 \<and> try_into_secp256k1 L pk = Some (secp256k1_to_bytes_uncompressed L v)
      | PubEd25519 bs \<Rightarrow> lpk_key_type L pk = KeyTypeEd25519 \<and> try_into_ed25519 L pk = Some bs)"

text \<open>The contact that a multiaddress names, if it names one.\<close>

definition names_contact where
  "names_contact L multiaddr contact \<longleftrightarrow>
     (\<exists>ip port peer pk. last_of proto_ip multiaddr = Some ip \<and> last_of proto_port multiaddr = Some port \<and>
       last_of proto_peer multiaddr = Some peer \<and> peer_of L pk peer \<and> key_of L pk (nc_public_key contact) \<and>
       nc_socket_addr contact = socket_addr_new ip port \<and> nc_enr contact = None)"

lemma multiaddr_public_key_spec:
  assumes "libp2p_laws L" "peer_of L pk peer"
  shows "\<exists>r. multiaddr_public_key L peer = Some r \<and> (\<forall>k. r = Inr k \<longleftrightarrow> key_of L pk k)"
proof -
  have dec: "multiaddr_public_key L peer =
      (case lpk_key_type L pk of
         KeyTypeSecp256k1 \<Rightarrow> do {bs \<leftarrow> try_into_secp256k1 L pk; v \<leftarrow> secp256k1_from_sec1_bytes L bs; Some (Inr (PubSecp256k1 v))}
       | KeyTypeEd25519 \<Rightarrow> do {bs \<leftarrow> try_into_ed25519 L pk; v \<leftarrow> ed25519_from_bytes L bs; Some (Inr (PubEd25519 v))}
       | KeyTypeOther \<Rightarrow> Some (Inl ''The key type is not supported''))"
    using assms by (simp add: multiaddr_public_key_def peer_of_def libp2p_laws_def Let_def)
  show ?thesis
  proof (cases "lpk_key_type L pk")
    case KeyTypeSecp256k1
    with assms(1) obtain v where v: "try_into_secp256k1 L pk = Some (secp256k1_to_bytes_uncompressed L v)"
      by (auto simp: libp2p_laws_def)
    have inj: "secp256k1_to_bytes_uncompressed L v = secp256k1_to_bytes_uncompressed L w \<longleftrightarrow> v = w" for w
      using assms(1) unfolding libp2p_laws_def by (metis option.inject)
    have "secp256k1_from_sec1_bytes L (secp256k1_to_bytes_uncompressed L v) = Some v"
      using assms(1) by (simp add: libp2p_laws_def)
    then show ?thesis using KeyTypeSecp256k1 v unfolding dec
      by (auto simp: key_of_def inj split: combined_public_key.split)
  next
    case KeyTypeEd25519
    with assms(1) obtain bs where "try_into_ed25519 L pk = Some bs" "ed25519_from_bytes L bs = Some bs"
      by (auto simp: libp2p_laws_def)
    with KeyTypeEd25519 show ?thesis unfolding dec by (auto simp: key_of_def split: combined_public_key.split)
  next
    case KeyTypeOther
    then show ?thesis unfolding dec by (auto simp: key_of_def split: combined_public_key.split)
  qed
qed

lemma peer_of_unique:
  assumes "libp2p_laws L" "peer_of L pk peer" "peer_of L pk' peer"
  shows "pk' = pk"
  using assms unfolding libp2p_laws_def peer_of_def by (metis append.assoc append_Cons append_Nil list.inject option.inject)

lemma map_sum_Inr [simp]: "map_sum f g r = Inr y \<longleftrightarrow> (\<exists>x. r = Inr x \<and> y = g x)"
  by (cases r) auto

lemma last_split: "xs \<noteq> [] \<Longrightarrow> \<exists>ys. xs = ys @ [last xs]"
  by (rule exI [of _ "butlast xs"]) simp

lemma last_of_mem: "last_of f xs = Some y \<Longrightarrow> \<exists>x\<in>set xs. f x = Some y"
proof (induction xs)
  case (Cons x xs)
  then show ?case by (cases "last_of f xs") (auto simp: last_of_Cons)
qed (simp add: last_of_def)

lemma try_from_multiaddr_spec:
  assumes "libp2p_laws L" "\<forall>peer. ProtoP2p peer \<in> set multiaddr \<longrightarrow> (\<exists>pk. peer_of L pk peer)"
  shows "\<exists>r. try_from_multiaddr L multiaddr = Some r \<and> (\<forall>contact. r = Inr contact \<longleftrightarrow> names_contact L multiaddr contact)"
proof (cases "last_of proto_peer multiaddr")
  case None
  then show ?thesis by (auto simp: try_from_multiaddr_def scan_protocols_last names_contact_def split: option.splits)
next
  case (Some peer)
  from last_of_mem [OF Some] have "ProtoP2p peer \<in> set multiaddr" by (auto elim: proto_peer.elims)
  with assms(2) obtain pk where pk: "peer_of L pk peer" by blast
  with multiaddr_public_key_spec [OF assms(1) pk] obtain r where
    r: "multiaddr_public_key L peer = Some r" "\<forall>k. r = Inr k \<longleftrightarrow> key_of L pk k" by blast
  have "peer_of L pk' peer \<longleftrightarrow> pk' = pk" for pk' using peer_of_unique [OF assms(1) pk] pk by blast
  then have n: "names_contact L multiaddr contact \<longleftrightarrow> (\<exists>ip port. last_of proto_ip multiaddr = Some ip \<and>
      last_of proto_port multiaddr = Some port \<and> r = Inr (nc_public_key contact) \<and>
      nc_socket_addr contact = socket_addr_new ip port \<and> nc_enr contact = None)" for contact
    using r(2) Some by (auto simp: names_contact_def)
  show ?thesis
    by (auto simp: n try_from_multiaddr_def scan_protocols_last Some r(1) split: option.splits)
qed

text \<open>
  C32. Requesting the record of a multiaddress whose peer ids are those of public keys never panics. The service
  is asked exactly if it runs, takes the request, and the multiaddress has an address, a UDP port and a peer id
  of a Secp256k1 or an Ed25519 key. The request is for distance 0 and goes to the last address and port of the
  multiaddress and to the node with this key. The result is a record exactly if the service was asked and
  answers with records, and it is the last of them, whichever node it belongs to.
\<close>

theorem request_enr_correct:
  fixes dv :: "'enr discv5"
  assumes "libp2p_laws L" "\<forall>ps peer. multiaddr = Some ps \<longrightarrow> ProtoP2p peer \<in> set ps \<longrightarrow> (\<exists>pk. peer_of L pk peer)"
  shows "\<exists>out r. request_enr L dv multiaddr callback sent answer = Some (out, r) \<and>
    (\<forall>event. out = Some event \<longleftrightarrow> dv_service_channel dv \<and> sent \<and>
      (\<exists>ps contact. multiaddr = Some ps \<and> names_contact L ps contact \<and> event = FindNodeDesignated contact [0] callback)) \<and>
    (\<forall>enr. r = Inr enr \<longleftrightarrow> out \<noteq> None \<and> (\<exists>nodes. answer = Inr (Inr (nodes @ [enr]))))"
proof (cases "dv_service_channel dv")
  case True
  show ?thesis
  proof (cases multiaddr)
    case (Some ps)
    with assms(2) try_from_multiaddr_spec [OF assms(1), of ps] obtain converted :: "string + ('enr, _) node_contact"
      where c: "try_from_multiaddr L ps = Some converted" "\<forall>contact. converted = Inr contact \<longleftrightarrow> names_contact L ps contact" by blast
    show ?thesis
    proof (cases converted)
      case (Inr contact)
      with c(2) have "names_contact L ps contact' \<longleftrightarrow> contact' = contact" for contact' by auto
      then show ?thesis using True Some c(1) Inr
        by (auto simp: request_enr_def clone_channel_def snoc_eq_iff_butlast last_split split: sum.splits)
    qed (use True Some c in \<open>auto simp: request_enr_def clone_channel_def\<close>)
  qed (use True in \<open>auto simp: request_enr_def clone_channel_def\<close>)
qed (simp add: request_enr_def clone_channel_def)

section \<open>Witness\<close>

definition toy_libp2p :: "(byte list, byte list + byte list, byte list) libp2p_ops" where
  "toy_libp2p = \<lparr>peer_id_to_bytes = id, encode_protobuf = case_sum ((#) 2) ((#) 1),
     try_decode_protobuf = (\<lambda>bs. case bs of [] \<Rightarrow> None
       | t # b \<Rightarrow> if t = 2 then Some (Inl b) else if t = 1 then Some (Inr b) else None),
     lpk_key_type = case_sum (\<lambda>_. KeyTypeSecp256k1) (\<lambda>_. KeyTypeEd25519),
     try_into_secp256k1 = case_sum Some (\<lambda>_. None), try_into_ed25519 = case_sum (\<lambda>_. None) Some,
     secp256k1_to_bytes_uncompressed = id, secp256k1_from_sec1_bytes = Some, ed25519_from_bytes = Some\<rparr>"

definition toy_multiaddr :: "byte list protocol list" where
  "toy_multiaddr = [ProtoIp4 (127, 0, 0, 1), ProtoUdp 9000, ProtoOther, ProtoP2p [0, 3, 2, 5, 9]]"

definition toy_node_contact :: "(u64 \<times> u64 \<times> bool, byte list combined_public_key) node_contact" where
  "toy_node_contact = \<lparr>nc_public_key = PubSecp256k1 [5, 9], nc_socket_addr = SocketV4 (127, 0, 0, 1) 9000, nc_enr = None\<rparr>"

theorem request_enr_correct_witness:
  "libp2p_laws toy_libp2p \<and>
   request_enr toy_libp2p (demo_dv\<lparr>dv_service_channel := True\<rparr>) (Some toy_multiaddr) 3 True (Inr (Inr [(5, 1, True)])) =
     Some (Some (FindNodeDesignated toy_node_contact [0] 3), Inr (5, 1, True))"
proof -
  have laws: "libp2p_laws toy_libp2p" by (auto simp: libp2p_laws_def toy_libp2p_def split: sum.splits)
  have peer: "peer_of toy_libp2p (Inl [5, 9]) [0, 3, 2, 5, 9]" by (simp add: peer_of_def toy_libp2p_def)
  then have ids: "\<forall>ps peer. Some toy_multiaddr = Some ps \<longrightarrow> ProtoP2p peer \<in> set ps \<longrightarrow> (\<exists>pk. peer_of toy_libp2p pk peer)"
    by (auto simp: toy_multiaddr_def)
  have "key_of toy_libp2p (Inl [5, 9]) (PubSecp256k1 [5, 9])" by (simp add: key_of_def toy_libp2p_def)
  with peer have n: "names_contact toy_libp2p toy_multiaddr toy_node_contact"
    by (auto simp: names_contact_def toy_multiaddr_def last_of_def toy_node_contact_def)
  let ?dv = "demo_dv\<lparr>dv_service_channel := True\<rparr>" and ?answer = "Inr (Inr [(5, 1, True)]) :: string + (request_error + (u64 \<times> u64 \<times> bool) list)"
  obtain out r where o: "request_enr toy_libp2p ?dv (Some toy_multiaddr) 3 True ?answer = Some (out, r)"
    and out: "\<And>event. out = Some event \<longleftrightarrow> dv_service_channel ?dv \<and> True \<and>
      (\<exists>ps contact. Some toy_multiaddr = Some ps \<and> names_contact toy_libp2p ps contact \<and> event = FindNodeDesignated contact [0] 3)"
    and r: "\<And>enr. r = Inr enr \<longleftrightarrow> out \<noteq> None \<and> (\<exists>nodes. ?answer = Inr (Inr (nodes @ [enr])))"
    using request_enr_correct [OF laws ids, of ?dv 3 True ?answer] by (elim exE conjE) (rule that, assumption, (erule spec)+)
  have "out = Some (FindNodeDesignated toy_node_contact [0] 3)" unfolding out using n by auto
  moreover from this have "r = Inr (5, 1, True)" unfolding r by simp
  ultimately show ?thesis using o laws by simp
qed

end
