(* ===== verification/Disc_System.thy ===== *)
theory Disc_System
  imports Disc_Runs Disc_Handler_Safety
begin

text \<open>
  The whole node: the interface, the service and the handler. The two channels between service and handler are
  queues without a capacity; the handler waits when the one to the service holds 50 messages, which only delays
  its next step. \<open>i\<close> messages of \<open>sv_to_handler\<close> and \<open>j\<close> messages of \<open>h_out\<close> have been taken from them, in
  order, and any message that waits can be taken at any time. Packets and timers of the handler, requests of
  the user and timers of the service, answers of the user to TALK requests, which go to the handler directly,
  and calls of the interface come in any order.
\<close>

section \<open>Runs of the whole node\<close>

inductive system_reachable for E A N config H M hc where
  start: "node_reachable E A N config dv None \<Longrightarrow> discv5_start E None dv = Some (Inr s :: unit disc_error + _, dv') \<Longrightarrow>
    hc_request_retries hc \<le> 255 \<Longrightarrow>
    system_reachable E A N config H M hc dv' (handler_new H hc node_id enr key sockets permit_ban) s 0 0"
| service_event: "system_reachable E A N config H M hc dv h s i j \<Longrightarrow> (\<And>out. e \<noteq> FromHandler out) \<Longrightarrow>
    service_step E e s = Some s' \<Longrightarrow> sv_draws s' \<le> N \<Longrightarrow> system_reachable E A N config H M hc dv h s' i j"
| to_service: "system_reachable E A N config H M hc dv h s i j \<Longrightarrow> j < length (h_out h) \<Longrightarrow>
    service_step E (FromHandler (h_out h ! j)) s = Some s' \<Longrightarrow> sv_draws s' \<le> N \<Longrightarrow>
    system_reachable E A N config H M hc dv h s' i (Suc j)"
| to_handler: "system_reachable E A N config H M hc dv h s i j \<Longrightarrow> i < length (sv_to_handler s) \<Longrightarrow> room M h \<Longrightarrow>
    handler_step H (FromService (sv_to_handler s ! i)) h = Some h' \<Longrightarrow> system_reachable E A N config H M hc dv h' s (Suc i) j"
| handler_event: "system_reachable E A N config H M hc dv h s i j \<Longrightarrow> (\<And>contact q. e \<noteq> FromService (InRequest contact q)) \<Longrightarrow>
    event_ok e \<Longrightarrow> room M h \<Longrightarrow> handler_step H e h = Some h' \<Longrightarrow> system_reachable E A N config H M hc dv h' s i j"
| call: "system_reachable E A N config H M hc dv h s i j \<Longrightarrow> api_run A clock c (share_in s dv) = Some dv' \<Longrightarrow>
    system_reachable E A N config H M hc dv' h (share_out dv' s) i j"

text \<open>What is assumed of the environments: both use the same records, and the request ids of the service are not those of the handler.\<close>

definition system_ok where
  "system_ok E A N H M hc \<longleftrightarrow> service_env_ok E N \<and> env_ok H M (hc_session_timeout hc) \<and>
     ae_ops A = se_ops E \<and> se_ops E = he_enr_ops H \<and>
     se_request_id E ` {..<N} \<inter> he_request_id H ` {..<M} = {}"

section \<open>The invariant\<close>

text \<open>An id that is known at an address is one of the handler, or that of a request the service sent to this address.\<close>

definition asked_for where
  "asked_for H M log a i \<longleftrightarrow> i \<in> he_request_id H ` {..<M} \<or>
     (\<exists>contact q. InRequest contact q \<in> set log \<and> req_id q = i \<and> nc_node_address (he_enr_ops H) contact = a)"

definition sys_inv where
  "sys_inv H M h log i \<longleftrightarrow> (\<forall>a x. x \<in> known h a \<longrightarrow> asked_for H M (take i log) a x) \<and>
     (\<forall>a r. OutResponse a r \<in> set (h_out h) \<longrightarrow> asked_for H M log a (resp_id r))"

lemma asked_for_mono: "asked_for H M log a i \<Longrightarrow> set log \<subseteq> set log' \<Longrightarrow> asked_for H M log' a i"
  by (auto simp: asked_for_def)

lemma sys_inv_prefix:
  assumes "sys_inv H M h log i" "prefix log log'" "i \<le> length log"
  shows "sys_inv H M h log' i"
proof -
  from assms(2) obtain xs where "log' = log @ xs" by (auto simp: prefix_def)
  with assms(3) have "take i log' = take i log" "set log \<subseteq> set log'" by auto
  with assms(1) show ?thesis unfolding sys_inv_def by (metis asked_for_mono)
qed

lemma step_outs_response: "OutResponse a r \<in> step_outs H s e \<Longrightarrow> resp_id r \<in> known s a"
  by (cases e) (auto simp: packet_outs_def message_outs_def auth_outs_def challenge_outs_def failures_def
      delivered_def split: packet_kind.splits if_splits)

lemma sys_inv_handler_step:
  assumes "env_ok H M (hc_session_timeout hc)" "handler_reachable H M hc h" "room M h" "event_ok e" "handler_step H e h = Some h'"
    "sys_inv H M h log i" "i \<le> i'" "\<And>a x. x \<in> step_known H M e a \<Longrightarrow> asked_for H M (take i' log) a x"
  shows "sys_inv H M h' log i'"
proof -
  from reachable_step [OF assms(1-4)] assms(5) obtain ms where
    p: "\<forall>a. known h' a \<subseteq> known h a \<union> step_known H M e a" "h_out h' = h_out h @ ms" "set ms \<subseteq> step_outs H h e"
    unfolding progress_def by (metis option.inject)
  have sub: "set (take i log) \<subseteq> set (take i' log)" "set (take i log) \<subseteq> set log"
    using assms(7) by (auto dest: in_set_takeD intro: set_take_subset_set_take [THEN subsetD])
  have "asked_for H M log a (resp_id r)" if "OutResponse a r \<in> set ms" for a r
    using step_outs_response [of a r H h e] p(3) that assms(6) asked_for_mono [OF _ sub(2)] unfolding sys_inv_def by blast
  moreover have "asked_for H M (take i' log) a x" if "x \<in> known h' a" for a x
    using that p(1) assms(6,8) asked_for_mono [OF _ sub(1)] unfolding sys_inv_def by blast
  ultimately show ?thesis using assms(6) p(2) by (auto simp: sys_inv_def)
qed

lemma message_asked: "m \<in> set log \<Longrightarrow> x \<in> step_known H M (FromService m) a \<Longrightarrow> asked_for H M log a x"
  by (cases m) (auto simp: asked_for_def only_def split: if_splits)

lemma service_log_prefix:
  assumes "service_env_ok E N" "ae_ops A = se_ops E" "node_reachable E A N config dv (Some s)" "service_step E e s = Some s'" "sv_draws s' \<le> N"
  shows "prefix (sv_to_handler s) (sv_to_handler s')"
  using reachable_step_ok [OF assms(1-3) admits_any, of e] assms(4,5)
  by (auto simp: sv_inv_def gh_kept_def records_ghost_def split: if_splits)

lemma known_new:
  assumes "env_ok H M (hc_session_timeout hc)"
  shows "known (handler_new H hc node_id enr key sockets pb) a = {}" "h_out (handler_new H hc node_id enr key sockets pb) = []"
  by (simp_all add: known_def calls_def pend_def handler_new_def ar_new_spec(2) [OF env_okD(1) [OF assms]])

lemma system_invariant:
  assumes "system_ok E A N H M hc" "system_reachable E A N config H M hc dv h s i j"
  shows "node_reachable E A N config dv (Some s) \<and> handler_reachable H M hc h \<and> i \<le> length (sv_to_handler s) \<and>
    sys_inv H M h (sv_to_handler s) i"
  using assms(2)
proof induction
  case (start dv s dv' node_id enr key sockets permit_ban)
  have "handler_reachable H M hc (handler_new H hc node_id enr key sockets permit_ban)"
    by (rule handler_reachable.init [OF start(3)])
  moreover have e: "env_ok H M (hc_session_timeout hc)" using assms(1) by (simp add: system_ok_def)
  ultimately show ?case using node_runs.started [OF start(1,2)] by (simp add: sys_inv_def known_new [OF e])
next
  case (service_event dv h s i j e s')
  then have p: "prefix (sv_to_handler s) (sv_to_handler s')"
    using assms(1) service_log_prefix [of E N A config dv s e s'] by (simp add: system_ok_def)
  with service_event show ?case
    using node_runs.served [of E A N config UNIV dv s e s'] sys_inv_prefix [OF _ p] prefix_length_le [OF p] by auto
next
  case (to_service dv h s i j s')
  then have p: "prefix (sv_to_handler s) (sv_to_handler s')"
    using assms(1) service_log_prefix [of E N A config dv s _ s'] by (simp add: system_ok_def)
  with to_service show ?case
    using node_runs.served [of E A N config UNIV dv s _ s'] sys_inv_prefix [OF _ p] prefix_length_le [OF p] by auto
next
  case (to_handler dv h s i j h')
  let ?m = "sv_to_handler s ! i"
  have e: "env_ok H M (hc_session_timeout hc)" using assms(1) by (simp add: system_ok_def)
  have "?m \<in> set (take (Suc i) (sv_to_handler s))" using to_handler(2) by (simp add: take_Suc_conv_app_nth)
  then have "asked_for H M (take (Suc i) (sv_to_handler s)) a x" if "x \<in> step_known H M (FromService ?m) a" for a x
    using that by (rule message_asked)
  with sys_inv_handler_step [OF e _ to_handler(3) _ to_handler(4), of "sv_to_handler s" i "Suc i"] to_handler
    handler_reachable.step [of H M hc h "FromService ?m" h']
  show ?case by simp
next
  case (handler_event dv h s i j e h')
  have H: "env_ok H M (hc_session_timeout hc)" using assms(1) by (simp add: system_ok_def)
  have "asked_for H M (take i (sv_to_handler s)) a x" if "x \<in> step_known H M e a" for a x
    using that handler_event(2) by (cases "(H, M, e)" rule: step_known.cases) (auto simp: asked_for_def)
  with sys_inv_handler_step [OF H _ handler_event(4,3,5), of "sv_to_handler s" i i] handler_event
    handler_reachable.step [of H M hc h e h']
  show ?case by simp
next
  case (call dv h s i j clock c dv')
  with node_runs.shared [of E A N config UNIV dv s clock c dv'] show ?case by (simp add: share_out_def)
qed

lemma response_is_expected:
  assumes "system_ok E A N H M hc" "system_reachable E A N config H M hc dv h s i j" "OutResponse a r \<in> set (h_out h)"
  shows "response_expected E a r s"
proof (cases "sv_active_requests s (resp_id r)")
  case (Some active)
  note ok = assms(1) [unfolded system_ok_def]
  note inv = system_invariant [OF assms(1,2)]
  have "service_env_ok E N" "ae_ops A = se_ops E" "node_reachable E A N config dv (Some s)" using ok inv by simp_all
  note sv = reachable_service(1,2) [OF this admits_any]
  then have s: "nodes_ok E s" "requests_ok E s" "sv_draws s \<le> N" by (simp_all add: sv_inv_def records_ghost_def)
  from s(1,3) Some have "resp_id r \<in> se_request_id E ` {..<N}" by (force simp: nodes_ok_def)
  with ok have "resp_id r \<notin> he_request_id H ` {..<M}" by blast
  with inv assms(3) obtain contact q where
    q: "InRequest contact q \<in> set (sv_to_handler s)" "req_id q = resp_id r" "nc_node_address (he_enr_ops H) contact = a"
    unfolding sys_inv_def asked_for_def by metis
  with s(2) Some have "ac_contact active = contact" unfolding requests_ok_def by metis
  with q(3) ok Some show ?thesis by (simp add: response_expected_def)
qed (simp add: response_expected_def)

section \<open>Properties\<close>

text \<open>
  C3. With a table filter that admits only contactable records the whole node never panics: not the service on an
  event of its own or on a message that the handler has for it, not the handler while its random values do not
  repeat, and not a call of the interface. The responses of the handler always come from the address that
  their request went to, as the service asserts.
\<close>

theorem system_never_panics:
  assumes "system_ok E A N H M hc" "system_reachable E A N config H M hc dv h s i j"
    "\<forall>enr. table_filter config enr \<longrightarrow> get_contactable_addr (ae_ops A) (new_from_listen_config (listen_config config)) enr \<noteq> None"
  shows "((\<forall>out. e = FromHandler out \<longrightarrow> out \<in> set (h_out h)) \<longrightarrow> service_step E e s \<noteq> None) \<and>
    (room M h \<longrightarrow> event_ok f \<longrightarrow> handler_step H f h \<noteq> None) \<and> api_run A clock c (share_in s dv) \<noteq> None \<and>
    (\<forall>a r. OutResponse a r \<in> set (h_out h) \<longrightarrow> response_expected E a r s)"
proof (intro conjI impI allI)
  have reach: "service_env_ok E N" "ae_ops A = se_ops E" "node_reachable E A N config dv (Some s)"
    using assms(1) system_invariant [OF assms(1,2)] by (simp_all add: system_ok_def)
  show "api_run A clock c (share_in s dv) \<noteq> None"
    by (rule okp_not_None [OF api_run_ok [OF reachable_service(3) [OF reach admits_any]]])
  show "response_expected E a r s" if "OutResponse a r \<in> set (h_out h)" for a r
    by (rule response_is_expected [OF assms(1,2) that])
  assume "\<forall>out. e = FromHandler out \<longrightarrow> out \<in> set (h_out h)"
  with contactable_expected [OF reach assms(3)] response_is_expected [OF assms(1,2)] have "event_expected E e s"
    by (cases e) (auto simp: event_expected_def split: handler_out.split)
  with reachable_panics [OF reach] show "service_step E e s \<noteq> None" by simp
next
  assume "room M h" "event_ok f"
  moreover have "env_ok H M (hc_session_timeout hc)" "handler_reachable H M hc h"
    using assms(1) system_invariant [OF assms(1,2)] by (simp_all add: system_ok_def)
  ultimately show "handler_step H f h \<noteq> None" using reachable_step by (metis option.discI)
qed

section \<open>Witnesses\<close>

definition net_ops :: "(byte list, u64 combined_public_key) enr_ops" where
  "net_ops = toy_enr_ops\<lparr>enr_udp4_socket := (\<lambda>e. if e = [] then None else Some ((127, 0, 0, 1), 9000))\<rparr>"

definition net_handler_env where
  "net_handler_env = toy_env\<lparr>he_enr_ops := net_ops\<rparr>"

definition net_service_env :: "(byte list, u64 combined_public_key, unit, node_id list) service_env" where
  "net_service_env = \<lparr>se_ops = net_ops, se_codec = ex_codec, se_set_udp_socket = (\<lambda>_ _. None), se_ping_set = list_delay_set,
     se_clock = (\<lambda>i. i), se_request_id = (\<lambda>i. RequestId (word_bytes 8 (of_nat i :: u64))), se_try_send = (\<lambda>_. SendOk),
     se_query_order = (\<lambda>_ qs. sorted_list_of_set (dom qs)), se_vote_orders = (\<lambda>_ _. ([], [], []))\<rparr>"

definition net_api_env :: "(byte list, u64 combined_public_key) api_env" where
  "net_api_env = \<lparr>ae_ops = net_ops, ae_key_public = PubSecp256k1 (bytes_word [7]), ae_ip4 = (\<lambda>_. None), ae_tcp4_socket = (\<lambda>_. None),
     ae_tcp6_socket = (\<lambda>_. None), ae_set_udp_socket = (\<lambda>_ _. None), ae_set_tcp_socket = (\<lambda>_ _. None),
     ae_insert = (\<lambda>_ _ enr. (Inl [], enr))\<rparr>"

definition net_config :: "byte list config" where
  "net_config =
     \<lparr>enable_packet_filter = False, request_timeout = SECOND, vote_duration = 30 * SECOND,
      query_peer_timeout = 2 * SECOND, query_timeout = 60 * SECOND, request_retries = 1,
      session_timeout = 86400 * SECOND, session_cache_capacity = 1000, enr_update = False,
      max_nodes_response = 16, enr_peer_update_min = 10, query_parallelism = 3, ip_limit = False,
      incoming_bucket_limit = MAX_NODES_PER_BUCKET, table_filter = (\<lambda>e. e \<noteq> []), ping_interval = 300 * SECOND,
      report_discovered_peers = True, filter_rate_limiter = None, filter_max_nodes_per_ip = Some 10,
      filter_max_bans_per_ip = Some 5, cfg_permit_ban_list = empty_permit_ban_list,
      ban_duration = Some (3600 * SECOND), has_executor = True, listen_config = listen_default\<rparr>"

definition net_dv :: "byte list discv5" where
  "net_dv = projr (discv5_new net_api_env [7] net_config)"

definition net_service :: "(byte list, u64 combined_public_key, node_id list) service" where
  "net_service = the (service_spawn net_service_env (dv_local_enr net_dv) (dv_kbuckets net_dv) (dv_permit_ban net_dv) net_config)"

definition net_handler ::
  "(byte list, u64, u64, (message_nonce \<times> node_address) list, (node_address \<times> byte list challenge) list,
    (node_address \<times> session \<times> instant) list, (node_address \<times> (request_id \<times> session) \<times> instant) list) handler" where
  "net_handler = handler_new net_handler_env toy_config 7 [7] (KeySecp256k1 7) [] empty_permit_ban_list"

lemma net_system_ok: "system_ok net_service_env net_api_env 1000 net_handler_env 1000 toy_config"
proof -
  have "env_ok net_handler_env 1000 (hc_session_timeout toy_config)"
    using toy_reachable(1) by (simp add: env_ok_def net_handler_env_def tails_def)
  moreover have "word_bytes 8 (of_nat i :: u64) \<noteq> [of_nat j]" for i j
    by (rule notI, drule arg_cong [of _ _ length]) simp
  ultimately show ?thesis
    using inj_word_ids by (auto simp: system_ok_def service_env_ok_def net_service_env_def net_api_env_def net_handler_env_def toy_env_def)
qed

lemma net_reachable:
  "system_reachable net_service_env net_api_env 1000 net_config net_handler_env 1000 toy_config
     (net_dv\<lparr>dv_service_exit := True, dv_service_channel := True\<rparr>) net_handler net_service 0 0"
proof -
  have new: "discv5_new net_api_env [7] net_config = Inr net_dv"
    by (simp add: net_dv_def discv5_new_def net_api_env_def net_ops_def toy_enr_ops_def net_config_def Let_def)
  have "dv_config net_dv = net_config" "dv_service_channel net_dv = False"
    by (simp_all add: net_dv_def discv5_new_def net_api_env_def net_ops_def toy_enr_ops_def net_config_def Let_def)
  then have "discv5_start net_service_env None net_dv =
      Some (Inr net_service :: unit disc_error + _, net_dv\<lparr>dv_service_exit := True, dv_service_channel := True\<rparr>)"
    by (simp add: discv5_start_def net_service_def service_spawn_def net_config_def)
  then show ?thesis unfolding net_handler_def
    by (rule system_reachable.start [OF node_runs.created [OF new]]) (simp add: toy_config_def)
qed

theorem system_never_panics_witness:
  "service_step net_service_env QueryPoll net_service \<noteq> None \<and> handler_step net_handler_env RequestsTimer net_handler \<noteq> None \<and>
   api_run net_api_env (\<lambda>_. 0) (AddEnr [5]) (share_in net_service (net_dv\<lparr>dv_service_exit := True, dv_service_channel := True\<rparr>)) \<noteq> None"
proof -
  have f: "\<forall>enr. table_filter net_config enr \<longrightarrow>
      get_contactable_addr (ae_ops net_api_env) (new_from_listen_config (listen_config net_config)) enr \<noteq> None"
    by (simp add: net_config_def net_api_env_def net_ops_def listen_default_def)
  have e: "env_ok net_handler_env 1000 (hc_session_timeout toy_config)" using net_system_ok by (simp add: system_ok_def)
  have "calls net_handler a = []" "pend net_handler a = []" "h_draws net_handler = 0" for a
    by (simp_all add: calls_def pend_def net_handler_def handler_new_def ar_new_spec(2) [OF env_okD(1) [OF e]])
  then have "room 1000 net_handler" by (simp add: room_def load_def)
  with system_never_panics [OF net_system_ok net_reachable f, of QueryPoll RequestsTimer "\<lambda>_. 0" "AddEnr [5]"] show ?thesis by simp
qed

end
