(* ===== verification/Disc_Socket.thy ===== *)
theory Disc_Socket
  imports Disc_Config
begin

text \<open>
  \<open>src/socket/mod.rs\<close>, \<open>src/socket/send.rs\<close>, the loop of \<open>src/socket/recv.rs\<close> and the byte counters of
  \<open>src/metrics.rs\<close>. Binding a socket and sending on it are operations of the operating system and arguments of
  the definitions. A task is a function of the event that its \<open>select!\<close> takes next.
\<close>

section \<open>Counters\<close>

text \<open>\<open>usize\<close> has 64 bits; \<open>moving_window\<close> is the constant \<open>MOVING_WINDOW\<close>.\<close>

definition saturating_add :: "nat \<Rightarrow> nat \<Rightarrow> nat" where
  "saturating_add a b = min (a + b) (2 ^ 64 - 1)"

record metrics =
  m_active_sessions :: nat
  m_unsolicited_requests_per_window :: nat
  m_bytes_sent :: nat
  m_bytes_recv :: nat

definition metrics_default :: metrics where
  "metrics_default = \<lparr>m_active_sessions = 0, m_unsolicited_requests_per_window = 0, m_bytes_sent = 0, m_bytes_recv = 0\<rparr>"

definition add_recv_bytes :: "nat \<Rightarrow> metrics \<Rightarrow> metrics" where
  "add_recv_bytes bytes m = m\<lparr>m_bytes_recv := saturating_add (m_bytes_recv m) bytes\<rparr>"

definition add_sent_bytes :: "nat \<Rightarrow> metrics \<Rightarrow> metrics" where
  "add_sent_bytes bytes m = m\<lparr>m_bytes_sent := saturating_add (m_bytes_sent m) bytes\<rparr>"

section \<open>Sockets\<close>

record 's sockets =
  first_recv :: 's
  second_recv :: "'s option"
  send_ipv4 :: "'s option"
  send_ipv6 :: "'s option"

fun socket_new :: "(socket_addr \<Rightarrow> string + 's) \<Rightarrow> listen_config \<Rightarrow> string + 's sockets" where
  "socket_new bind_to (ListenIpv4 ip port) =
     (case bind_to (SocketV4 ip port) of
        Inl e \<Rightarrow> Inl e
      | Inr s \<Rightarrow> Inr \<lparr>first_recv = s, second_recv = None, send_ipv4 = Some s, send_ipv6 = None\<rparr>)"
| "socket_new bind_to (ListenIpv6 ip port) =
     (case bind_to (SocketV6 ip port 0 0) of
        Inl e \<Rightarrow> Inl e
      | Inr s \<Rightarrow> Inr \<lparr>first_recv = s, second_recv = None, send_ipv4 = None, send_ipv6 = Some s\<rparr>)"
| "socket_new bind_to (ListenDualStack ipv4 ipv4_port ipv6 ipv6_port) =
     (case bind_to (SocketV4 ipv4 ipv4_port) of
        Inl e \<Rightarrow> Inl e
      | Inr s4 \<Rightarrow>
          (case bind_to (SocketV6 ipv6 ipv6_port 0 0) of
             Inl e \<Rightarrow> Inl e
           | Inr s6 \<Rightarrow> Inr \<lparr>first_recv = s4, second_recv = Some s6, send_ipv4 = Some s4, send_ipv6 = Some s6\<rparr>))"

section \<open>Sending\<close>

record 'enr outbound_packet =
  ob_node_address :: node_address
  ob_packet :: "'enr packet"

datatype send_error = Io string | SocketMismatch

definition socket_send ::
  "('s \<Rightarrow> byte list \<Rightarrow> socket_addr \<Rightarrow> string + nat) \<Rightarrow> 's sockets \<Rightarrow> byte list \<Rightarrow> socket_addr \<Rightarrow> send_error + nat" where
  "socket_send send_to so encoded_packet addr =
     (case (case addr of SocketV4 _ _ \<Rightarrow> send_ipv4 so | SocketV6 _ _ _ _ \<Rightarrow> send_ipv6 so) of
        None \<Rightarrow> Inl SocketMismatch
      | Some s \<Rightarrow> (case send_to s encoded_packet addr of Inl e \<Rightarrow> Inl (Io e) | Inr n \<Rightarrow> Inr n))"

text \<open>One round of the send task; the result tells whether it warns of the size and what the socket returned.\<close>

definition send_step ::
  "('s \<Rightarrow> byte list \<Rightarrow> socket_addr \<Rightarrow> string + nat) \<Rightarrow> keystream \<Rightarrow> ('enr, 'e) enr_codec \<Rightarrow> protocol_identity
     \<Rightarrow> 's sockets \<Rightarrow> 'enr outbound_packet \<Rightarrow> metrics \<Rightarrow> (bool \<times> (send_error + nat)) \<times> metrics" where
  "send_step send_to ctr E P so p m =
     (let encoded_packet = packet_encode ctr E P (na_node_id (ob_node_address p)) (ob_packet p);
          too_large = (MAX_PACKET_SIZE < length encoded_packet);
          r = socket_send send_to so encoded_packet (na_socket_addr (ob_node_address p))
      in ((too_large, r), case r of Inl _ \<Rightarrow> m | Inr _ \<Rightarrow> add_sent_bytes (length encoded_packet) m))"

section \<open>Receiving\<close>

datatype recv_event =
    RecvFirst socket_addr "byte list"
  | RecvSecond socket_addr "byte list"
  | RecvTick
  | RecvExit

record ('a, 'b, 'enr) recv_handler =
  rh_second_recv :: bool
  rh_filter :: "('a, 'b) packet_filter"
  rh_filter_enabled :: bool
  rh_node_id :: node_id
  rh_handler :: "'enr inbound_packet list"
  rh_running :: bool

definition recv_spawn ::
  "nat \<Rightarrow> 'a known_cache \<Rightarrow> 'b banned_cache \<Rightarrow> filter_config \<Rightarrow> duration option \<Rightarrow> 's sockets \<Rightarrow> node_id
     \<Rightarrow> ('a, 'b, 'enr) recv_handler option" where
  "recv_spawn elem_size K B config ban_time so local_node_id =
     do {
       packet_filter \<leftarrow> pf_new elem_size K B config ban_time;
       Some \<lparr>rh_second_recv = (second_recv so \<noteq> None), rh_filter = packet_filter,
         rh_filter_enabled = fc_enabled config, rh_node_id = local_node_id, rh_handler = [], rh_running = True\<rparr>
     }"

text \<open>A datagram is cut to the size of the buffer it is read into.\<close>

definition recv_datagram ::
  "keystream \<Rightarrow> ('enr, 'e) enr_codec \<Rightarrow> protocol_identity \<Rightarrow> 'a known_cache \<Rightarrow> 'b banned_cache
     \<Rightarrow> (socket_addr \<rightharpoonup> nat) \<Rightarrow> (nat \<Rightarrow> instant) \<Rightarrow> socket_addr \<Rightarrow> byte list
     \<Rightarrow> ('a, 'b, 'enr) recv_handler \<Rightarrow> permit_ban_list \<Rightarrow> metrics
     \<Rightarrow> (('a, 'b, 'enr) recv_handler \<times> permit_ban_list \<times> metrics) option" where
  "recv_datagram ctr E P K B expected clock src datagram h pb m =
     (let data = take MAX_PACKET_SIZE datagram;
          m = add_recv_bytes (length data) m
      in do {
        (delivered, f, pb) \<leftarrow> handle_inbound ctr E P K B (rh_node_id h) expected clock src data (rh_filter h) pb;
        Some (h\<lparr>rh_filter := f, rh_handler := rh_handler h @ (case delivered of None \<Rightarrow> [] | Some ib \<Rightarrow> [ib])\<rparr>, pb, m)
      })"

definition recv_step ::
  "keystream \<Rightarrow> ('enr, 'e) enr_codec \<Rightarrow> protocol_identity \<Rightarrow> 'a known_cache \<Rightarrow> 'b banned_cache
     \<Rightarrow> (socket_addr \<rightharpoonup> nat) \<Rightarrow> (nat \<Rightarrow> instant) \<Rightarrow> recv_event
     \<Rightarrow> ('a, 'b, 'enr) recv_handler \<Rightarrow> permit_ban_list \<Rightarrow> metrics
     \<Rightarrow> (('a, 'b, 'enr) recv_handler \<times> permit_ban_list \<times> metrics) option" where
  "recv_step ctr E P K B expected clock event h pb m =
     (if \<not> rh_running h then Some (h, pb, m)
      else case event of
        RecvFirst src datagram \<Rightarrow> recv_datagram ctr E P K B expected clock src datagram h pb m
      | RecvSecond src datagram \<Rightarrow>
          if rh_second_recv h then recv_datagram ctr E P K B expected clock src datagram h pb m else Some (h, pb, m)
      | RecvTick \<Rightarrow> Some (if rh_filter_enabled h then h\<lparr>rh_filter := prune_limiter (clock 0) (rh_filter h)\<rparr> else h, pb, m)
      | RecvExit \<Rightarrow> Some (h\<lparr>rh_running := False\<rparr>, pb, m))"

section \<open>Every contact has a socket\<close>

fun listen_addrs :: "listen_config \<Rightarrow> socket_addr list" where
  "listen_addrs (ListenIpv4 ip port) = [SocketV4 ip port]"
| "listen_addrs (ListenIpv6 ip port) = [SocketV6 ip port 0 0]"
| "listen_addrs (ListenDualStack ipv4 ipv4_port ipv6 ipv6_port) = [SocketV4 ipv4 ipv4_port, SocketV6 ipv6 ipv6_port 0 0]"

fun is_v4 :: "socket_addr \<Rightarrow> bool" where
  "is_v4 (SocketV4 _ _) = True"
| "is_v4 (SocketV6 _ _ _ _) = False"

lemma contactable_family:
  assumes "get_contactable_addr N mode enr = Some a"
  shows "mode = Ip4 \<Longrightarrow> is_v4 a" "mode = Ip6 \<Longrightarrow> \<not> is_v4 a"
  using assms by (cases mode; auto simp: v4_socket_def v6_socket_def split: option.splits prod.splits)+

lemma sockets_family:
  assumes "socket_new bind_to l = Inr so" "is_v4 a \<Longrightarrow> new_from_listen_config l \<noteq> Ip6" "\<not> is_v4 a \<Longrightarrow> new_from_listen_config l \<noteq> Ip4"
  shows "\<exists>b\<in>set (listen_addrs l). \<exists>s. is_v4 b = is_v4 a \<and> bind_to b = Inr s \<and>
    (case a of SocketV4 _ _ \<Rightarrow> send_ipv4 so | SocketV6 _ _ _ _ \<Rightarrow> send_ipv6 so) = Some s"
  using assms by (cases l; cases a) (auto split: sum.splits)

text \<open>
  C33. The socket of a contact: whatever the node listens on, a contact made from a record in the mode of the
  listening configuration is sent to on the socket that is bound to the listening address of its family, so
  sending to it never fails for want of a socket.
\<close>

theorem contact_has_socket:
  assumes "socket_new bind_to l = Inr so" "try_from_enr N enr (new_from_listen_config l) = Inr contact"
  shows "\<exists>b\<in>set (listen_addrs l). \<exists>s. is_v4 b = is_v4 (nc_socket_addr contact) \<and> bind_to b = Inr s \<and>
    socket_send send_to so data (nc_socket_addr contact) =
      (case send_to s data (nc_socket_addr contact) of Inl e \<Rightarrow> Inl (Io e) | Inr n \<Rightarrow> Inr n)"
proof -
  from assms(2) have a: "get_contactable_addr N (new_from_listen_config l) enr = Some (nc_socket_addr contact)"
    by (auto simp: try_from_enr_def split: option.splits)
  from sockets_family [OF assms(1), of "nc_socket_addr contact"] contactable_family [OF a] obtain b s where
    b: "b \<in> set (listen_addrs l)" "is_v4 b = is_v4 (nc_socket_addr contact)" "bind_to b = Inr s"
    "(case nc_socket_addr contact of SocketV4 _ _ \<Rightarrow> send_ipv4 so | SocketV6 _ _ _ _ \<Rightarrow> send_ipv6 so) = Some s" by blast
  then show ?thesis by (intro bexI [OF _ b(1)] exI [of _ s]) (simp add: socket_send_def)
qed

section \<open>The receive task\<close>

lemma lim_ready_prune: "lim_ready init now T l \<Longrightarrow> lim_ready init now T (lim_prune n l)"
  by (auto simp: lim_ready_def lim_inv_def lim_prune_def Let_def split: option.splits if_splits)

lemma filter_ready_prune: "filter_ready now T f \<Longrightarrow> filter_ready now T (prune_limiter n f)"
  by (auto simp: filter_ready_def prune_limiter_def rl_ready_def rl_prune_def Let_def lim_ready_prune)

text \<open>
  C31. The receive task never panics, whichever event it takes next and whatever the datagram and its sender, as
  long as the clock does not go back, has been running for the five seconds of the moving window, and is at
  least \<open>2 tau\<close> away from the end of the limiters' range: neither the reading of the clock nor the arithmetic of
  the rate limiter nor the decoder fails, and the filter is then in a state in which this holds again. It
  delivers at most one packet, and nothing once it has been told to exit.
\<close>

theorem recv_task_safe:
  assumes "clock_ok now T clock" "filter_ready now T (rh_filter h)"
  shows "\<exists>h' pb' m'. recv_step ctr E P K B expected clock event h pb m = Some (h', pb', m') \<and> filter_ready T T (rh_filter h') \<and>
    (\<exists>ibs. rh_handler h' = rh_handler h @ ibs \<and> length ibs \<le> (if rh_running h then 1 else 0)) \<and> (rh_running h' \<longrightarrow> rh_running h)"
proof -
  have ready: "filter_ready T T (rh_filter h)" using filter_ready_mono [OF assms(2) clock_okD(5) [OF assms(1)]] .
  have "\<exists>h' pb' m'. recv_datagram ctr E P K B expected clock src datagram h pb m = Some (h', pb', m') \<and> filter_ready T T (rh_filter h') \<and>
    (\<exists>ibs. rh_handler h' = rh_handler h @ ibs \<and> length ibs \<le> 1) \<and> rh_running h' = rh_running h" for src datagram
  proof -
    obtain d f' pb' where "handle_inbound ctr E P K B (rh_node_id h) expected clock src (take MAX_PACKET_SIZE datagram) (rh_filter h) pb =
        Some (d, f', pb')" "filter_ready T T f'" using inbound_no_panic [OF assms] by blast
    then show ?thesis by (simp add: recv_datagram_def Let_def split: option.split)
  qed
  note datagram = this
  show ?thesis
  proof (cases "rh_running h")
    case True
    show ?thesis
    proof (cases event)
      case (RecvFirst src d)
      with datagram [of src d] True show ?thesis unfolding recv_step_def by fastforce
    next
      case (RecvSecond src d)
      with datagram [of src d] True ready show ?thesis unfolding recv_step_def by (cases "rh_second_recv h") fastforce+
    qed (auto simp: recv_step_def ready filter_ready_prune True)
  qed (simp add: recv_step_def ready)
qed

section \<open>Witnesses\<close>

theorem recv_task_safe_witness:
  "\<exists>h' pb' m'. recv_step ex_ctr ex_codec DefaultProtocolId map_cache map_cache Map.empty (\<lambda>_. 6 * SECOND) (RecvFirst ex_source [1, 2, 3])
     \<lparr>rh_second_recv = False, rh_filter = ex_filter, rh_filter_enabled = True, rh_node_id = 42, rh_handler = [], rh_running = True\<rparr>
     ex_bans metrics_default = Some (h', pb', m') \<and> length (rh_handler h') \<le> 1"
  using recv_task_safe [OF ex_clock_ok, of "\<lparr>rh_second_recv = False, rh_filter = ex_filter, rh_filter_enabled = True, rh_node_id = 42,
    rh_handler = [], rh_running = True\<rparr>" ex_ctr ex_codec DefaultProtocolId map_cache map_cache Map.empty "RecvFirst ex_source [1, 2, 3]" ex_bans metrics_default]
    ex_filter_ready by fastforce

definition v4_ops :: "(u16, unit) enr_ops" where
  "v4_ops = \<lparr>enr_node_id = (\<lambda>p. ucast p), enr_seq = (\<lambda>_. 1), enr_udp4_socket = (\<lambda>p. Some ((127, 0, 0, 1), p)),
     enr_udp6_socket = (\<lambda>_. None), enr_public_key = (\<lambda>_. ()), pk_node_id = (\<lambda>_. 0)\<rparr>"

theorem contact_has_socket_witness:
  "\<exists>contact. try_from_enr v4_ops 9001 (new_from_listen_config (ListenDualStack (0, 0, 0, 0) 9000 0 9090)) = Inr contact \<and>
     socket_send (\<lambda>s data addr. Inr (length data)) \<lparr>first_recv = 0, second_recv = Some 1, send_ipv4 = Some 0, send_ipv6 = Some (1 :: nat)\<rparr>
       [1, 2] (nc_socket_addr contact) = Inr 2"
proof -
  let ?l = "ListenDualStack (0, 0, 0, 0) 9000 0 9090"
  have so: "socket_new (\<lambda>a. Inr (if is_v4 a then 0 else 1)) ?l =
      Inr \<lparr>first_recv = 0, second_recv = Some 1, send_ipv4 = Some 0, send_ipv6 = Some (1 :: nat)\<rparr>" by simp
  obtain contact where c: "try_from_enr v4_ops 9001 (new_from_listen_config ?l) = Inr contact"
    by (simp add: try_from_enr_def v4_ops_def canonical_ipv6_enr_addr_def)
  from contact_has_socket [OF so c, of "\<lambda>s data addr. Inr (length data)" "[1, 2]"] c show ?thesis by auto
qed

end
