(* ===== verification/Disc_Start.thy ===== *)
theory Disc_Start
  imports Disc_System Disc_Socket
begin

text \<open>
  Starting a node: \<open>Handler::spawn\<close> of \<open>src/handler/mod.rs\<close>, which binds the sockets and creates the tasks, and
  the way \<open>Service::spawn\<close> of \<open>src/service.rs\<close> and \<open>Discv5::start\<close> use it. A start gives a run of the whole node.
\<close>

section \<open>Starting the tasks\<close>

definition filter_config_of :: "'enr config \<Rightarrow> filter_config" where
  "filter_config_of config =
     \<lparr>fc_enabled = enable_packet_filter config, fc_rate_limiter = filter_rate_limiter config,
      fc_max_nodes_per_ip = filter_max_nodes_per_ip config, fc_max_bans_per_ip = filter_max_bans_per_ip config\<rparr>"

definition handler_config_of :: "'enr config \<Rightarrow> handler_config" where
  "handler_config_of config =
     \<lparr>hc_request_retries = request_retries config, hc_request_timeout = request_timeout config,
      hc_session_timeout = session_timeout config, hc_session_cache_capacity = session_cache_capacity config\<rparr>"

text \<open>
  The result is the handler, the receive task and the sockets, or the error of the socket that could not be bound.
  \<open>elem_size\<close> is the size of an entry in the packet cache of the filter.
\<close>

definition handler_spawn where
  "handler_spawn elem_size H K B bind_to (enr :: 'enr) key config permit_ban =
     (let node_id = enr_node_id (he_enr_ops H) enr;
          listen_sockets = listen_addrs (listen_config config)
      in if \<not> has_executor config then None
         else (case socket_new bind_to (listen_config config) of
                 Inl e \<Rightarrow> Some (Inl e)
               | Inr so \<Rightarrow> do {
                   receiver \<leftarrow> (recv_spawn elem_size K B (filter_config_of config) (ban_duration config) so node_id
                     :: (_, _, 'enr) recv_handler option);
                   Some (Inr (handler_new H (handler_config_of config) node_id enr key listen_sockets permit_ban, receiver, so))
                 }))"

definition node_start where
  "node_start elem_size E H K B bind_to key dv =
     (if dv_service_channel dv then Some (Inl (EServiceAlreadyStarted :: unit disc_error), dv)
      else do {
        spawned \<leftarrow> handler_spawn elem_size H K B bind_to (dv_local_enr dv) key (dv_config dv) (dv_permit_ban dv);
        (started, dv) \<leftarrow> discv5_start E (case spawned of Inl e \<Rightarrow> Some e | Inr _ \<Rightarrow> None) dv;
        Some (map_sum id (\<lambda>s. (s, projr spawned)) started, dv)
      })"

section \<open>What a start gives\<close>

lemma socket_new_find:
  "case find (\<lambda>a. isl (bind_to a)) (listen_addrs l) of
     Some a \<Rightarrow> socket_new bind_to l = Inl (projl (bind_to a))
   | None \<Rightarrow> \<exists>so. socket_new bind_to l = Inr so"
  by (cases l) (auto split: sum.splits)

text \<open>The interface holds the channel to the service exactly while the service runs.\<close>

lemma api_run_channel:
  "api_run A clock c dv = Some dv' \<Longrightarrow> dv_service_channel dv' = dv_service_channel dv \<and> dv_service_exit dv' = dv_service_exit dv"
proof (cases c)
  case (UpdateLocalEnrSocket a tcp)
  then show "api_run A clock c dv = Some dv' \<Longrightarrow> ?thesis"
    by (cases a; cases tcp) (auto simp: set_local_socket_def split: option.splits if_splits)
qed (auto simp: add_enr_def remove_node_def nodes_by_distance_def Let_def disconnect_node_def table_entries_def
      dv_table_entries_def dv_find_enr_def ban_node_def on_list_def enr_insert_def
      split: Option.bind_splits if_splits entry.splits option.splits prod.splits)

lemma node_channel:
  "node_reachable E A N config dv service \<Longrightarrow>
     dv_service_channel dv = (service \<noteq> None) \<and> dv_service_exit dv = (service \<noteq> None)"
proof (induction rule: node_runs.induct)
  case (called dv clock c dv')
  then show ?case using api_run_channel [OF called(2)] by simp
next
  case (shared dv s clock c dv')
  then show ?case using api_run_channel [OF shared(2)] by (simp add: share_in_def)
qed (auto simp: discv5_new_def discv5_start_def shutdown_def share_in_def Let_def split: if_splits Option.bind_splits)

lemma service_spawn_None:
  "service_spawn E enr t l config = None \<longleftrightarrow> \<not> has_executor config \<or> enr_update config \<and> enr_peer_update_min config < 2"
  by (auto simp: service_spawn_def iv_new_def split: if_splits)

text \<open>The packet cache of the filter holds the expected packets of the moving window, and must be allocatable.\<close>

definition filter_fits :: "nat \<Rightarrow> rate_limiter option \<Rightarrow> bool" where
  "filter_fits elem_size limiter \<longleftrightarrow>
     expected_packets_per_second limiter * MOVING_WINDOW < U64_SIZE \<and>
     expected_packets_per_second limiter * MOVING_WINDOW * elem_size < 2 ^ 63"

lemma recv_spawn_spec:
  "if filter_fits elem_size (filter_rate_limiter config)
   then \<exists>rh. recv_spawn elem_size K B (filter_config_of config) d so i = Some rh \<and> rh_second_recv rh = (second_recv so \<noteq> None) \<and>
     ((\<forall>rl. filter_rate_limiter config = Some rl \<longrightarrow> rl_ready now T rl) \<longrightarrow> filter_ready now T (rh_filter rh))
   else recv_spawn elem_size K B (filter_config_of config) d so i = None"
  by (auto simp: recv_spawn_def pf_new_def pc_new_def u64_of_def with_capacity_def filter_fits_def filter_config_of_def filter_ready_def
      split: Option.bind_splits)

text \<open>
  C8. Starting a node that does not run, with any configuration. It panics if the local record is to be updated
  by fewer than two votes, which the builder of the configuration excludes. Otherwise the listening addresses
  are bound in order. The first one that cannot be bound gives the error, and the node is as before. If there
  is none, the packet cache of the filter is created: this panics if the rate limiter expects so many packets
  that the cache cannot be allocated, which the builder does not exclude. In all other cases service and handler
  are at the start of a run of the whole node, the handler knows all listening addresses, and the receive task
  reads one socket for each and has a filter that is ready if its rate limiter is.
\<close>

theorem node_start_correct:
  fixes dv :: "'enr discv5"
  assumes "service_env_ok E N" "ae_ops A = se_ops E" "node_reachable E A N config dv None" "request_retries config \<le> 255"
  shows "if enr_update config \<and> enr_peer_update_min config < 2 then node_start elem_size E H K B bind_to key dv = None
    else case find (\<lambda>a. isl (bind_to a)) (listen_addrs (listen_config config)) of
      Some a \<Rightarrow> node_start elem_size E H K B bind_to key dv = Some (Inl (EIo (projl (bind_to a))), dv)
    | None \<Rightarrow> if \<not> filter_fits elem_size (filter_rate_limiter config) then node_start elem_size E H K B bind_to key dv = None
        else \<exists>s h rh so dv'. node_start elem_size E H K B bind_to key dv = Some (Inr (s, h, rh, so), dv') \<and>
          system_reachable E A N config H M (handler_config_of config) dv' h s 0 0 \<and>
          h_listen_sockets h = listen_addrs (listen_config config) \<and>
          length (listen_addrs (listen_config config)) = (if rh_second_recv rh then 2 else 1) \<and>
          ((\<forall>rl. filter_rate_limiter config = Some rl \<longrightarrow> rl_ready now T rl) \<longrightarrow> filter_ready now T (rh_filter rh))"
proof -
  have cfg: "dv_config dv = config\<lparr>has_executor := True\<rparr>"
    using node_reachable_inv [OF assms(1,2) admits_any assms(3)] by (simp add: node_inv_def)
  have idle: "\<not> dv_service_channel dv" using node_channel [OF assms(3)] by simp
  have hc: "handler_config_of (config\<lparr>has_executor := True\<rparr>) = handler_config_of config" "filter_config_of (config\<lparr>has_executor := True\<rparr>) = filter_config_of config"
    by (simp_all add: handler_config_of_def filter_config_of_def)
  show ?thesis
  proof (cases "enr_update config \<and> enr_peer_update_min config < 2")
    case True
    then have "service_spawn E (dv_local_enr dv) (dv_kbuckets dv) (dv_permit_ban dv) (dv_config dv) = None"
      by (simp add: service_spawn_None cfg)
    with True idle show ?thesis
      by (cases "handler_spawn elem_size H K B bind_to (dv_local_enr dv) key (dv_config dv) (dv_permit_ban dv)")
        (simp_all add: node_start_def discv5_start_def)
  next
    case False
    then obtain s where s: "service_spawn E (dv_local_enr dv) (dv_kbuckets dv) (dv_permit_ban dv) (dv_config dv) = Some s"
      using service_spawn_None [of E "dv_local_enr dv" "dv_kbuckets dv" "dv_permit_ban dv" "dv_config dv"] cfg by auto
    show ?thesis
    proof (cases "find (\<lambda>a. isl (bind_to a)) (listen_addrs (listen_config config))")
      case None
      with socket_new_find [of bind_to "listen_config config"] obtain so where so: "socket_new bind_to (listen_config config) = Inr so" by auto
      have two: "length (listen_addrs (listen_config config)) = (if second_recv so \<noteq> None then 2 else 1)"
        using so by (cases "listen_config config") (auto split: sum.splits)
      let ?dv = "dv\<lparr>dv_service_exit := True, dv_service_channel := True\<rparr>"
      have start: "discv5_start E None dv = Some (Inr s :: unit disc_error + _, ?dv)" using s idle by (simp add: discv5_start_def)
      have "hc_request_retries (handler_config_of config) \<le> 255" using assms(4) by (simp add: handler_config_of_def)
      note run = system_reachable.start [OF assms(3) start this]
      let ?id = "enr_node_id (he_enr_ops H) (dv_local_enr dv)"
      let ?h = "handler_new H (handler_config_of config) ?id (dv_local_enr dv) key (listen_addrs (listen_config config)) (dv_permit_ban dv)"
      show ?thesis
      proof (cases "filter_fits elem_size (filter_rate_limiter config)")
        case True
        then obtain rh :: "(_, _, 'enr) recv_handler" where rh: "rh_second_recv rh = (second_recv so \<noteq> None)"
          "recv_spawn elem_size K B (filter_config_of config) (ban_duration config) so ?id = Some rh"
          "(\<forall>rl. filter_rate_limiter config = Some rl \<longrightarrow> rl_ready now T rl) \<longrightarrow> filter_ready now T (rh_filter rh)"
          using recv_spawn_spec [of elem_size config K B "ban_duration config" so ?id now T] by (simp only: if_True) blast
        have eq: "node_start elem_size E H K B bind_to key dv = Some (Inr (s, ?h, rh, so), ?dv)"
          using rh(2) so start idle by (simp add: node_start_def handler_spawn_def cfg hc Let_def)
        have len: "length (listen_addrs (listen_config config)) = (if rh_second_recv rh then 2 else 1)" using two rh(1) by simp
        have addrs: "h_listen_sockets ?h = listen_addrs (listen_config config)" by (simp add: handler_new_def)
        show ?thesis using False None True
          by (simp only: if_False option.case not_True_eq_False) (intro exI conjI, (rule eq run addrs len rh(3))+)
      next
        case fits: False
        then have "recv_spawn elem_size K B (filter_config_of config) (ban_duration config) so ?id =
            (None :: (_, _, 'enr) recv_handler option)"
          using recv_spawn_spec [of elem_size config K B "ban_duration config" so ?id] by (simp only: if_False)
        with fits show ?thesis using False None so idle by (auto simp: node_start_def handler_spawn_def cfg hc Let_def)
      qed
    next
      case (Some a)
      with socket_new_find [of bind_to "listen_config config"] s idle False show ?thesis
        by (auto simp: node_start_def handler_spawn_def discv5_start_def cfg)
    qed
  qed
qed

lemma net_created: "node_reachable net_service_env net_api_env 1000 net_config net_dv None"
proof -
  have "discv5_new net_api_env [7] net_config = Inr net_dv"
    by (simp add: net_dv_def discv5_new_def net_api_env_def net_ops_def toy_enr_ops_def net_config_def Let_def)
  then show ?thesis by (rule node_runs.created)
qed

definition net_start where
  "net_start bind_to = (node_start 48 net_service_env net_handler_env (map_cache :: (ip_addr \<rightharpoonup> node_id set) known_cache)
     (map_cache :: (ip_addr \<rightharpoonup> nat) banned_cache) (bind_to :: socket_addr \<Rightarrow> string + nat) (KeySecp256k1 (7 :: u64)) net_dv
     :: ((_ + _ \<times> (byte list, u64, u64, _, _, _, _) handler \<times> _) \<times> _) option)"

theorem node_start_correct_witness:
  "net_start (\<lambda>_. Inl ''in use'') =
     Some (Inl (EIo ''in use''), net_dv) \<and>
   (\<exists>s h rh so dv'. net_start (\<lambda>_. Inr 0) = Some (Inr (s, h, rh, so), dv') \<and>
     h_listen_sockets h = listen_addrs listen_default)"
proof -
  have env: "service_env_ok net_service_env 1000" "ae_ops net_api_env = se_ops net_service_env"
    using net_system_ok by (simp_all add: system_ok_def)
  have c: "request_retries net_config \<le> 255" "\<not> enr_update net_config" "listen_config net_config = listen_default"
    "filter_fits 48 (filter_rate_limiter net_config)"
    by (simp_all add: net_config_def filter_fits_def expected_packets_per_second_def DEFAULT_PACKETS_PER_SECOND_def
        MOVING_WINDOW_def U64_SIZE_def)
  have l: "find (\<lambda>_. False) as = None" for as :: "socket_addr list" by (simp add: find_None_iff)
  obtain a as where a: "listen_addrs listen_default = a # as" by (auto simp: listen_default_def)
  note start = node_start_correct [OF env net_created c(1), of 48 net_handler_env map_cache map_cache _ "KeySecp256k1 (7 :: u64)" 1000 0 0]
  show ?thesis using start [of "\<lambda>_. Inl ''in use'' :: string + nat"] start [of "\<lambda>_. Inr (0 :: nat)"] c l a
    unfolding net_start_def by simp blast
qed

end
