(* ===== verification/Spec2Isabelle.thy ===== *)
theory Spec2Isabelle
  imports Disc_Filter Disc_Entry Disc_Closest Disc_Query_Pool Disc_Lru_Time_Cache
    Disc_Handler_Safety Disc_Query_Info Disc_Ip_Vote Disc_Nodes_Answer Disc_Multiaddr Disc_Start
begin

text \<open>
  A verification of \<open>discv5\<close>, a Rust implementation of the Node Discovery Protocol v5. The paths below are
  relative to the crate's \<open>src\<close> directory.

  \<^bold>\<open>The program.\<close> A node keeps a Kademlia routing table of other nodes (\<open>kbucket.rs\<close>), looks nodes up by
  iterative queries (\<open>query_pool\<close>), and exchanges messages with them over UDP. Received datagrams pass a
  packet filter (\<open>socket/filter\<close>, \<open>socket/recv.rs\<close>), are decoded (\<open>packet\<close>) and given to the handler
  (\<open>handler\<close>), which keeps the encrypted sessions; the decrypted messages (\<open>rpc.rs\<close>) go to the service
  (\<open>service.rs\<close>), which drives table and queries.

  \<^bold>\<open>Conventions.\<close> A panic (failed index, \<open>expect\<close>, debug assertion, arithmetic overflow in a checked
  build) is the value \<open>None\<close> of the option type; a Rust \<open>Result\<close> is a sum whose left side is the error.
  Instants and durations are natural numbers of nanoseconds, so that the sum of an instant and a duration
  never overflows, and an operation that reads the clock takes the instants, or a function from the number of
  the reading to the instant, as an argument. Integers whose
  width matters are words or have the bound written out. Code of other crates is an argument of the
  definitions that use it, with a predicate \<open>..._laws\<close> that states what it documents; the laws are shown to
  be satisfiable by the witnesses. The iteration order of a hash map is an argument. Random values are
  arguments. Logging has no effect on the modelled state and is left out.

  \<^bold>\<open>Data structures and wire formats.\<close>
    \<^item> \<open>Disc_Prelude\<close>, \<open>Disc_Net\<close>: vectors, bounded vectors, byte strings, slices, socket addresses.
    \<^item> \<open>Disc_Key\<close> (\<open>kbucket/key.rs\<close>): keys, the XOR metric and the bucket index.
    \<^item> \<open>Disc_Bucket\<close> (\<open>kbucket/bucket.rs\<close>): a bucket and all its operations; no sequence of operations
      panics or breaks the bucket invariant, and \<open>insert\<close>, \<open>update_status\<close> and \<open>apply_pending\<close> refine a
      specification on two queues of disconnected and connected nodes.
    \<^item> \<open>Disc_Filter\<close> (\<open>kbucket/filter.rs\<close>), \<open>Disc_Table\<close> (\<open>kbucket.rs\<close>), \<open>Disc_Entry\<close>
      (\<open>kbucket/entry.rs\<close>), \<open>Disc_Closest\<close> (the iterators of \<open>kbucket.rs\<close>): the table, whose operations
      run without a panic; keys are unique and in the bucket of their distance; the closest iterators yield
      the nodes by increasing distance. The locale \<open>bucket_op\<close> is the contract of an operation on one bucket.
      \<open>Disc_Values\<close>: a property of the stored records is kept by every operation of the table.
    \<^item> \<open>Disc_Btree\<close>, \<open>Disc_Predicate_Query\<close> (\<open>query_pool/peers/predicate.rs\<close>), \<open>Disc_Find_Query\<close>
      (\<open>query_pool/peers/closest.rs\<close>), \<open>Disc_Query_Pool\<close> (\<open>query_pool.rs\<close>): the queries over the ordered
      map of the standard library (locale \<open>ordered_map\<close>). The find-node query is the predicate query with a
      predicate that always holds; the pool removes exactly finished and timed out queries.
    \<^item> \<open>Disc_Lru_Time_Cache\<close> (\<open>lru_time_cache.rs\<close>), \<open>Disc_Rate_Limiter\<close>
      (\<open>socket/filter/rate_limiter.rs\<close>), \<open>Disc_Packet_Filter\<close> (\<open>socket/filter\<close>, \<open>handle_inbound\<close> of
      \<open>socket/recv.rs\<close>): the cache, the limiter with its bound on accepted requests in any window, and the
      filter a datagram passes before it reaches the handler. Creating the packet cache of the filter panics
      when its capacity overflows; \<open>elem_size\<close> is the size of an entry in bytes, which the compiler chooses.
    \<^item> \<open>Disc_Packet\<close> (\<open>packet/mod.rs\<close>), \<open>Disc_Rpc\<close> (\<open>rpc.rs\<close>): the two wire formats with their round trips.
    \<^item> \<open>Disc_Node_Info\<close> (\<open>node_info.rs\<close>, \<open>ipmode.rs\<close>, \<open>permit_ban.rs\<close>), \<open>Disc_Query_Info\<close>
      (\<open>service/query_info.rs\<close>), \<open>Disc_Ip_Vote\<close> (\<open>service/ip_vote.rs\<close>), \<open>Disc_Config\<close> (\<open>config.rs\<close>).

  \<^bold>\<open>Tasks.\<close> Each task of the program is a state record and a step function, one step per branch that its
  \<open>select!\<close> takes. What a task sends on a channel is appended to a list of its state.
    \<^item> \<open>Disc_Socket\<close> (\<open>socket/mod.rs\<close>, \<open>socket/send.rs\<close>, \<open>socket/recv.rs\<close>): the sockets and the two tasks.
      The receive task does not panic, and a contact the node can build has a socket of its family.
    \<^item> \<open>Disc_Active_Requests\<close> (\<open>handler/active_requests.rs\<close>, \<open>handler/request_call.rs\<close>), \<open>Disc_Session\<close>
      (\<open>handler/session.rs\<close>, \<open>handler/crypto\<close>): requests that await a response and sessions. Both sides of a
      handshake agree on the keys, each decrypts what the other encrypts from then on, and a session never
      repeats a nonce.
    \<^item> \<open>Disc_Handler\<close> (\<open>handler/mod.rs\<close>), \<open>Disc_Handler_Inv\<close>, \<open>Disc_Handler_Keys\<close>, \<open>Disc_Handler_Safety\<close>: the
      handler. It does not panic, every request of the service is active, waiting or reported as failed or
      answered, a packet leads to a message for the service only when it is authenticated, and a WHOAREYOU
      packet that no request explains leaves the state as it is, up to the timeout of a request it names.
      What is authentic is stated with the primitives for signatures, key derivation and decryption;
      \<open>Disc_Handler_Keys\<close> follows the keys of a session through a handshake.
    \<^item> \<open>Disc_Service\<close> (\<open>service.rs\<close>), \<open>Disc_Service_Inv\<close>: the service and its invariant. The record \<open>ghost\<close>
      holds what the invariant refers to beyond the state: the requests sent so far, the callbacks that wait,
      the property of stored records, the number of request ids drawn, the address families and the records that
      sessions were established with.
    \<^item> \<open>Disc_Discv5\<close> (\<open>discv5.rs\<close>): the operations of the interface.
    \<^item> \<open>Disc_Multiaddr\<close> (contacts from multiaddresses in \<open>node_info.rs\<close>, \<open>request_enr\<close> of \<open>discv5.rs\<close>): which node
      is asked for its record, and that nothing panics on a multiaddress with the peer ids of public keys.
      The multiaddress is the list of its protocols; the \<open>libp2p\<close> crate is a parameter with laws.

  \<^bold>\<open>Composition.\<close>
    \<^item> \<open>Disc_Node\<close>: \<open>node_runs\<close> has the runs of interface and service, which share table, local record and
      ban list, with a set \<open>S\<close> that holds the records of all sessions the service is told of; \<open>node_reachable\<close> is the
      case where \<open>S\<close> has all records. \<open>Disc_Runs\<close>: the events for which the service panics, that the table only
      holds admitted records and those of sessions, what the service makes of a NODES response, and that a
      callback waits until it is answered, unless the response is of the wrong kind.
    \<^item> \<open>Disc_Nodes_Answer\<close>: the records in the answer to a FINDNODE request and the size of its datagrams.
    \<^item> \<open>Disc_System\<close>: \<open>system_reachable\<close> adds the handler and the two channels between it and the service. The
      panic of the service on a response from an unexpected address, which \<open>Disc_Runs\<close> leaves open, does not
      happen, because the handler only passes on responses to requests, from the address these went to.
    \<^item> \<open>Disc_Start\<close> (\<open>start\<close> of \<open>discv5.rs\<close>, \<open>spawn\<close> of \<open>handler/mod.rs\<close>): how the node comes up from its
      configuration, with all the ways in which that fails.

  \<^bold>\<open>Bounds.\<close> Request ids are eight random bytes, so no infinite run has distinct ones. \<open>service_env_ok E N\<close>
  has the first \<open>N\<close> ids of the service distinct, and the runs draw at most \<open>N\<close>. In the same way \<open>env_ok H N ttl\<close>
  speaks of the first \<open>N\<close> random draws of the handler, with \<open>N\<close> below the range of the 32-bit nonce counter, and
  \<open>room\<close> says that the next step stays within them: a step draws at most once per active or waiting request
  of a node and five times more. \<open>env_ok\<close> also has the clock monotone, with two consecutive readings at most a
  session timeout apart. \<open>system_ok\<close> joins both and has the ids of the service distinct from those the handler
  makes for its own requests. No definition has fuel: a loop is a recursion that ends, except the one of
  \<open>service/query_info.rs\<close>, a partial function that is shown to return.

  \<^bold>\<open>Not modelled.\<close> The executor, a trait around the asynchronous runtime, and the example programs. Binding,
  reading and writing a UDP socket are parameters or events. Of \<open>discv5.rs\<close>, accessors that clone a field
  and \<open>with_kbuckets\<close>, which gives the table to a closure of the caller. Of \<open>metrics.rs\<close>, the snapshot with its
  floating-point average and the two counters that are only written. Memory that the allocator refuses
  although the size is valid. \<open>Display\<close> and \<open>Debug\<close> implementations.
\<close>

end
